(* ===== verification/Xv6_Prelude.thy ===== *)
theory Xv6_Prelude
  imports Main "HOL-Library.Word"
begin

text \<open>
  Shared vocabulary of the development: the machine integer types of kernel/types.h, the
  outcome type of kernel code (a value and a new state, a panic with its message, or a
  process that has gone to sleep), the sequencing operators the components are written
  with, a total-correctness calculus for them, and generic facts about lists and words.
\<close>

unbundle bit_operations_syntax

section \<open>Machine integers\<close>

text \<open>kernel/types.h: uchar, ushort, uint and uint64.\<close>

type_synonym u8 = "8 word"
type_synonym u16 = "16 word"
type_synonym u32 = "32 word"
type_synonym u64 = "64 word"

section \<open>Fact collections\<close>

named_theorems frame_simps \<open>what an operation leaves unchanged\<close>
named_theorems wp_rules \<open>total-correctness rules of the kernel operations\<close>
named_theorems len_simps \<open>lengths of the fixed-size arrays after updates\<close>

section \<open>Outcomes of kernel code\<close>

text \<open>
  \<open>Ok a s\<close>: the code returned \<open>a\<close> in state \<open>s\<close>. \<open>Panic m\<close>: panic(m) was called (it never
  returns). \<open>Sleep s\<close>: the running process has given up the CPU in \<open>s\<close>, by sleep(): nothing
  more happens until some other activity wakes it.
\<close>

datatype ('s, 'a) out = Ok 'a 's | Panic string | Sleep 's

type_synonym ('s, 'a) km = "'s \<Rightarrow> ('s, 'a) out"

definition kret :: "'a \<Rightarrow> ('s, 'a) km" where
  "kret a s = Ok a s"

definition kpanic :: "string \<Rightarrow> ('s, 'a) km" where
  "kpanic m s = Panic m"

definition kbind :: "('s, 'a) km \<Rightarrow> ('a \<Rightarrow> ('s, 'b) km) \<Rightarrow> ('s, 'b) km" where
  "kbind m f s = (case m s of Ok a s' \<Rightarrow> f a s' | Panic e \<Rightarrow> Panic e | Sleep s' \<Rightarrow> Sleep s')"

definition kthen :: "('s, 'a) km \<Rightarrow> ('s, 'b) km \<Rightarrow> ('s, 'b) km" where
  "kthen m n = kbind m (\<lambda>_. n)"

definition kgets :: "('s \<Rightarrow> 'a) \<Rightarrow> ('s, 'a) km" where
  "kgets f s = Ok (f s) s"

definition kmodify :: "('s \<Rightarrow> 's) \<Rightarrow> ('s, unit) km" where
  "kmodify f s = Ok () (f s)"

definition kpanic_if :: "('s \<Rightarrow> bool) \<Rightarrow> string \<Rightarrow> ('s, unit) km" where
  "kpanic_if c m s = (if c s then Panic m else Ok () s)"

definition kwhen :: "bool \<Rightarrow> ('s, unit) km \<Rightarrow> ('s, unit) km" where
  "kwhen c m = (if c then m else kret ())"

text \<open>A \<open>for\<close> loop over a list of indices, without early exit.\<close>

primrec kfor :: "'i list \<Rightarrow> ('i \<Rightarrow> ('s, unit) km) \<Rightarrow> ('s, unit) km" where
  "kfor [] f = kret ()"
| "kfor (i # is) f = kthen (f i) (kfor is f)"

lemma kret_apply [simp]: "kret a s = Ok a s"
  by (simp add: kret_def)

lemma kpanic_apply [simp]: "kpanic m s = Panic m"
  by (simp add: kpanic_def)

lemma kgets_apply [simp]: "kgets f s = Ok (f s) s"
  by (simp add: kgets_def)

lemma kmodify_apply [simp]: "kmodify f s = Ok () (f s)"
  by (simp add: kmodify_def)

lemma kpanic_if_apply: "kpanic_if c m s = (if c s then Panic m else Ok () s)"
  by (simp add: kpanic_if_def)

lemma kpanic_if_cases [simp]:
  "c s \<Longrightarrow> kpanic_if c m s = Panic m"
  "\<not> c s \<Longrightarrow> kpanic_if c m s = Ok () s"
  by (simp_all add: kpanic_if_def)

lemma kwhen_simps [simp]: "kwhen True m = m" "kwhen False m = kret ()"
  by (simp_all add: kwhen_def)

lemma kbind_Ok: "m s = Ok a s' \<Longrightarrow> kbind m f s = f a s'"
  by (simp add: kbind_def)

lemma kthen_Ok: "m s = Ok a s' \<Longrightarrow> kthen m n s = n s'"
  by (simp add: kthen_def kbind_def)

lemma kbind_Panic: "m s = Panic e \<Longrightarrow> kbind m f s = Panic e"
  by (simp add: kbind_def)

lemma kthen_Panic: "m s = Panic e \<Longrightarrow> kthen m n s = Panic e"
  by (simp add: kthen_def kbind_def)

lemma kbind_Sleep: "m s = Sleep s' \<Longrightarrow> kbind m f s = Sleep s'"
  by (simp add: kbind_def)

lemma kthen_Sleep: "m s = Sleep s' \<Longrightarrow> kthen m n s = Sleep s'"
  by (simp add: kthen_def kbind_def)

lemmas kseq = kbind_Ok kthen_Ok kbind_Panic kthen_Panic kbind_Sleep kthen_Sleep

lemma kbind_basic [simp]:
  "kbind (kret a) f s = f a s"
  "kbind (Ok a) f s = f a s"
  "kbind (kgets g) f s = f (g s) s"
  "kbind (kmodify h) k s = k () (h s)"
  "kbind (kpanic m) f s = Panic m"
  by (simp_all add: kbind_def)

lemma kthen_basic [simp]:
  "kthen (kret a) n s = n s"
  "kthen (Ok a) n s = n s"
  "kthen (kmodify h) n s = n (h s)"
  "kthen (kpanic m) n s = Panic m"
  by (simp_all add: kthen_def)

lemma kthen_panic_if [simp]:
  "kthen (kpanic_if c m) n s = (if c s then Panic m else n s)"
  by (simp add: kthen_def kbind_def kpanic_if_def)

lemma kbind_assoc: "kbind (kbind m f) g = kbind m (\<lambda>a. kbind (f a) g)"
  by (auto simp: kbind_def fun_eq_iff split: out.splits)

lemma kthen_assoc: "kthen (kthen m n) p = kthen m (kthen n p)"
  by (simp add: kthen_def kbind_assoc)

lemma kbind_kthen: "kbind (kthen m n) f = kthen m (kbind n f)"
  by (simp add: kthen_def kbind_assoc)

lemma kthen_kbind: "kthen (kbind m f) n = kbind m (\<lambda>a. kthen (f a) n)"
  by (simp add: kthen_def kbind_assoc)

lemmas kseq_assoc = kbind_assoc kthen_assoc kbind_kthen kthen_kbind

lemma kbind_if: "kbind (if c then m else m') f = (if c then kbind m f else kbind m' f)"
  by simp

lemma kbind_eq_Ok:
  "kbind m f s = Ok b t \<longleftrightarrow> (\<exists>a s'. m s = Ok a s' \<and> f a s' = Ok b t)"
  by (auto simp: kbind_def split: out.splits)

lemma kthen_eq_Ok:
  "kthen m n s = Ok b t \<longleftrightarrow> (\<exists>a s'. m s = Ok a s' \<and> n s' = Ok b t)"
  by (simp add: kthen_def kbind_eq_Ok)

lemmas kseq_eq_Ok = kbind_eq_Ok kthen_eq_Ok

section \<open>Total correctness\<close>

text \<open>
  \<open>wp m Q s\<close>: from \<open>s\<close> the code \<open>m\<close> returns (it neither panics nor sleeps), and its value
  and final state satisfy \<open>Q\<close>.
\<close>

definition wp :: "('s, 'a) km \<Rightarrow> ('a \<Rightarrow> 's \<Rightarrow> bool) \<Rightarrow> 's \<Rightarrow> bool" where
  "wp m Q s \<longleftrightarrow> (\<exists>a s'. m s = Ok a s' \<and> Q a s')"

lemma wpI: "m s = Ok a s' \<Longrightarrow> Q a s' \<Longrightarrow> wp m Q s"
  by (auto simp: wp_def)

lemma wpE: "wp m Q s \<Longrightarrow> (\<And>a s'. m s = Ok a s' \<Longrightarrow> Q a s' \<Longrightarrow> P) \<Longrightarrow> P"
  by (auto simp: wp_def)

lemma wp_bind: "wp m (\<lambda>a. wp (f a) Q) s \<Longrightarrow> wp (kbind m f) Q s"
  by (auto simp: wp_def kbind_def)

lemma wp_then: "wp m (\<lambda>_. wp n Q) s \<Longrightarrow> wp (kthen m n) Q s"
  by (auto simp: wp_def kthen_def kbind_def)

lemma wp_conseq: "wp m R s \<Longrightarrow> (\<And>a t. R a t \<Longrightarrow> Q a t) \<Longrightarrow> wp m Q s"
  by (auto simp: wp_def)

lemma wp_basic [simp]:
  "wp (kret a) Q s = Q a s"
  "wp (Ok a) Q s = Q a s"
  "wp (kgets f) Q s = Q (f s) s"
  "wp (kmodify h) R s = R () (h s)"
  "wp (kpanic m) Q s = False"
  by (simp_all add: wp_def)

lemma wp_panic_if [simp]: "wp (kpanic_if c m) Q s = (\<not> c s \<and> Q () s)"
  by (simp add: wp_def kpanic_if_def)

text \<open>Loop rule: an invariant indexed by the part of the index list that is done.\<close>

lemma wp_kfor:
  assumes step: "\<And>done i rest t. is = done @ i # rest \<Longrightarrow> I done t \<Longrightarrow>
      wp (f i) (\<lambda>_. I (done @ [i])) t"
    and init: "I [] s"
  shows "wp (kfor is f) (\<lambda>_. I is) s"
proof -
  have "wp (kfor rest f) (\<lambda>_. I is) t" if "is = done @ rest" "I done t" for rest "done" t
    using that
  proof (induction rest arbitrary: "done" t)
    case Nil
    then show ?case by simp
  next
    case (Cons i rest)
    from Cons.prems have "wp (f i) (\<lambda>_. I (done @ [i])) t"
      by (intro step) auto
    then obtain u where u: "f i t = Ok () u" and I: "I (done @ [i]) u"
      by (auto simp: wp_def)
    from Cons.prems(1) have "is = (done @ [i]) @ rest" by simp
    from Cons.IH [OF this I] u show ?case
      by (auto simp: wp_def kthen_def kbind_def)
  qed
  from this [of "[]" "is" s] init show ?thesis by simp
qed

section \<open>Lists and words\<close>

lemma nth_list_update_iff:
  "i < length xs \<Longrightarrow> xs[i := v] ! j = (if j = i then v else xs ! j)"
  by (auto simp: nth_list_update)

lemma length_filter_update_le:
  assumes "i < length xs"
  shows "length (filter P (xs[i := v])) \<le> Suc (length (filter P xs))"
proof -
  have "filter P (xs[i := v]) = filter P (take i xs @ v # drop (Suc i) xs)"
    using assms by (simp add: upd_conv_take_nth_drop)
  moreover have "filter P xs = filter P (take i xs @ xs ! i # drop (Suc i) xs)"
    using assms by (simp add: id_take_nth_drop [symmetric])
  ultimately show ?thesis by simp
qed

text \<open>Updating one position changes the number of elements satisfying \<open>P\<close> by at most one.\<close>

lemma length_filter_update:
  assumes "i < length xs"
  shows "length (filter P (xs[i := v])) + (if P (xs ! i) then 1 else 0) =
    length (filter P xs) + (if P v then 1 else 0)"
proof -
  have "filter P (xs[i := v]) = filter P (take i xs @ v # drop (Suc i) xs)"
    using assms by (simp add: upd_conv_take_nth_drop)
  moreover have "filter P xs = filter P (take i xs @ xs ! i # drop (Suc i) xs)"
    using assms by (simp add: id_take_nth_drop [symmetric])
  ultimately show ?thesis by simp
qed

text \<open>Bounds of the machine integers read as numbers.\<close>

lemma unat_bounds:
  "unat (a :: u8) < 256" "unat (b :: u16) < 65536"
  "unat (c :: u32) < 2 ^ 32" "unat (d :: u64) < 2 ^ 64"
  using unsigned_less [where 'a = nat and w = a] unsigned_less [where 'a = nat and w = b]
    unsigned_less [where 'a = nat and w = c] unsigned_less [where 'a = nat and w = d]
  by simp_all

lemma unat_of_nat_small:
  "n < 2 ^ LENGTH('a) \<Longrightarrow> unat (of_nat n :: 'a::len word) = n"
  by (simp add: unat_of_nat take_bit_nat_eq_self)

lemma unat_add_small:
  "unat a + unat b < 2 ^ LENGTH('a) \<Longrightarrow> unat (a + b :: 'a::len word) = unat a + unat b"
  by (simp add: unat_word_ariths)

end
