(* ===== verification/Xv6_Spinlock.thy ===== *)
theory Xv6_Spinlock
  imports Xv6_Prelude
begin

text \<open>
  kernel/spinlock.c. The operations act on the CPUs' interrupt state (struct cpu's noff and
  intena, and the SIE bit of sstatus) and on a table of locks. acquire and release are split
  into the accesses other CPUs can interleave with; the relation \<open>smp_step\<close> interleaves the CPUs
  at that granularity.
\<close>

section \<open>CPUs and locks\<close>

record cpu =
  noff :: int
  intena :: bool
  sie :: bool   \<comment> \<open>SSTATUS_SIE in the sstatus register: interrupts enabled\<close>

record spinlock =
  lk_name :: string
  lk_locked :: bool
  lk_cpu :: "nat option"

record smp =
  cpus :: "cpu list"
  locks :: "spinlock list"

abbreviation (input) upd_cpu :: "nat \<Rightarrow> (cpu \<Rightarrow> cpu) \<Rightarrow> smp \<Rightarrow> smp" where
  "upd_cpu c f s \<equiv> s\<lparr>cpus := (cpus s)[c := f (cpus s ! c)]\<rparr>"

abbreviation (input) upd_lock :: "nat \<Rightarrow> (spinlock \<Rightarrow> spinlock) \<Rightarrow> smp \<Rightarrow> smp" where
  "upd_lock l f s \<equiv> s\<lparr>locks := (locks s)[l := f (locks s ! l)]\<rparr>"

definition initlock :: "nat \<Rightarrow> string \<Rightarrow> (smp, unit) km" where
  "initlock l name = kmodify (upd_lock l (\<lambda>k. k\<lparr>lk_name := name, lk_locked := False, lk_cpu := None\<rparr>))"

text \<open>rc_sstatus reads sstatus and clears the bit in one instruction.\<close>

definition push_off :: "nat \<Rightarrow> (smp, unit) km" where
  "push_off c = kmodify (upd_cpu c (\<lambda>k.
     k\<lparr>sie := False, intena := (if noff k = 0 then sie k else intena k), noff := noff k + 1\<rparr>))"

definition pop_off :: "nat \<Rightarrow> (smp, unit) km" where
  "pop_off c =
     kthen (kpanic_if (\<lambda>s. sie (cpus s ! c)) ''pop_off - interruptible'')
     (kthen (kpanic_if (\<lambda>s. noff (cpus s ! c) < 1) ''pop_off'')
     (kmodify (upd_cpu c (\<lambda>k.
        k\<lparr>noff := noff k - 1, sie := (if noff k - 1 = 0 \<and> intena k then True else sie k)\<rparr>))))"

definition holding :: "nat \<Rightarrow> nat \<Rightarrow> smp \<Rightarrow> bool" where
  "holding c l s \<longleftrightarrow> lk_locked (locks s ! l) \<and> lk_cpu (locks s ! l) = Some c"

text \<open>acquire up to its loop.\<close>

definition acquire_enter :: "nat \<Rightarrow> nat \<Rightarrow> (smp, unit) km" where
  "acquire_enter c l = kthen (push_off c) (kpanic_if (holding c l) ''acquire'')"

text \<open>__atomic_exchange_n(&lk->locked, 1): the old value.\<close>

definition lock_exchange :: "nat \<Rightarrow> (smp, bool) km" where
  "lock_exchange l =
     kbind (kgets (\<lambda>s. lk_locked (locks s ! l))) (\<lambda>old.
     kthen (kmodify (upd_lock l (\<lambda>k. k\<lparr>lk_locked := True\<rparr>))) (kret old))"

definition lock_set_cpu :: "nat \<Rightarrow> nat option \<Rightarrow> (smp, unit) km" where
  "lock_set_cpu l c = kmodify (upd_lock l (\<lambda>k. k\<lparr>lk_cpu := c\<rparr>))"

definition lock_clear :: "nat \<Rightarrow> (smp, unit) km" where
  "lock_clear l = kmodify (upd_lock l (\<lambda>k. k\<lparr>lk_locked := False\<rparr>))"

text \<open>
  acquire on a lock no other CPU touches meanwhile: one exchange. \<open>None\<close>: the lock was taken,
  and the loop spins.
\<close>

definition acquire :: "nat \<Rightarrow> nat \<Rightarrow> (smp, unit option) km" where
  "acquire c l =
     kthen (acquire_enter c l)
     (kbind (lock_exchange l) (\<lambda>old.
      if old then kret None else kthen (lock_set_cpu l (Some c)) (kret (Some ()))))"

definition release_enter :: "nat \<Rightarrow> nat \<Rightarrow> (smp, unit) km" where
  "release_enter c l =
     kthen (kpanic_if (\<lambda>s. \<not> holding c l s) ''release'') (lock_set_cpu l None)"

definition release :: "nat \<Rightarrow> nat \<Rightarrow> (smp, unit) km" where
  "release c l = kthen (release_enter c l) (kthen (lock_clear l) (pop_off c))"

section \<open>Interleaving CPUs\<close>

text \<open>Where a CPU is: outside, in the loop of acquire, past the loop, inside release.\<close>

datatype lpc = Idle | Spinning nat | Claimed nat | Releasing nat | Popping

text \<open>\<open>extra\<close> counts push_off calls made outside acquire (by myproc and the trap code).\<close>

record world =
  hw :: smp
  pc :: "nat \<Rightarrow> lpc"
  extra :: "nat \<Rightarrow> nat"

abbreviation (input) goto :: "world \<Rightarrow> nat \<Rightarrow> lpc \<Rightarrow> smp \<Rightarrow> world" where
  "goto w c p s \<equiv> w\<lparr>hw := s, pc := (pc w)(c := p)\<rparr>"

inductive smp_step :: "world \<Rightarrow> world \<Rightarrow> bool" where
  enter: "c < length (cpus (hw w)) \<Longrightarrow> l < length (locks (hw w)) \<Longrightarrow> pc w c = Idle \<Longrightarrow>
    acquire_enter c l (hw w) = Ok () s \<Longrightarrow> smp_step w (goto w c (Spinning l) s)"
| spin: "c < length (cpus (hw w)) \<Longrightarrow> pc w c = Spinning l \<Longrightarrow>
    lock_exchange l (hw w) = Ok True s \<Longrightarrow> smp_step w (goto w c (Spinning l) s)"
| win: "c < length (cpus (hw w)) \<Longrightarrow> pc w c = Spinning l \<Longrightarrow>
    lock_exchange l (hw w) = Ok False s \<Longrightarrow> smp_step w (goto w c (Claimed l) s)"
| record_cpu: "c < length (cpus (hw w)) \<Longrightarrow> pc w c = Claimed l \<Longrightarrow>
    lock_set_cpu l (Some c) (hw w) = Ok () s \<Longrightarrow> smp_step w (goto w c Idle s)"
| leave: "c < length (cpus (hw w)) \<Longrightarrow> l < length (locks (hw w)) \<Longrightarrow> pc w c = Idle \<Longrightarrow>
    release_enter c l (hw w) = Ok () s \<Longrightarrow> smp_step w (goto w c (Releasing l) s)"
| clear: "c < length (cpus (hw w)) \<Longrightarrow> pc w c = Releasing l \<Longrightarrow>
    lock_clear l (hw w) = Ok () s \<Longrightarrow> smp_step w (goto w c Popping s)"
| pop: "c < length (cpus (hw w)) \<Longrightarrow> pc w c = Popping \<Longrightarrow>
    pop_off c (hw w) = Ok () s \<Longrightarrow> smp_step w (goto w c Idle s)"
| push: "c < length (cpus (hw w)) \<Longrightarrow> pc w c = Idle \<Longrightarrow> push_off c (hw w) = Ok () s \<Longrightarrow>
    smp_step w (w\<lparr>hw := s, extra := (extra w)(c := extra w c + 1)\<rparr>)"
| unpush: "c < length (cpus (hw w)) \<Longrightarrow> pc w c = Idle \<Longrightarrow> 0 < extra w c \<Longrightarrow>
    pop_off c (hw w) = Ok () s \<Longrightarrow>
    smp_step w (w\<lparr>hw := s, extra := (extra w)(c := extra w c - 1)\<rparr>)"
| intr: "c < length (cpus (hw w)) \<Longrightarrow> pc w c = Idle \<Longrightarrow> noff (cpus (hw w) ! c) = 0 \<Longrightarrow>
    smp_step w (w\<lparr>hw := upd_cpu c (\<lambda>k. k\<lparr>sie := b\<rparr>) (hw w)\<rparr>)"

inductive_cases smp_stepE: "smp_step w w'"

text \<open>Boot: no lock is taken, interrupts are off, no CPU is inside a lock operation.\<close>

definition boot :: "world \<Rightarrow> bool" where
  "boot w \<longleftrightarrow> (\<forall>k\<in>set (locks (hw w)). \<not> lk_locked k \<and> lk_cpu k = None) \<and>
     (\<forall>k\<in>set (cpus (hw w)). noff k = 0) \<and> (\<forall>c. pc w c = Idle \<and> extra w c = 0)"

section \<open>Invariant\<close>

text \<open>A CPU owns a lock from the winning exchange to the clearing store.\<close>

definition owns :: "world \<Rightarrow> nat \<Rightarrow> nat \<Rightarrow> bool" where
  "owns w c l \<longleftrightarrow> lk_cpu (locks (hw w) ! l) = Some c \<or> pc w c = Claimed l \<or> pc w c = Releasing l"

text \<open>The number of locks whose cpu field names \<open>c\<close>.\<close>

definition held :: "world \<Rightarrow> nat \<Rightarrow> nat" where
  "held w c = length (filter (\<lambda>k. lk_cpu k = Some c) (locks (hw w)))"

definition pc_depth :: "lpc \<Rightarrow> nat" where
  "pc_depth p = (if p = Idle then 0 else 1)"

definition pc_lock :: "lpc \<Rightarrow> nat option" where
  "pc_lock p = (case p of Spinning l \<Rightarrow> Some l | Claimed l \<Rightarrow> Some l | Releasing l \<Rightarrow> Some l | _ \<Rightarrow> None)"

text \<open>A lock is taken exactly when some CPU owns it, and then only one does.\<close>

definition lock_ok :: "world \<Rightarrow> nat \<Rightarrow> bool" where
  "lock_ok w l \<longleftrightarrow>
     (lk_locked (locks (hw w) ! l) \<longleftrightarrow> (\<exists>c. owns w c l)) \<and>
     (\<forall>c d. owns w c l \<longrightarrow> owns w d l \<longrightarrow> c = d) \<and>
     (\<forall>c. pc w c = Claimed l \<or> pc w c = Releasing l \<longrightarrow> lk_cpu (locks (hw w) ! l) = None)"

definition lock_inv :: "world \<Rightarrow> bool" where
  "lock_inv w \<longleftrightarrow>
     (\<forall>l<length (locks (hw w)). lock_ok w l) \<and>
     (\<forall>c l. pc_lock (pc w c) = Some l \<longrightarrow> l < length (locks (hw w)))"

text \<open>noff counts the locks held, and interrupts are off while it is positive.\<close>

definition intr_inv :: "world \<Rightarrow> bool" where
  "intr_inv w \<longleftrightarrow> (\<forall>c<length (cpus (hw w)).
     noff (cpus (hw w) ! c) = int (held w c + pc_depth (pc w c) + extra w c) \<and>
     (0 < noff (cpus (hw w) ! c) \<longrightarrow> \<not> sie (cpus (hw w) ! c)))"

lemmas op_defs = push_off_def pop_off_def acquire_enter_def lock_exchange_def lock_set_cpu_def
  lock_clear_def release_enter_def holding_def

text \<open>What each step's operation does to the machine.\<close>

lemma acquire_enter_Ok: "acquire_enter c l s = Ok () t \<longleftrightarrow> \<not> holding c l s \<and> push_off c s = Ok () t"
  by (auto simp: op_defs kpanic_if_apply split: if_splits)

lemma lock_exchange_Ok:
  "lock_exchange l s = Ok old t \<longleftrightarrow>
     old = lk_locked (locks s ! l) \<and> t = upd_lock l (\<lambda>k. k\<lparr>lk_locked := True\<rparr>) s"
  by (auto simp: lock_exchange_def)

lemma release_enter_Ok:
  "release_enter c l s = Ok () t \<longleftrightarrow> holding c l s \<and> t = upd_lock l (\<lambda>k. k\<lparr>lk_cpu := None\<rparr>) s"
  by (auto simp: release_enter_def lock_set_cpu_def)

lemma pop_off_Ok:
  "pop_off c s = Ok () t \<longleftrightarrow> \<not> sie (cpus s ! c) \<and> 1 \<le> noff (cpus s ! c) \<and>
     t = upd_cpu c (\<lambda>k. k\<lparr>noff := noff k - 1,
       sie := (if noff k - 1 = 0 \<and> intena k then True else sie k)\<rparr>) s"
  by (cases "sie (cpus s ! c)"; cases "noff (cpus s ! c) < 1") (auto simp: pop_off_def)

lemma push_off_locks: "push_off c s = Ok () t \<Longrightarrow> locks t = locks s"
  by (auto simp: push_off_def)

lemma pop_off_locks: "pop_off c s = Ok () t \<Longrightarrow> locks t = locks s"
  by (auto simp: pop_off_Ok)

lemma lock_inv_ok: "lock_inv w \<Longrightarrow> l < length (locks (hw w)) \<Longrightarrow> lock_ok w l"
  by (simp add: lock_inv_def)

lemma lock_inv_pc: "lock_inv w \<Longrightarrow> pc_lock (pc w c) = Some l \<Longrightarrow> l < length (locks (hw w))"
  unfolding lock_inv_def by blast

lemma pc_lock_simps [simp]:
  "pc_lock Idle = None" "pc_lock (Spinning l) = Some l" "pc_lock (Claimed l) = Some l"
  "pc_lock (Releasing l) = Some l" "pc_lock Popping = None"
  by (simp_all add: pc_lock_def)

lemma pc_depth_simps [simp]:
  "pc_depth Idle = 0" "pc_depth (Spinning l) = 1" "pc_depth (Claimed l) = 1"
  "pc_depth (Releasing l) = 1" "pc_depth Popping = 1"
  by (simp_all add: pc_depth_def)

text \<open>A lock the step does not touch keeps its invariant.\<close>

lemma lock_ok_cong:
  assumes "locks (hw w') ! l = locks (hw w) ! l"
    and "\<And>d. pc w' d = Claimed l \<longleftrightarrow> pc w d = Claimed l"
    and "\<And>d. pc w' d = Releasing l \<longleftrightarrow> pc w d = Releasing l"
  shows "lock_ok w' l \<longleftrightarrow> lock_ok w l"
  using assms unfolding lock_ok_def owns_def by simp

text \<open>A step of CPU \<open>c\<close> that touches lock \<open>l\<close> only, if any.\<close>

lemma lock_inv_upd:
  assumes inv: "lock_inv w" and len: "length (locks s) = length (locks (hw w))"
    and other: "\<And>k. k \<noteq> l \<Longrightarrow> locks s ! k = locks (hw w) ! k"
    and l: "l < length (locks (hw w)) \<Longrightarrow> lock_ok (goto w c p s) l"
    and pcs: "\<And>k. k \<noteq> l \<Longrightarrow> (p = Claimed k \<longleftrightarrow> pc w c = Claimed k) \<and> (p = Releasing k \<longleftrightarrow> pc w c = Releasing k)"
    and p: "pc_lock p = None \<or> pc_lock p = Some l \<and> l < length (locks (hw w))"
  shows "lock_inv (goto w c p s)"
proof -
  have "lock_ok (goto w c p s) k" if "k < length (locks (hw w))" for k
  proof (cases "k = l")
    case False
    then have "lock_ok (goto w c p s) k \<longleftrightarrow> lock_ok w k"
      using other pcs by (intro lock_ok_cong) auto
    then show ?thesis using lock_inv_ok [OF inv that] by simp
  qed (use l that in simp)
  moreover have "k < length (locks (hw w))" if "pc_lock (((pc w)(c := p)) d) = Some k" for d k
    using that p lock_inv_pc [OF inv] by (cases "d = c") auto
  ultimately show ?thesis using len by (simp add: lock_inv_def)
qed

lemma lock_inv_hw:
  assumes "lock_inv w" "locks (hw w') = locks (hw w)" "pc w' = pc w"
  shows "lock_inv w'"
proof -
  have "lock_ok w' l \<longleftrightarrow> lock_ok w l" for l using assms(2,3) by (intro lock_ok_cong) auto
  then show ?thesis using assms by (simp add: lock_inv_def)
qed

lemma lock_inv_step: "smp_step w w' \<Longrightarrow> lock_inv w \<Longrightarrow> lock_inv w'"
proof (induction rule: smp_step.induct)
  case (enter c w l s)
  then have s: "locks s = locks (hw w)" by (auto simp: acquire_enter_Ok dest: push_off_locks)
  have "lock_ok (goto w c (Spinning l) s) l \<longleftrightarrow> lock_ok w l"
    using enter s by (intro lock_ok_cong) auto
  then show ?case
    using enter s lock_inv_ok [OF enter.prems, of l] by (intro lock_inv_upd [where l = l]) auto
next
  case (spin c w l s)
  have l: "l < length (locks (hw w))" using lock_inv_pc [OF spin.prems, of c] spin.hyps by simp
  have s: "locks s = locks (hw w)"
    using spin.hyps(3) l by (auto simp: lock_exchange_Ok list_update_same_conv)
  have "lock_ok (goto w c (Spinning l) s) l \<longleftrightarrow> lock_ok w l"
    using spin s by (intro lock_ok_cong) auto
  then show ?case
    using spin s l lock_inv_ok [OF spin.prems l] by (intro lock_inv_upd [where l = l]) auto
next
  case (win c w l s)
  have l: "l < length (locks (hw w))" using lock_inv_pc [OF win.prems, of c] win.hyps by simp
  have s: "locks s = (locks (hw w))[l := (locks (hw w) ! l)\<lparr>lk_locked := True\<rparr>]"
    and free: "\<not> lk_locked (locks (hw w) ! l)"
    using win.hyps(3) by (auto simp: lock_exchange_Ok)
  have no: "\<not> owns w d l" for d using lock_inv_ok [OF win.prems l] free by (simp add: lock_ok_def)
  then have "lk_cpu (locks (hw w) ! l) = None"
    by (cases "lk_cpu (locks (hw w) ! l)") (auto simp: owns_def)
  then have "lock_ok (goto w c (Claimed l) s) l"
    using l s no by (auto simp: lock_ok_def owns_def)
  then show ?case
    using win s l by (intro lock_inv_upd [where l = l]) auto
next
  case (record_cpu c w l s)
  have l: "l < length (locks (hw w))" using lock_inv_pc [OF record_cpu.prems, of c] record_cpu.hyps by simp
  have s: "locks s = (locks (hw w))[l := (locks (hw w) ! l)\<lparr>lk_cpu := Some c\<rparr>]"
    using record_cpu.hyps(3) by (auto simp: lock_set_cpu_def)
  have "lock_ok w l" by (rule lock_inv_ok [OF record_cpu.prems l])
  then have "lock_ok (goto w c Idle s) l"
    using l s record_cpu.hyps(2) unfolding lock_ok_def owns_def by auto
  then show ?case
    using record_cpu s l by (intro lock_inv_upd [where l = l]) auto
next
  case (leave c w l s)
  have s: "locks s = (locks (hw w))[l := (locks (hw w) ! l)\<lparr>lk_cpu := None\<rparr>]"
    and h: "lk_locked (locks (hw w) ! l)" "lk_cpu (locks (hw w) ! l) = Some c"
    using leave.hyps(4) by (auto simp: release_enter_Ok holding_def)
  have "lock_ok w l" by (rule lock_inv_ok [OF leave.prems leave.hyps(2)])
  then have "lock_ok (goto w c (Releasing l) s) l"
    using leave.hyps(2) s h unfolding lock_ok_def owns_def by auto
  then show ?case
    using leave s by (intro lock_inv_upd [where l = l]) auto
next
  case (clear c w l s)
  have l: "l < length (locks (hw w))" using lock_inv_pc [OF clear.prems, of c] clear.hyps by simp
  have s: "locks s = (locks (hw w))[l := (locks (hw w) ! l)\<lparr>lk_locked := False\<rparr>]"
    using clear.hyps(3) by (auto simp: lock_clear_def)
  have "lock_ok w l" by (rule lock_inv_ok [OF clear.prems l])
  then have "lock_ok (goto w c Popping s) l"
    using l s clear.hyps(2) unfolding lock_ok_def owns_def by auto
  then show ?case
    using clear s l by (intro lock_inv_upd [where l = l]) auto
next
  case (pop c w s)
  have s: "locks s = locks (hw w)" by (rule pop_off_locks [OF pop.hyps(3)])
  have "lock_ok (goto w c Idle s) 0 \<longleftrightarrow> lock_ok w 0"
    using pop s by (intro lock_ok_cong) auto
  then show ?case
    using pop s lock_inv_ok [OF pop.prems, of 0] by (intro lock_inv_upd [where l = 0]) auto
next
  case (push c w s)
  show ?case by (rule lock_inv_hw [OF push.prems]) (simp_all add: push_off_locks [OF push.hyps(3)])
next
  case (unpush c w s)
  show ?case by (rule lock_inv_hw [OF unpush.prems]) (simp_all add: pop_off_locks [OF unpush.hyps(4)])
next
  case (intr c w b)
  show ?case by (rule lock_inv_hw [OF intr.prems]) simp_all
qed

text \<open>The count of locks held, when the cpu field of lock \<open>l\<close> changes.\<close>

lemma held_upd:
  assumes "l < length (locks (hw w))" "locks (hw w') = (locks (hw w))[l := k]"
  shows "held w' d + (if lk_cpu (locks (hw w) ! l) = Some d then 1 else 0) =
    held w d + (if lk_cpu k = Some d then 1 else 0)"
  using length_filter_update [OF assms(1), of "\<lambda>k. lk_cpu k = Some d" k] assms(2)
  by (simp add: held_def)

lemma held_keep:
  assumes "l < length (locks (hw w))" "locks (hw w') = (locks (hw w))[l := k]"
    and "lk_cpu k = lk_cpu (locks (hw w) ! l)"
  shows "held w' d = held w d"
  using held_upd [OF assms(1,2), of d] assms(3) by simp

lemma held_same: "locks (hw w') = locks (hw w) \<Longrightarrow> held w' = held w"
  by (simp add: held_def fun_eq_iff)

lemma intr_inv_cpu:
  assumes "intr_inv w" "c < length (cpus (hw w))"
  shows "noff (cpus (hw w) ! c) = int (held w c + pc_depth (pc w c) + extra w c)"
    "0 < noff (cpus (hw w) ! c) \<Longrightarrow> \<not> sie (cpus (hw w) ! c)"
  using assms by (simp_all add: intr_inv_def)

text \<open>A step of CPU \<open>c\<close> changes the depth of no other CPU.\<close>

lemma intr_inv_upd:
  assumes inv: "intr_inv w" and c: "c < length (cpus (hw w))"
    and k: "cpus (hw w') = (cpus (hw w))[c := k]"
    and other: "\<And>d. d \<noteq> c \<Longrightarrow> held w' d = held w d \<and> pc w' d = pc w d \<and> extra w' d = extra w d"
    and depth: "noff k = int (held w' c + pc_depth (pc w' c) + extra w' c)" "0 < noff k \<Longrightarrow> \<not> sie k"
  shows "intr_inv w'"
  unfolding intr_inv_def
proof (intro allI impI)
  fix d assume d: "d < length (cpus (hw w'))"
  show "noff (cpus (hw w') ! d) = int (held w' d + pc_depth (pc w' d) + extra w' d) \<and>
      (0 < noff (cpus (hw w') ! d) \<longrightarrow> \<not> sie (cpus (hw w') ! d))"
  proof (cases "d = c")
    case True
    then show ?thesis using depth c k by simp
  next
    case False
    then show ?thesis using other [OF False] intr_inv_cpu [OF inv, of d] d k by simp
  qed
qed

text \<open>A CPU after pop_off.\<close>

definition popped :: "cpu \<Rightarrow> cpu" where
  "popped k = k\<lparr>noff := noff k - 1, sie := (if noff k - 1 = 0 \<and> intena k then True else sie k)\<rparr>"

lemma popped_sie: "noff (popped k) = noff k - 1" "sie (popped k) \<Longrightarrow> noff k \<noteq> 1 \<Longrightarrow> sie k"
  by (auto simp: popped_def split: if_splits)

lemma intr_inv_step: "smp_step w w' \<Longrightarrow> lock_inv w \<Longrightarrow> intr_inv w \<Longrightarrow> intr_inv w'"
proof (induction rule: smp_step.induct)
  case (enter c w l s)
  then have s: "s = upd_cpu c (\<lambda>k. k\<lparr>sie := False, intena := (if noff k = 0 then sie k else intena k),
      noff := noff k + 1\<rparr>) (hw w)" by (auto simp: acquire_enter_Ok push_off_def)
  have "held (goto w c (Spinning l) s) = held w" by (rule held_same) (simp add: s)
  then show ?case
    using enter intr_inv_cpu [OF enter.prems(2), of c]
    by (intro intr_inv_upd [OF enter.prems(2), of c]) (auto simp: s)
next
  case (spin c w l s)
  then have s: "cpus s = cpus (hw w)" "locks s = (locks (hw w))[l := (locks (hw w) ! l)\<lparr>lk_locked := True\<rparr>]"
    by (auto simp: lock_exchange_Ok)
  have l: "l < length (locks (hw w))" using lock_inv_pc [OF spin.prems(1), of c] spin.hyps by simp
  have "held (goto w c (Spinning l) s) d = held w d" for d
    by (rule held_keep [OF l, where k = "(locks (hw w) ! l)\<lparr>lk_locked := True\<rparr>"]) (simp_all add: s)
  then show ?case
    using spin intr_inv_cpu [OF spin.prems(2), of c] s(1)
    by (intro intr_inv_upd [OF spin.prems(2), of c _ "cpus (hw w) ! c"]) auto
next
  case (win c w l s)
  then have s: "cpus s = cpus (hw w)" "locks s = (locks (hw w))[l := (locks (hw w) ! l)\<lparr>lk_locked := True\<rparr>]"
    by (auto simp: lock_exchange_Ok)
  have l: "l < length (locks (hw w))" using lock_inv_pc [OF win.prems(1), of c] win.hyps by simp
  have "held (goto w c (Claimed l) s) d = held w d" for d
    by (rule held_keep [OF l, where k = "(locks (hw w) ! l)\<lparr>lk_locked := True\<rparr>"]) (simp_all add: s)
  then show ?case
    using win intr_inv_cpu [OF win.prems(2), of c] s(1)
    by (intro intr_inv_upd [OF win.prems(2), of c _ "cpus (hw w) ! c"]) auto
next
  case (record_cpu c w l s)
  then have s: "cpus s = cpus (hw w)" "locks s = (locks (hw w))[l := (locks (hw w) ! l)\<lparr>lk_cpu := Some c\<rparr>]"
    by (auto simp: lock_set_cpu_def)
  have l: "l < length (locks (hw w))" using lock_inv_pc [OF record_cpu.prems(1), of c] record_cpu.hyps by simp
  have none: "lk_cpu (locks (hw w) ! l) = None"
    using lock_inv_ok [OF record_cpu.prems(1) l] record_cpu.hyps(2) by (auto simp: lock_ok_def)
  have "held (goto w c Idle s) d = held w d + (if d = c then 1 else 0)" for d
    using held_upd [OF l, of "goto w c Idle s" "(locks (hw w) ! l)\<lparr>lk_cpu := Some c\<rparr>" d] s none
    by auto
  then show ?case
    using record_cpu intr_inv_cpu [OF record_cpu.prems(2), of c] s(1)
    by (intro intr_inv_upd [OF record_cpu.prems(2), of c _ "cpus (hw w) ! c"]) auto
next
  case (leave c w l s)
  then have s: "cpus s = cpus (hw w)" "locks s = (locks (hw w))[l := (locks (hw w) ! l)\<lparr>lk_cpu := None\<rparr>]"
    and h: "lk_cpu (locks (hw w) ! l) = Some c"
    by (auto simp: release_enter_Ok holding_def)
  have held: "held (goto w c (Releasing l) s) d + (if d = c then 1 else 0) = held w d" for d
    using held_upd [OF leave.hyps(2), of "goto w c (Releasing l) s" "(locks (hw w) ! l)\<lparr>lk_cpu := None\<rparr>" d]
      s h by auto
  have "held (goto w c (Releasing l) s) d = held w d" if "d \<noteq> c" for d using held [of d] that by simp
  then show ?case
    using leave intr_inv_cpu [OF leave.prems(2), of c] s(1) held [of c]
    by (intro intr_inv_upd [OF leave.prems(2), of c _ "cpus (hw w) ! c"]) auto
next
  case (clear c w l s)
  then have s: "cpus s = cpus (hw w)" "locks s = (locks (hw w))[l := (locks (hw w) ! l)\<lparr>lk_locked := False\<rparr>]"
    by (auto simp: lock_clear_def)
  have l: "l < length (locks (hw w))" using lock_inv_pc [OF clear.prems(1), of c] clear.hyps by simp
  have "held (goto w c Popping s) d = held w d" for d
    by (rule held_keep [OF l, where k = "(locks (hw w) ! l)\<lparr>lk_locked := False\<rparr>"]) (simp_all add: s)
  then show ?case
    using clear intr_inv_cpu [OF clear.prems(2), of c] s(1)
    by (intro intr_inv_upd [OF clear.prems(2), of c _ "cpus (hw w) ! c"]) auto
next
  case (pop c w s)
  let ?k = "cpus (hw w) ! c"
  from pop.hyps(3) [unfolded pop_off_Ok]
  have s: "s = (hw w)\<lparr>cpus := (cpus (hw w))[c := popped ?k]\<rparr>" and n: "\<not> sie ?k"
    by (simp_all add: popped_def)
  have "held (goto w c Idle s) = held w" by (rule held_same) (simp add: s)
  then show ?case
    using pop.hyps(1,2) n intr_inv_cpu [OF pop.prems(2) pop.hyps(1)]
    by (intro intr_inv_upd [OF pop.prems(2) pop.hyps(1), where k = "popped ?k"]) (auto simp: s popped_sie)
next
  case (push c w s)
  then have s: "s = upd_cpu c (\<lambda>k. k\<lparr>sie := False, intena := (if noff k = 0 then sie k else intena k),
      noff := noff k + 1\<rparr>) (hw w)" by (auto simp: push_off_def)
  have "held (w\<lparr>hw := s, extra := (extra w)(c := extra w c + 1)\<rparr>) = held w" by (rule held_same) (simp add: s)
  then show ?case
    using push intr_inv_cpu [OF push.prems(2), of c]
    by (intro intr_inv_upd [OF push.prems(2), of c]) (auto simp: s)
next
  case (unpush c w s)
  let ?k = "cpus (hw w) ! c" and ?w = "w\<lparr>hw := s, extra := (extra w)(c := extra w c - 1)\<rparr>"
  from unpush.hyps(4) [unfolded pop_off_Ok]
  have s: "s = (hw w)\<lparr>cpus := (cpus (hw w))[c := popped ?k]\<rparr>" and n: "\<not> sie ?k"
    by (simp_all add: popped_def)
  have "held ?w = held w" by (rule held_same) (simp add: s)
  then show ?case
    using unpush.hyps(1-3) n intr_inv_cpu [OF unpush.prems(2) unpush.hyps(1)]
    by (intro intr_inv_upd [OF unpush.prems(2) unpush.hyps(1), where k = "popped ?k"]) (auto simp: s popped_sie)
next
  case (intr c w b)
  have "held (w\<lparr>hw := upd_cpu c (\<lambda>k. k\<lparr>sie := b\<rparr>) (hw w)\<rparr>) = held w" by (rule held_same) simp
  then show ?case
    using intr intr_inv_cpu [OF intr.prems(2), of c]
    by (intro intr_inv_upd [OF intr.prems(2), where c = c and k = "(cpus (hw w) ! c)\<lparr>sie := b\<rparr>"]) auto
qed

lemma boot_inv: "boot w \<Longrightarrow> lock_inv w \<and> intr_inv w"
proof
  assume b: "boot w"
  have none: "\<not> lk_locked (locks (hw w) ! l)" "lk_cpu (locks (hw w) ! l) = None"
    if "l < length (locks (hw w))" for l
    using b nth_mem [OF that] by (auto simp: boot_def)
  then show "lock_inv w"
    using b by (auto simp: lock_inv_def lock_ok_def owns_def boot_def)
  have "filter (\<lambda>k. lk_cpu k = Some c) (locks (hw w)) = []" for c
    using b by (auto simp: boot_def filter_empty_conv)
  then show "intr_inv w"
    using b by (auto simp: intr_inv_def held_def boot_def)
qed

lemma reachable_inv: "smp_step\<^sup>*\<^sup>* w0 w \<Longrightarrow> boot w0 \<Longrightarrow> lock_inv w \<and> intr_inv w"
  by (induction rule: rtranclp_induct) (auto simp: boot_inv intro: lock_inv_step intr_inv_step)

section \<open>Properties\<close>

text \<open>C29: spin locks give mutual exclusion. However the CPUs interleave from boot on, two CPUs
  never own the same lock, and a CPU that owns a lock runs with interrupts off.\<close>

theorem spinlock_mutual_exclusion:
  assumes "boot w0" "smp_step\<^sup>*\<^sup>* w0 w" "l < length (locks (hw w))"
  shows "(owns w c l \<longrightarrow> owns w d l \<longrightarrow> c = d) \<and>
    (c < length (cpus (hw w)) \<longrightarrow> owns w c l \<longrightarrow> \<not> sie (cpus (hw w) ! c))"
proof -
  have inv: "lock_inv w" "intr_inv w" using reachable_inv [OF assms(2,1)] by auto
  have "0 < held w c + pc_depth (pc w c)" if "owns w c l"
  proof (cases "lk_cpu (locks (hw w) ! l) = Some c")
    case True
    then have "locks (hw w) ! l \<in> set (filter (\<lambda>k. lk_cpu k = Some c) (locks (hw w)))"
      using assms(3) by simp
    then show ?thesis unfolding held_def using length_pos_if_in_set by (metis add_is_0 neq0_conv)
  qed (use that in \<open>auto simp: owns_def\<close>)
  then have "\<not> sie (cpus (hw w) ! c)" if "c < length (cpus (hw w))" "owns w c l"
    using intr_inv_cpu [OF inv(2) that(1)] that(2) by (metis add_pos_nonneg of_nat_0_le_iff of_nat_0_less_iff of_nat_add)
  then show ?thesis
    using lock_inv_ok [OF inv(1) assms(3)] unfolding lock_ok_def by blast
qed

definition smp_sample :: world where
  "smp_sample = \<lparr>hw = \<lparr>cpus = [\<lparr>noff = 0, intena = False, sie = True\<rparr>, \<lparr>noff = 0, intena = False, sie = False\<rparr>],
       locks = [\<lparr>lk_name = ''kmem'', lk_locked = False, lk_cpu = None\<rparr>]\<rparr>,
     pc = (\<lambda>_. Idle), extra = (\<lambda>_. 0)\<rparr>"

text \<open>CPU 0 takes the lock: it enters acquire and its exchange finds the lock free.\<close>

definition smp_entered :: world where
  "smp_entered = goto smp_sample 0 (Spinning 0)
     (upd_cpu 0 (\<lambda>_. \<lparr>noff = 1, intena = True, sie = False\<rparr>) (hw smp_sample))"

definition smp_taken :: world where
  "smp_taken = goto smp_entered 0 (Claimed 0) (upd_lock 0 (\<lambda>k. k\<lparr>lk_locked := True\<rparr>) (hw smp_entered))"

lemma smp_taken_reachable: "smp_step\<^sup>*\<^sup>* smp_sample smp_taken"
proof -
  have "smp_step smp_sample smp_entered" unfolding smp_entered_def
    by (rule smp_step.enter) (simp_all add: smp_sample_def op_defs)
  moreover have "smp_step smp_entered smp_taken" unfolding smp_taken_def
    by (rule smp_step.win) (simp_all add: smp_entered_def smp_sample_def op_defs)
  ultimately show ?thesis by simp
qed

theorem spinlock_mutual_exclusion_witness:
  "owns smp_taken 0 0 \<and> \<not> owns smp_taken 1 0 \<and> \<not> sie (cpus (hw smp_taken) ! 0)"
proof -
  have "boot smp_sample" by (simp add: smp_sample_def boot_def)
  moreover have "owns smp_taken 0 0" by (simp add: owns_def smp_taken_def)
  moreover have "0 < length (locks (hw smp_taken))" "0 < length (cpus (hw smp_taken))"
    by (simp_all add: smp_taken_def smp_entered_def smp_sample_def)
  ultimately show ?thesis
    using spinlock_mutual_exclusion [OF _ smp_taken_reachable, of 0 0 1] by auto
qed

primrec push_n :: "nat \<Rightarrow> nat \<Rightarrow> (smp, unit) km" where
  "push_n c 0 = kret ()"
| "push_n c (Suc n) = kthen (push_off c) (push_n c n)"

primrec pop_n :: "nat \<Rightarrow> nat \<Rightarrow> (smp, unit) km" where
  "pop_n c 0 = kret ()"
| "pop_n c (Suc n) = kthen (pop_off c) (pop_n c n)"

lemma sie_off: "\<not> sie k \<Longrightarrow> k\<lparr>sie := False\<rparr> = k"
  by (cases k) simp

lemma push_n_nested:
  "c < length (cpus s) \<Longrightarrow> 0 < noff (cpus s ! c) \<Longrightarrow> \<not> sie (cpus s ! c) \<Longrightarrow>
   push_n c n s = Ok () (upd_cpu c (\<lambda>k. k\<lparr>noff := noff k + int n\<rparr>) s)"
  by (induction n arbitrary: s) (simp_all add: push_off_def sie_off add.assoc)

lemma pop_n_nested:
  "c < length (cpus s) \<Longrightarrow> int n < noff (cpus s ! c) \<Longrightarrow> \<not> sie (cpus s ! c) \<Longrightarrow>
   pop_n c n s = Ok () (upd_cpu c (\<lambda>k. k\<lparr>noff := noff k - int n\<rparr>) s)"
  by (induction n arbitrary: s) (simp_all add: pop_off_def kthen_assoc sie_off algebra_simps)

text \<open>C30: push_off and pop_off are matched: after any number of push_offs and as many pop_offs
  the interrupt enable bit is what it was before, off all the time in between.\<close>

theorem push_pop_matched:
  assumes "c < length (cpus s)" "noff (cpus s ! c) = 0"
  shows "wp (push_n c (Suc n)) (\<lambda>_ t. \<not> sie (cpus t ! c) \<and>
    wp (pop_n c n) (\<lambda>_ u. \<not> sie (cpus u ! c) \<and>
      wp (pop_off c) (\<lambda>_ v. sie (cpus v ! c) = sie (cpus s ! c) \<and> noff (cpus v ! c) = 0) u) t) s"
  using assms by (simp add: wp_def push_off_def kthen_assoc push_n_nested pop_n_nested pop_off_def)

theorem push_pop_matched_witness:
  "wp (push_n 0 3) (\<lambda>_ t. \<not> sie (cpus t ! 0) \<and> wp (pop_n 0 2) (\<lambda>_ u. \<not> sie (cpus u ! 0) \<and>
     wp (pop_off 0) (\<lambda>_ v. sie (cpus v ! 0) \<and> noff (cpus v ! 0) = 0) u) t) (hw smp_sample)"
  using push_pop_matched [of 0 "hw smp_sample" 2] by (simp add: smp_sample_def eval_nat_numeral)

end
