(* ===== verification/Xv6_Bytes.thy ===== *)
theory Xv6_Bytes
  imports Xv6_Prelude
begin

text \<open>
  Bytes. Little-endian encoding of machine words as byte lists, byte arrays of fixed length
  (disk blocks, directory entries) with an in-place overwrite, and the byte-addressed
  memory, with the round-trip and frame laws the components rely on.
\<close>

section \<open>Little-endian words\<close>

definition le_word :: "u8 list \<Rightarrow> 'a::len word" where
  "le_word bs = foldr (\<lambda>b w. ucast b OR push_bit 8 w) bs 0"

definition le_bytes :: "nat \<Rightarrow> 'a::len word \<Rightarrow> u8 list" where
  "le_bytes n w = map (\<lambda>i. ucast (drop_bit (8 * i) w)) [0..<n]"

lemma length_le_bytes [simp, len_simps]: "length (le_bytes n w) = n"
  by (simp add: le_bytes_def)

lemma bit_le_bytes:
  "i < n \<Longrightarrow> bit (le_bytes n w ! i) j \<longleftrightarrow> j < 8 \<and> bit w (8 * i + j)"
  by (auto simp: le_bytes_def bit_simps add.commute)

lemma le_word_zero: "le_word (replicate n 0) = 0"
  by (induction n) (simp_all add: le_word_def)

lemma bit_le_word:
  "bit (le_word bs :: 'a::len word) k \<longleftrightarrow>
     k < LENGTH('a) \<and> k div 8 < length bs \<and> bit (bs ! (k div 8)) (k mod 8)"
proof (induction bs arbitrary: k)
  case Nil
  then show ?case by (simp add: le_word_def)
next
  case (Cons b bs)
  have unf: "(le_word (b # bs) :: 'a word) = ucast b OR push_bit 8 (le_word bs)"
    by (simp add: le_word_def)
  show ?case
  proof (cases "k < 8")
    case True
    then show ?thesis
      by (auto simp: unf bit_simps)
  next
    case False
    then obtain m where k: "k = m + 8"
      by (metis add.commute le_Suc_ex not_less)
    have "\<not> bit b k"
      using False bit_imp_le_length [of b k] by auto
    moreover have "(m + 8) div 8 = Suc (m div 8)" "(m + 8) mod 8 = m mod 8"
      by simp_all
    ultimately show ?thesis
      by (auto simp: unf bit_simps k Cons.IH)
  qed
qed

lemma le_word_le_bytes [simp]:
  "LENGTH('a) \<le> 8 * n \<Longrightarrow> le_word (le_bytes n w) = (w :: 'a::len word)"
proof (rule bit_word_eqI)
  fix k
  assume n: "LENGTH('a) \<le> 8 * n" and k: "k < LENGTH('a)"
  then have "k div 8 < n" by auto
  then show "bit (le_word (le_bytes n w) :: 'a word) k = bit w k"
    using k by (simp add: bit_le_word bit_le_bytes)
qed

lemma le_bytes_le_word:
  assumes "8 * length bs \<le> LENGTH('a)"
  shows "le_bytes (length bs) (le_word bs :: 'a::len word) = bs"
proof (rule nth_equalityI)
  show "length (le_bytes (length bs) (le_word bs :: 'a word)) = length bs" by simp
next
  fix i
  assume "i < length (le_bytes (length bs) (le_word bs :: 'a word))"
  then have i: "i < length bs" by simp
  show "le_bytes (length bs) (le_word bs :: 'a word) ! i = bs ! i"
  proof (rule bit_word_eqI)
    fix j
    assume "j < LENGTH(8)"
    then have j: "j < 8" by simp
    then have "8 * i + j < LENGTH('a)" using i assms by linarith
    moreover have "(8 * i + j) div 8 = i" "(8 * i + j) mod 8 = j" using j by simp_all
    ultimately show "bit (le_bytes (length bs) (le_word bs :: 'a word) ! i) j = bit (bs ! i) j"
      using i j by (simp add: bit_le_bytes bit_le_word)
  qed
qed

section \<open>Byte arrays\<close>

text \<open>\<open>slice n off bs\<close> reads \<open>n\<close> bytes at \<open>off\<close>; \<open>splice off xs bs\<close> overwrites bytes at \<open>off\<close>.\<close>

definition slice :: "nat \<Rightarrow> nat \<Rightarrow> 'a list \<Rightarrow> 'a list" where
  "slice n off bs = take n (drop off bs)"

definition splice :: "nat \<Rightarrow> 'a list \<Rightarrow> 'a list \<Rightarrow> 'a list" where
  "splice off xs bs = take off bs @ xs @ drop (off + length xs) bs"

lemma length_slice [simp]: "off + n \<le> length bs \<Longrightarrow> length (slice n off bs) = n"
  by (simp add: slice_def)

lemma length_splice [simp, len_simps]:
  "off + length xs \<le> length bs \<Longrightarrow> length (splice off xs bs) = length bs"
  by (simp add: splice_def)

lemma nth_slice: "off + n \<le> length bs \<Longrightarrow> i < n \<Longrightarrow> slice n off bs ! i = bs ! (off + i)"
  by (simp add: slice_def)

lemma nth_splice:
  assumes "off + length xs \<le> length bs" "i < length bs"
  shows "splice off xs bs ! i =
    (if off \<le> i \<and> i < off + length xs then xs ! (i - off) else bs ! i)"
  using assms by (auto simp: splice_def nth_append min_def)

lemma slice_splice_same [simp]:
  "off + length xs \<le> length bs \<Longrightarrow> n = length xs \<Longrightarrow> slice n off (splice off xs bs) = xs"
  by (simp add: slice_def splice_def)

lemma slice_splice_other:
  assumes "off + length xs \<le> length bs" "p + n \<le> off \<or> off + length xs \<le> p" "p + n \<le> length bs"
  shows "slice n p (splice off xs bs) = slice n p bs"
  by (rule nth_equalityI) (use assms in \<open>auto simp: nth_slice nth_splice\<close>)

lemma splice_slice_id: "off + n \<le> length bs \<Longrightarrow> splice off (slice n off bs) bs = bs"
  by (rule nth_equalityI) (auto simp: nth_splice nth_slice)

definition get16 :: "u8 list \<Rightarrow> nat \<Rightarrow> u16" where
  "get16 bs off = le_word (slice 2 off bs)"

definition put16 :: "nat \<Rightarrow> u16 \<Rightarrow> u8 list \<Rightarrow> u8 list" where
  "put16 off v bs = splice off (le_bytes 2 v) bs"

definition get32 :: "u8 list \<Rightarrow> nat \<Rightarrow> u32" where
  "get32 bs off = le_word (slice 4 off bs)"

definition put32 :: "nat \<Rightarrow> u32 \<Rightarrow> u8 list \<Rightarrow> u8 list" where
  "put32 off v bs = splice off (le_bytes 4 v) bs"

definition get64 :: "u8 list \<Rightarrow> nat \<Rightarrow> u64" where
  "get64 bs off = le_word (slice 8 off bs)"

lemma length_put [simp, len_simps]:
  "off + 2 \<le> length bs \<Longrightarrow> length (put16 off v bs) = length bs"
  "off + 4 \<le> length bs \<Longrightarrow> length (put32 off w bs) = length bs"
  by (simp_all add: put16_def put32_def)

lemma get16_put16 [simp]: "off + 2 \<le> length bs \<Longrightarrow> get16 (put16 off v bs) off = v"
  by (simp add: get16_def put16_def)

lemma get32_put32 [simp]: "off + 4 \<le> length bs \<Longrightarrow> get32 (put32 off v bs) off = v"
  by (simp add: get32_def put32_def)

lemma get_put_other:
  "p + 2 \<le> length bs \<Longrightarrow> off + 2 \<le> length bs \<Longrightarrow> p + 2 \<le> off \<or> off + 2 \<le> p \<Longrightarrow>
     get16 (put16 off v bs) p = get16 bs p"
  "p + 2 \<le> length bs \<Longrightarrow> off + 4 \<le> length bs \<Longrightarrow> p + 2 \<le> off \<or> off + 4 \<le> p \<Longrightarrow>
     get16 (put32 off w bs) p = get16 bs p"
  "p + 4 \<le> length bs \<Longrightarrow> off + 2 \<le> length bs \<Longrightarrow> p + 4 \<le> off \<or> off + 2 \<le> p \<Longrightarrow>
     get32 (put16 off v bs) p = get32 bs p"
  "p + 4 \<le> length bs \<Longrightarrow> off + 4 \<le> length bs \<Longrightarrow> p + 4 \<le> off \<or> off + 4 \<le> p \<Longrightarrow>
     get32 (put32 off w bs) p = get32 bs p"
  by (simp_all add: get16_def put16_def get32_def put32_def slice_splice_other)

lemma slice_put_other:
  "p + n \<le> length bs \<Longrightarrow> off + 2 \<le> length bs \<Longrightarrow> p + n \<le> off \<or> off + 2 \<le> p \<Longrightarrow>
     slice n p (put16 off v bs) = slice n p bs"
  "p + n \<le> length bs \<Longrightarrow> off + 4 \<le> length bs \<Longrightarrow> p + n \<le> off \<or> off + 4 \<le> p \<Longrightarrow>
     slice n p (put32 off w bs) = slice n p bs"
  by (simp_all add: put16_def put32_def slice_splice_other)

end
