(* ===== verification/Xv6_String.thy ===== *)
theory Xv6_String
  imports Xv6_Bytes
begin

text \<open>
  Byte-addressed memory and kernel/string.c. A pointer is a 64-bit address. Functions that
  only read take their argument as a reader \<open>nat \<Rightarrow> u8\<close> (\<open>p i\<close> is the byte \<open>p[i]\<close>), so that the
  same definition serves memory and the byte arrays of the file system; functions that
  write are memory transformers with the loops of the source.
\<close>

section \<open>Memory\<close>

type_synonym memory = "u64 \<Rightarrow> u8"

definition at :: "memory \<Rightarrow> u64 \<Rightarrow> nat \<Rightarrow> u8" where
  "at m p i = m (p + of_nat i)"

definition mem_read :: "memory \<Rightarrow> u64 \<Rightarrow> nat \<Rightarrow> u8 list" where
  "mem_read m p n = map (at m p) [0..<n]"

text \<open>The memory after the bytes \<open>xs\<close> have been stored at \<open>p, p + 1, \<dots>\<close>.\<close>

definition mem_write :: "memory \<Rightarrow> u64 \<Rightarrow> u8 list \<Rightarrow> memory" where
  "mem_write m p xs = (\<lambda>x. if unat (x - p) < length xs then xs ! unat (x - p) else m x)"

lemma length_mem_read [simp, len_simps]: "length (mem_read m p n) = n"
  by (simp add: mem_read_def)

lemma nth_mem_read [simp]: "i < n \<Longrightarrow> mem_read m p n ! i = at m p i"
  by (simp add: mem_read_def)

lemma mem_write_Nil [simp]: "mem_write m p [] = m"
  by (simp add: mem_write_def)

lemma mem_write_upd: "mem_write m p [v] = m(p := v)"
  by (auto simp: mem_write_def unat_eq_0 fun_eq_iff)

lemma unat_of_nat_u64: "n < 2 ^ 64 \<Longrightarrow> unat (of_nat n :: u64) = n"
  by (simp add: unat_of_nat take_bit_nat_eq_self)

lemma mem_read_write_same [simp]:
  assumes "length xs \<le> 2 ^ 64" "n = length xs"
  shows "mem_read (mem_write m p xs) p n = xs"
  by (rule nth_equalityI)
    (use assms in \<open>auto simp: at_def mem_write_def unat_of_nat_u64\<close>)

text \<open>Two address ranges that do not meet.\<close>

definition disjoint_ranges :: "u64 \<Rightarrow> nat \<Rightarrow> u64 \<Rightarrow> nat \<Rightarrow> bool" where
  "disjoint_ranges p n q k \<longleftrightarrow> (\<forall>i<n. \<forall>j<k. p + of_nat i \<noteq> q + of_nat j)"

lemma disjoint_rangesI:
  assumes "unat p + n \<le> 2 ^ 64" "unat q + k \<le> 2 ^ 64"
    and "unat p + n \<le> unat q \<or> unat q + k \<le> unat p"
  shows "disjoint_ranges p n q k"
  unfolding disjoint_ranges_def
proof (intro allI impI)
  fix i j assume ij: "i < n" "j < k"
  have "unat (p + of_nat i) = unat p + i" "unat (q + of_nat j) = unat q + j"
    using ij assms(1,2) by (simp_all add: unat_word_ariths unat_of_nat_u64)
  moreover have "unat p + i \<noteq> unat q + j"
    using assms(3) ij by linarith
  ultimately show "p + of_nat i \<noteq> q + of_nat j" by metis
qed

lemma disjoint_ranges_sym: "disjoint_ranges p n q k \<Longrightarrow> disjoint_ranges q k p n"
  unfolding disjoint_ranges_def by metis

lemma at_write_other:
  assumes "disjoint_ranges p n q (length xs)" "i < n"
  shows "at (mem_write m q xs) p i = at m p i"
proof -
  have "\<not> unat (p + of_nat i - q) < length xs"
  proof
    assume l: "unat (p + of_nat i - q) < length xs"
    have "p + of_nat i = q + of_nat (unat (p + of_nat i - q))" by simp
    then show False using assms l unfolding disjoint_ranges_def by blast
  qed
  then show ?thesis by (simp add: at_def mem_write_def)
qed

lemma mem_read_write_other:
  "disjoint_ranges p n q (length xs) \<Longrightarrow> mem_read (mem_write m q xs) p n = mem_read m p n"
  by (rule nth_equalityI) (auto simp: at_write_other)

section \<open>kernel/string.c\<close>

text \<open>for (i = 0; i < n; i++) cdst[i] = c;\<close>

definition memset :: "memory \<Rightarrow> u64 \<Rightarrow> u8 \<Rightarrow> u32 \<Rightarrow> memory" where
  "memset m dst c n = fold (\<lambda>i m. m(dst + of_nat i := c)) [0..<unat n] m"

text \<open>while (n-- > 0) { if (*s1 != *s2) return *s1 - *s2; s1++, s2++; }\<close>

fun memcmp_loop :: "(nat \<Rightarrow> u8) \<Rightarrow> (nat \<Rightarrow> u8) \<Rightarrow> nat \<Rightarrow> nat \<Rightarrow> int" where
  "memcmp_loop s1 s2 i 0 = 0"
| "memcmp_loop s1 s2 i (Suc n) =
     (if s1 i \<noteq> s2 i then uint (s1 i) - uint (s2 i) else memcmp_loop s1 s2 (Suc i) n)"

definition memcmp :: "(nat \<Rightarrow> u8) \<Rightarrow> (nat \<Rightarrow> u8) \<Rightarrow> u32 \<Rightarrow> int" where
  "memcmp v1 v2 n = memcmp_loop v1 v2 0 (unat n)"

text \<open>while (n-- > 0) *--d = *--s;\<close>

fun memmove_down :: "memory \<Rightarrow> u64 \<Rightarrow> u64 \<Rightarrow> nat \<Rightarrow> memory" where
  "memmove_down m d s 0 = m"
| "memmove_down m d s (Suc n) = memmove_down (m(d - 1 := m (s - 1))) (d - 1) (s - 1) n"

text \<open>while (n-- > 0) *d++ = *s++;\<close>

fun memmove_up :: "memory \<Rightarrow> u64 \<Rightarrow> u64 \<Rightarrow> nat \<Rightarrow> memory" where
  "memmove_up m d s 0 = m"
| "memmove_up m d s (Suc n) = memmove_up (m(d := m s)) (d + 1) (s + 1) n"

definition memmove :: "memory \<Rightarrow> u64 \<Rightarrow> u64 \<Rightarrow> u32 \<Rightarrow> memory" where
  "memmove m dst src n =
     (if n = 0 then m
      else if src < dst \<and> src + ucast n > dst
      then memmove_down m (dst + ucast n) (src + ucast n) (unat n)
      else memmove_up m dst src (unat n))"

definition memcpy :: "memory \<Rightarrow> u64 \<Rightarrow> u64 \<Rightarrow> u32 \<Rightarrow> memory" where
  "memcpy m dst src n = memmove m dst src n"

fun strncmp_loop :: "(nat \<Rightarrow> u8) \<Rightarrow> (nat \<Rightarrow> u8) \<Rightarrow> nat \<Rightarrow> nat \<Rightarrow> int" where
  "strncmp_loop p q i 0 = 0"
| "strncmp_loop p q i (Suc n) =
     (if p i \<noteq> 0 \<and> p i = q i then strncmp_loop p q (Suc i) n else uint (p i) - uint (q i))"

definition strncmp :: "(nat \<Rightarrow> u8) \<Rightarrow> (nat \<Rightarrow> u8) \<Rightarrow> u32 \<Rightarrow> int" where
  "strncmp p q n = strncmp_loop p q 0 (unat n)"

text \<open>The second loop of strncpy: while (n-- > 0) *s++ = 0;\<close>

fun strncpy_pad :: "memory \<Rightarrow> u64 \<Rightarrow> nat \<Rightarrow> memory" where
  "strncpy_pad m s 0 = m"
| "strncpy_pad m s (Suc n) = strncpy_pad (m(s := 0)) (s + 1) n"

fun strncpy_loop :: "memory \<Rightarrow> u64 \<Rightarrow> u64 \<Rightarrow> nat \<Rightarrow> memory" where
  "strncpy_loop m s t 0 = m"
| "strncpy_loop m s t (Suc n) =
     (if m t \<noteq> 0 then strncpy_loop (m(s := m t)) (s + 1) (t + 1) n
      else strncpy_pad (m(s := m t)) (s + 1) n)"

definition strncpy :: "memory \<Rightarrow> u64 \<Rightarrow> u64 \<Rightarrow> int \<Rightarrow> memory" where
  "strncpy m s t n = strncpy_loop m s t (nat n)"

text \<open>while (--n > 0 && (*s++ = *t++) != 0) ; *s = 0; with \<open>n\<close> the count after --n.\<close>

fun safestrcpy_loop :: "memory \<Rightarrow> u64 \<Rightarrow> u64 \<Rightarrow> nat \<Rightarrow> memory" where
  "safestrcpy_loop m s t 0 = m(s := 0)"
| "safestrcpy_loop m s t (Suc n) =
     (if m t \<noteq> 0 then safestrcpy_loop (m(s := m t)) (s + 1) (t + 1) n
      else (m(s := m t))(s + 1 := 0))"

definition safestrcpy :: "memory \<Rightarrow> u64 \<Rightarrow> u64 \<Rightarrow> int \<Rightarrow> memory" where
  "safestrcpy m s t n = (if n \<le> 0 then m else safestrcpy_loop m s t (nat (n - 1)))"

text \<open>for (n = 0; s[n]; n++) ; return n;  \<open>None\<close>: no NUL is ever found.\<close>

partial_function (option) strlen_from :: "(nat \<Rightarrow> u8) \<Rightarrow> nat \<Rightarrow> nat option" where
  "strlen_from s n = (if s n \<noteq> 0 then strlen_from s (Suc n) else Some n)"

definition strlen :: "(nat \<Rightarrow> u8) \<Rightarrow> nat option" where
  "strlen s = strlen_from s 0"


section \<open>What the loops compute\<close>

lemma unat_minus_eq_iff: "k < 2 ^ 64 \<Longrightarrow> unat ((x :: u64) - p) = k \<longleftrightarrow> x = p + of_nat k"
proof -
  assume k: "k < 2 ^ 64"
  have "unat (x - p) = k \<longleftrightarrow> x - p = of_nat k"
    using k by (auto simp: unat_of_nat_u64)
  also have "\<dots> \<longleftrightarrow> x = p + of_nat k"
    by (auto simp: algebra_simps)
  finally show ?thesis .
qed

lemma mem_write_snoc:
  assumes "length xs < 2 ^ 64"
  shows "mem_write m p (xs @ [v]) = (mem_write m p xs)(p + of_nat (length xs) := v)"
proof
  fix x
  show "mem_write m p (xs @ [v]) x = ((mem_write m p xs)(p + of_nat (length xs) := v)) x"
    using assms unat_minus_eq_iff [of "length xs" x p]
    by (auto simp: mem_write_def nth_append)
qed

lemma unat_pred: "(x :: u64) \<noteq> 0 \<Longrightarrow> unat (x - 1) = unat x - 1"
  by (simp add: unat_minus_one)

lemma mem_write_Cons:
  assumes "length xs < 2 ^ 64 - 1"
  shows "mem_write m p (v # xs) = mem_write (m(p := v)) (p + 1) xs"
proof
  fix x
  show "mem_write m p (v # xs) x = mem_write (m(p := v)) (p + 1) xs x"
  proof (cases "x = p")
    case True
    have "unat (- 1 :: u64) = 2 ^ 64 - 1"
      by (simp add: unsigned_minus_1_eq_mask mask_eq_exp_minus_1)
    then show ?thesis using True assms by (simp add: mem_write_def)
  next
    case False
    then have "unat (x - (p + 1)) = unat (x - p) - 1" and "unat (x - p) \<noteq> 0"
      using unat_pred [of "x - p"] by (simp_all add: unat_eq_0 diff_diff_add)
    then show ?thesis using False by (auto simp: mem_write_def nth_Cons' )
  qed
qed

lemma mem_write_upd_after:
  assumes "length xs < 2 ^ 64"
  shows "mem_write (m(p + of_nat (length xs) := v)) p xs = mem_write m p (xs @ [v])"
proof
  fix x
  show "mem_write (m(p + of_nat (length xs) := v)) p xs x = mem_write m p (xs @ [v]) x"
    using assms unat_minus_eq_iff [of "length xs" x p]
    by (auto simp: mem_write_def nth_append)
qed

lemma memset_eq: "memset m dst c n = mem_write m dst (replicate (unat n) c)"
proof -
  have "fold (\<lambda>i m. m(dst + of_nat i := c)) [0..<k] m = mem_write m dst (replicate k c)"
    if "k \<le> 2 ^ 32" for k
    using that
  proof (induction k)
    case 0
    then show ?case by simp
  next
    case (Suc k)
    have "replicate (Suc k) c = replicate k c @ [c]"
      by (simp add: replicate_append_same)
    then show ?case
      using Suc mem_write_snoc [of "replicate k c" m dst c] by (simp del: fun_upd_apply)
  qed
  moreover have "unat n \<le> 2 ^ 32"
    using unat_bounds(3) [of n] by simp
  ultimately show ?thesis by (simp add: memset_def)
qed

lemma mem_read_Suc: "mem_read m p (Suc n) = m p # mem_read m (p + 1) n"
  by (rule nth_equalityI) (auto simp: at_def nth_Cons' of_nat_diff add.assoc)

lemma mem_read_snoc: "mem_read m p (Suc n) = mem_read m p n @ [m (p + of_nat n)]"
  by (simp add: mem_read_def at_def)

lemma mem_read_upd_other:
  "(\<And>i. i < n \<Longrightarrow> q \<noteq> p + of_nat i) \<Longrightarrow> mem_read (m(q := v)) p n = mem_read m p n"
  by (rule nth_equalityI) (simp_all add: at_def fun_upd_def, metis)

lemma memmove_up_eq:
  assumes "n < 2 ^ 64" "\<And>i j. i < j \<Longrightarrow> j < n \<Longrightarrow> d + of_nat i \<noteq> s + of_nat j"
  shows "memmove_up m d s n = mem_write m d (mem_read m s n)"
  using assms
proof (induction n arbitrary: m d s)
  case 0
  then show ?case by (simp add: mem_read_def)
next
  case (Suc n)
  have "memmove_up (m(d := m s)) (d + 1) (s + 1) n =
      mem_write (m(d := m s)) (d + 1) (mem_read (m(d := m s)) (s + 1) n)"
  proof (rule Suc.IH)
    fix i j :: nat assume "i < j" "j < n"
    then show "d + 1 + of_nat i \<noteq> s + 1 + of_nat j"
      using Suc.prems(2) [of "Suc i" "Suc j"] by (simp add: add.assoc)
  qed (use Suc.prems(1) in simp)
  moreover have "mem_read (m(d := m s)) (s + 1) n = mem_read m (s + 1) n"
  proof (rule mem_read_upd_other)
    fix i assume "i < n"
    then show "d \<noteq> s + 1 + of_nat i"
      using Suc.prems(2) [of 0 "Suc i"] by (simp add: add.assoc)
  qed
  ultimately show ?case
    using Suc.prems(1) by (simp add: mem_read_Suc mem_write_Cons)
qed

lemma memmove_down_eq:
  assumes "n < 2 ^ 64" "\<And>i j. i < j \<Longrightarrow> j < n \<Longrightarrow> d + of_nat j \<noteq> s + of_nat i"
  shows "memmove_down m (d + of_nat n) (s + of_nat n) n = mem_write m d (mem_read m s n)"
  using assms
proof (induction n arbitrary: m)
  case 0
  then show ?case by (simp add: mem_read_def)
next
  case (Suc n)
  let ?m = "m(d + of_nat n := m (s + of_nat n))"
  have "memmove_down ?m (d + of_nat n) (s + of_nat n) n = mem_write ?m d (mem_read ?m s n)"
    using Suc by simp
  moreover have "mem_read ?m s n = mem_read m s n"
    by (rule mem_read_upd_other) (use Suc.prems(2) in auto)
  moreover have "mem_write ?m d (mem_read m s n) =
      mem_write m d (mem_read m s n @ [m (s + of_nat n)])"
    using mem_write_upd_after [of "mem_read m s n"] Suc.prems(1) by simp
  ultimately show ?case
    by (simp add: mem_read_snoc algebra_simps)
qed

text \<open>
  memmove copies as if through a temporary buffer, whatever the overlap: the destination
  receives the bytes the source held before the call, and nothing else changes.
\<close>

lemma memmove_eq:
  assumes "unat src + unat n < 2 ^ 64" "unat dst + unat n < 2 ^ 64"
  shows "memmove m dst src n = mem_write m dst (mem_read m src (unat n))"
proof (cases "n = 0")
  case True
  then show ?thesis by (simp add: memmove_def mem_read_def)
next
  case False
  have n64: "unat n < 2 ^ 64"
    using unat_bounds(3) [of n] by simp
  have ucast_n: "(ucast n :: u64) = of_nat (unat n)"
    by (simp add: unsigned_ucast_eq word_unat_eq_iff unat_of_nat_u64 n64 take_bit_nat_eq_self)
  have addr: "unat (src + of_nat i) = unat src + i" "unat (dst + of_nat i) = unat dst + i"
    if "i < unat n" for i
    using that assms n64 by (simp_all add: unat_word_ariths unat_of_nat_u64)
  have send: "unat (src + of_nat (unat n)) = unat src + unat n"
    using assms unat_of_nat_u64 [OF n64] by (simp add: unat_word_ariths)
  show ?thesis
  proof (cases "src < dst \<and> src + ucast n > dst")
    case True
    have "memmove_down m (dst + of_nat (unat n)) (src + of_nat (unat n)) (unat n) =
        mem_write m dst (mem_read m src (unat n))"
    proof (rule memmove_down_eq [OF n64])
      fix i j assume ij: "i < j" "j < unat n"
      then have "unat (src + of_nat i) < unat (dst + of_nat j)"
        using True addr [of i] addr [of j] by (simp add: word_less_nat_alt)
      then show "dst + of_nat j \<noteq> src + of_nat i" by auto
    qed
    from this [folded ucast_n] show ?thesis using True False by (simp add: memmove_def)
  next
    case no: False
    have "memmove_up m dst src (unat n) = mem_write m dst (mem_read m src (unat n))"
    proof (rule memmove_up_eq [OF n64])
      fix i j assume ij: "i < j" "j < unat n"
      have "unat src \<ge> unat dst \<or> unat src + unat n \<le> unat dst"
        using no send [folded ucast_n] by (auto simp: word_less_nat_alt)
      then have "unat (src + of_nat j) \<noteq> unat (dst + of_nat i)"
        using ij addr [of i] addr [of j] by auto
      then show "dst + of_nat i \<noteq> src + of_nat j" by auto
    qed
    then show ?thesis using no False by (auto simp: memmove_def)
  qed
qed

text \<open>
  strncmp returns 0 exactly when the two strings agree on every byte, up to \<open>n\<close> bytes or
  their common NUL.
\<close>

lemma uint_diff_zero: "uint (a :: u8) = uint b \<longleftrightarrow> a = b" "uint a = 0 \<longleftrightarrow> a = 0"
  by (auto intro: word_uint_eqI)

lemma strncmp_loop_zero:
  "strncmp_loop p q i n = 0 \<longleftrightarrow>
     (\<forall>k<n. (\<forall>j<k. p (i + j) \<noteq> 0) \<longrightarrow> p (i + k) = q (i + k))"
proof (induction n arbitrary: i)
  case 0
  then show ?case by simp
next
  case (Suc n)
  have split: "(\<forall>k<Suc n. P k) \<longleftrightarrow> P 0 \<and> (\<forall>k<n. P (Suc k))" for P
    using less_Suc_eq_0_disj by auto
  have split': "(\<forall>j<Suc k. P j) \<longleftrightarrow> P 0 \<and> (\<forall>j<k. P (Suc j))" for P k
    using less_Suc_eq_0_disj by auto
  show ?case
    by (cases "p i = q i"; cases "p i = 0") (simp_all add: split split' Suc.IH uint_diff_zero)
qed

lemma strncmp_zero_iff:
  "strncmp p q n = 0 \<longleftrightarrow> (\<forall>k<unat n. (\<forall>j<k. p j \<noteq> 0) \<longrightarrow> p k = q k)"
  by (simp add: strncmp_def strncmp_loop_zero)

lemma memcmp_loop_zero: "memcmp_loop p q i n = 0 \<longleftrightarrow> (\<forall>k<n. p (i + k) = q (i + k))"
proof (induction n arbitrary: i)
  case 0
  then show ?case by simp
next
  case (Suc n)
  have split: "(\<forall>k<Suc n. P k) \<longleftrightarrow> P 0 \<and> (\<forall>k<n. P (Suc k))" for P
    using less_Suc_eq_0_disj by auto
  show ?case by (simp add: split Suc.IH uint_diff_zero)
qed

lemma memcmp_zero_iff: "memcmp p q n = 0 \<longleftrightarrow> (\<forall>k<unat n. p k = q k)"
  by (simp add: memcmp_def memcmp_loop_zero)

text \<open>
  safestrcpy: the destination holds a NUL within its \<open>n\<close> bytes, and no byte outside them
  is written.
\<close>

lemma safestrcpy_loop_spec:
  assumes "k < 2 ^ 64"
  shows "(\<exists>i\<le>k. at (safestrcpy_loop m s t k) s i = 0) \<and>
    (\<forall>x. (\<forall>i\<le>k. x \<noteq> s + of_nat i) \<longrightarrow> safestrcpy_loop m s t k x = m x)"
  using assms
proof (induction k arbitrary: m s t)
  case 0
  then show ?case by (auto simp: at_def)
next
  case (Suc k)
  show ?case
  proof (cases "m t = 0")
    case True
    have "at (safestrcpy_loop m s t (Suc k)) s (Suc 0) = 0"
      using True by (simp add: at_def)
    moreover have "x \<noteq> s \<and> x \<noteq> s + 1" if "\<forall>i\<le>Suc k. x \<noteq> s + of_nat i" for x
      using that [rule_format, of 0] that [rule_format, of 1] by simp
    ultimately show ?thesis
      using True by (intro conjI exI [of _ "Suc 0"]) (auto simp del: fun_upd_apply, simp)
  next
    case False
    let ?m = "m(s := m t)"
    let ?r = "safestrcpy_loop ?m (s + 1) (t + 1) k"
    from Suc have IH: "\<exists>i\<le>k. at ?r (s + 1) i = 0"
      "\<And>x. \<forall>i\<le>k. x \<noteq> s + 1 + of_nat i \<Longrightarrow> ?r x = ?m x"
      by auto
    have "\<exists>i\<le>Suc k. at ?r s i = 0"
    proof -
      from IH(1) obtain i where "i \<le> k" "at ?r (s + 1) i = 0" by blast
      then show ?thesis by (intro exI [of _ "Suc i"]) (simp add: at_def add.assoc)
    qed
    moreover have "?r x = m x" if "\<forall>i\<le>Suc k. x \<noteq> s + of_nat i" for x
    proof -
      have "x \<noteq> s" using that [rule_format, of 0] by simp
      moreover have "\<forall>i\<le>k. x \<noteq> s + 1 + of_nat i"
      proof (intro allI impI)
        fix i assume "i \<le> k"
        then show "x \<noteq> s + 1 + of_nat i"
          using that [rule_format, of "Suc i"] by (simp add: add.assoc)
      qed
      ultimately show ?thesis using IH(2) by simp
    qed
    ultimately show ?thesis using False by simp
  qed
qed

section \<open>Properties\<close>

text \<open>C21: memmove behaves as a copy through a temporary buffer for every overlap of source and
  destination: afterwards the destination holds the bytes the source held before the call,
  and every byte outside the destination is unchanged.\<close>

theorem memmove_any_overlap:
  assumes "unat src + unat n < 2 ^ 64" "unat dst + unat n < 2 ^ 64"
  shows "mem_read (memmove m dst src n) dst (unat n) = mem_read m src (unat n) \<and>
    (\<forall>x. unat n \<le> unat (x - dst) \<longrightarrow> memmove m dst src n x = m x)"
proof
  have "length (mem_read m src (unat n)) \<le> 2 ^ 64"
    using unat_bounds(3) [of n] by simp
  from mem_read_write_same [OF this]
  show "mem_read (memmove m dst src n) dst (unat n) = mem_read m src (unat n)"
    by (simp add: memmove_eq [OF assms])
  show "\<forall>x. unat n \<le> unat (x - dst) \<longrightarrow> memmove m dst src n x = m x"
    by (simp add: memmove_eq [OF assms] mem_write_def)
qed

theorem memmove_any_overlap_witness:
  "mem_read (memmove (\<lambda>a. ucast a) 101 100 3) 101 3 = [100, 101, 102]"
  using memmove_any_overlap [of 100 3 101 "\<lambda>a. ucast a"]
  by (simp add: mem_read_def at_def upt_rec)

text \<open>C22: safestrcpy, unlike strncpy, always leaves a NUL-terminated string within the \<open>n\<close> bytes
  of the destination, and writes no byte outside them.\<close>

theorem safestrcpy_terminates_string:
  assumes "0 < n" "n < 2 ^ 31"
  shows "(\<exists>i<nat n. at (safestrcpy m s t n) s i = 0) \<and>
    (\<forall>x. (\<forall>i<nat n. x \<noteq> s + of_nat i) \<longrightarrow> safestrcpy m s t n x = m x)"
proof -
  have "nat (n - 1) < 2 ^ 64" and le: "i < nat n \<longleftrightarrow> i \<le> nat (n - 1)" for i
    using assms by auto
  from safestrcpy_loop_spec [OF this(1), of m s t] show ?thesis
    using assms(1) by (simp add: safestrcpy_def le)
qed

theorem safestrcpy_terminates_string_witness:
  "\<exists>i<2. at (safestrcpy (\<lambda>a. 65) 100 200 2) 100 i = 0"
  using safestrcpy_terminates_string [of 2 "\<lambda>a. 65" 100 200] by auto

text \<open>C23: strncmp returns 0 exactly when the two strings agree up to \<open>n\<close> bytes or their common
  NUL, whichever comes first.\<close>

theorem strncmp_zero_iff_prefix_equal:
  "strncmp p q n = 0 \<longleftrightarrow> (\<forall>k<unat n. (\<forall>j<k. p j \<noteq> 0) \<longrightarrow> p k = q k)"
  by (rule strncmp_zero_iff)

theorem strncmp_zero_iff_prefix_equal_witness:
  "strncmp (\<lambda>k. of_nat k + 1) (\<lambda>k. if k < 2 then of_nat k + 1 else 9) 2 = 0"
  by (subst strncmp_zero_iff_prefix_equal) simp

end
