(* ===== verification/Xv6_State.thy ===== *)
theory Xv6_State
  imports Xv6_String
begin

text \<open>
  The kernel's data: the constants of kernel/param.h, kernel/fs.h and kernel/memlayout.h, one
  record per C structure, and the record \<open>kstate\<close> of all the kernel's global variables, the
  machine memory and the disk. Pointers into a fixed table (proc, file, inode, buf) are table
  indices, with \<open>None\<close> for a null pointer; pointers to physical pages are 64-bit addresses. A
  C int used as a flag is a bool. Structures that live in a page of their own (trap frames,
  pipes) are kept in a store indexed by the address of the page.
\<close>

section \<open>Constants\<close>

text \<open>kernel/param.h\<close>

abbreviation (input) NPROC :: nat where "NPROC \<equiv> 64"
abbreviation (input) NOFILE :: nat where "NOFILE \<equiv> 16"
abbreviation (input) NFILE :: nat where "NFILE \<equiv> 100"
abbreviation (input) NINODE :: nat where "NINODE \<equiv> 50"
abbreviation (input) NDEV :: int where "NDEV \<equiv> 10"
abbreviation (input) ROOTDEV :: u32 where "ROOTDEV \<equiv> 1"
abbreviation (input) MAXARG :: nat where "MAXARG \<equiv> 32"
abbreviation (input) MAXOPBLOCKS :: nat where "MAXOPBLOCKS \<equiv> 10"
abbreviation (input) LOGBLOCKS :: nat where "LOGBLOCKS \<equiv> 30"
abbreviation (input) NBUF :: nat where "NBUF \<equiv> 30"
abbreviation (input) FSSIZE :: nat where "FSSIZE \<equiv> 2000"
abbreviation (input) MAXPATH :: nat where "MAXPATH \<equiv> 128"
abbreviation (input) USERSTACK :: nat where "USERSTACK \<equiv> 1"

text \<open>kernel/fs.h and kernel/stat.h\<close>

abbreviation (input) ROOTINO :: u32 where "ROOTINO \<equiv> 1"
abbreviation (input) BSIZE :: nat where "BSIZE \<equiv> 1024"
abbreviation (input) FSMAGIC :: u32 where "FSMAGIC \<equiv> 0x10203040"
abbreviation (input) NDIRECT :: nat where "NDIRECT \<equiv> 12"
abbreviation (input) NINDIRECT :: nat where "NINDIRECT \<equiv> 256"
abbreviation (input) MAXFILE :: nat where "MAXFILE \<equiv> 268"
abbreviation (input) NLINK_MAX :: int where "NLINK_MAX \<equiv> 32767"
abbreviation (input) IPB :: nat where "IPB \<equiv> 16"
abbreviation (input) BPB :: nat where "BPB \<equiv> 8192"
abbreviation (input) DIRSIZ :: nat where "DIRSIZ \<equiv> 14"
abbreviation (input) T_DIR :: u16 where "T_DIR \<equiv> 1"
abbreviation (input) T_FILE :: u16 where "T_FILE \<equiv> 2"
abbreviation (input) T_DEVICE :: u16 where "T_DEVICE \<equiv> 3"

text \<open>kernel/riscv.h and kernel/memlayout.h\<close>

abbreviation (input) PGSIZE :: u64 where "PGSIZE \<equiv> 4096"
abbreviation (input) MAXVA :: u64 where "MAXVA \<equiv> 0x4000000000"
abbreviation (input) KERNBASE :: u64 where "KERNBASE \<equiv> 0x80000000"
abbreviation (input) PHYSTOP :: u64 where "PHYSTOP \<equiv> 0x88000000"
abbreviation (input) UART0 :: u64 where "UART0 \<equiv> 0x10000000"
abbreviation (input) VIRTIO0 :: u64 where "VIRTIO0 \<equiv> 0x10001000"
abbreviation (input) PLIC :: u64 where "PLIC \<equiv> 0x0c000000"
abbreviation (input) TRAMPOLINE :: u64 where "TRAMPOLINE \<equiv> 0x3ffffff000"
abbreviation (input) TRAPFRAME :: u64 where "TRAPFRAME \<equiv> 0x3fffffe000"

section \<open>Processes\<close>

text \<open>The addresses processes sleep on (\<open>void *chan\<close>), one constructor per kind of object.\<close>

datatype chan =
    ChProc nat          \<comment> \<open>a struct proc, in wait()\<close>
  | ChTicks             \<comment> \<open>&ticks\<close>
  | ChLog               \<comment> \<open>&log\<close>
  | ChBuf nat           \<comment> \<open>a struct buf, waiting for the disk\<close>
  | ChBufLock nat       \<comment> \<open>a buffer's sleep lock\<close>
  | ChInodeLock nat     \<comment> \<open>an inode's sleep lock\<close>
  | ChPipeRead u64      \<comment> \<open>&pi->nread\<close>
  | ChPipeWrite u64     \<comment> \<open>&pi->nwrite\<close>
  | ChCons              \<comment> \<open>&cons.r\<close>
  | ChDiskFree          \<comment> \<open>&disk.free[0]\<close>
  | ChUartTx            \<comment> \<open>&tx_chan\<close>
  | ChUartLock          \<comment> \<open>tx_lock\<close>

datatype procstate = UNUSED | USED | SLEEPING | RUNNABLE | RUNNING | ZOMBIE

text \<open>Saved registers for kernel context switches.\<close>

record kcontext =
  ctx_ra :: u64
  ctx_sp :: u64
  ctx_s :: "u64 list"  \<comment> \<open>s0 to s11\<close>

text \<open>
  The page the trampoline saves user registers in. The registers no C code names one by one
  (gp, tp, t0--t6, s0--s11) are one list, in the order of the structure.
\<close>

record trapframe =
  kernel_satp :: u64
  kernel_sp :: u64
  kernel_trap :: u64
  tf_epc :: u64
  kernel_hartid :: u64
  tf_ra :: u64
  tf_sp :: u64
  tf_a0 :: u64
  tf_a1 :: u64
  tf_a2 :: u64
  tf_a3 :: u64
  tf_a4 :: u64
  tf_a5 :: u64
  tf_a6 :: u64
  tf_a7 :: u64
  tf_rest :: "u64 list"

record proc =
  p_state :: procstate
  p_chan :: "chan option"
  p_killed :: bool
  p_xstate :: int
  p_pid :: int
  p_parent :: "nat option"
  p_kstack :: u64
  p_sz :: u64
  p_pagetable :: u64
  p_trapframe :: u64
  p_context :: kcontext
  p_ofile :: "nat option list"
  p_cwd :: "nat option"
  p_name :: "u8 list"

section \<open>Buffers, log, inodes, files\<close>

text \<open>A sleep lock; its inner spin lock only makes the operations below atomic.\<close>

record sleeplock =
  sl_locked :: bool
  sl_pid :: int

record buf =
  b_valid :: bool
  b_disk :: bool
  b_dev :: u32
  b_blockno :: u32
  b_lock :: sleeplock
  b_refcnt :: u32
  b_prev :: nat
  b_next :: nat
  b_data :: "u8 list"

record superblock =
  sb_magic :: u32
  sb_size :: u32
  sb_nblocks :: u32
  sb_ninodes :: u32
  sb_nlog :: u32
  sb_logstart :: u32
  sb_inodestart :: u32
  sb_bmapstart :: u32

record logheader =
  lh_n :: int
  lh_block :: "u32 list"

record log =
  l_start :: u32
  l_outstanding :: int
  l_committing :: bool
  l_dev :: u32
  l_ncommit :: int
  l_lh :: logheader

text \<open>The on-disk inode.\<close>

record dinode =
  di_type :: u16
  di_major :: u16
  di_minor :: u16
  di_nlink :: u16
  di_size :: u32
  di_addrs :: "u32 list"

record inode =
  i_dev :: u32
  i_inum :: u32
  i_ref :: int
  i_lock :: sleeplock
  i_valid :: bool
  i_type :: u16
  i_major :: u16
  i_minor :: u16
  i_nlink :: u16
  i_size :: u32
  i_addrs :: "u32 list"

datatype fdtype = FD_NONE | FD_PIPE | FD_INODE | FD_DEVICE

record kfile =
  f_type :: fdtype
  f_ref :: int
  f_readable :: bool
  f_writable :: bool
  f_pipe :: u64
  f_ip :: "nat option"
  f_off :: u32
  f_major :: u16

record pipe =
  pi_data :: "u8 list"
  pi_nread :: u32
  pi_nwrite :: u32
  pi_readopen :: bool
  pi_writeopen :: bool

record console =
  c_buf :: "u8 list"
  c_r :: u32
  c_w :: u32
  c_e :: u32

section \<open>The virtio disk\<close>

text \<open>What a descriptor's address points to: a command header, a buffer's data, a status byte.\<close>

datatype dma = DNone | DOps nat | DData nat | DStatus nat

record virtq_desc =
  vd_addr :: dma
  vd_len :: u32
  vd_flags :: u16
  vd_next :: u16

record virtio_blk_req =
  rq_type :: u32
  rq_reserved :: u32
  rq_sector :: u64

text \<open>
  struct disk with the rings it points to. \<open>d_seen\<close> is how far the device has come in the avail
  ring, and \<open>d_regs\<close> the device's registers by offset.
\<close>

record vdisk =
  d_desc :: "virtq_desc list"
  d_avail_idx :: u16
  d_avail_ring :: "u16 list"
  d_used_idx :: u16
  d_used_ring :: "u32 list"
  d_free :: "bool list"
  d_last_used :: u16
  d_info_b :: "nat option list"
  d_info_status :: "u8 list"
  d_ops :: "virtio_blk_req list"
  d_seen :: u16
  d_regs :: "nat \<Rightarrow> u32"

section \<open>The kernel\<close>

type_synonym block = "u8 list"

text \<open>The supervisor registers the C code reads and writes, of the hart \<open>tp\<close> it runs on.\<close>

record csr =
  stvec :: u64
  sepc :: u64
  sstatus :: u64
  scause :: u64
  stval :: u64
  satp :: u64
  stimecmp :: u64
  mtime :: u64
  tp :: u64

text \<open>
  \<open>kend\<close>, \<open>etext\<close>, \<open>trampoline\<close> and the \<open>_addr\<close> fields are addresses the linker fixes. \<open>freelist\<close> is kmem.freelist (0
  for the empty list). \<open>disk\<close> is the disk's contents and \<open>disk_writes\<close> the blocks written to
  it so far, newest first (a history no code reads). \<open>bufs\<close> holds the NBUF buffers and, at
  index NBUF, the list head. \<open>cur\<close> is the process the code runs for; \<open>console_out\<close> collects
  what the kernel prints. Devices: \<open>uart_regs\<close> holds the values last stored in the UART's
  registers, \<open>uart_idle\<close> its answers to successive reads of LSR_TX_IDLE (\<open>uart_polls\<close> counts
  them), \<open>uart_rx\<close> the input waiting in it; \<open>plic\<close> is the interrupt controller's registers by
  address.
\<close>

record kstate =
  mem :: memory
  freelist :: u64
  kend :: u64
  etext :: u64
  trampoline :: u64
  forkret_addr :: u64
  uservec_addr :: u64
  userret_addr :: u64
  usertrap_addr :: u64
  kernelvec_addr :: u64
  forkret_first :: bool
  csrs :: csr
  procs :: "proc list"
  nextpid :: int
  initproc :: "nat option"
  cur :: nat
  trapframes :: "u64 \<Rightarrow> trapframe"
  disk :: "u32 \<Rightarrow> block"
  disk_writes :: "(u32 \<times> block) list"
  bufs :: "buf list"
  klog :: log
  sb :: superblock
  itable :: "inode list"
  ftable :: "kfile list"
  pipes :: "u64 \<Rightarrow> pipe"
  ticks :: u32
  cons :: console
  console_out :: string
  tx_lock :: sleeplock
  uart_regs :: "nat \<Rightarrow> u8"
  uart_idle :: "nat \<Rightarrow> bool"
  uart_polls :: nat
  uart_rx :: "u8 list"
  plic :: "u64 \<Rightarrow> u32"
  vdisk :: vdisk
  kernel_pagetable :: u64
  started :: bool

type_synonym 'a kernel = "(kstate, 'a) km"

text \<open>Updating one entry of a table in place.\<close>

definition upd_nth :: "nat \<Rightarrow> ('a \<Rightarrow> 'a) \<Rightarrow> 'a list \<Rightarrow> 'a list" where
  "upd_nth i f xs = xs[i := f (xs ! i)]"

lemma length_upd_nth [simp, len_simps]: "length (upd_nth i f xs) = length xs"
  by (simp add: upd_nth_def)

lemma nth_upd_nth:
  "j < length xs \<Longrightarrow> upd_nth i f xs ! j = (if i = j then f (xs ! j) else xs ! j)"
  by (simp add: upd_nth_def nth_list_update)

lemma nth_upd_nth_same [simp]: "i < length xs \<Longrightarrow> upd_nth i f xs ! i = f (xs ! i)"
  by (simp add: nth_upd_nth)

lemma nth_upd_nth_other [simp]: "i \<noteq> j \<Longrightarrow> upd_nth i f xs ! j = xs ! j"
  by (simp add: upd_nth_def)

lemma upd_nth_twice [simp]: "upd_nth i f (upd_nth i g xs) = upd_nth i (f \<circ> g) xs"
  by (cases "i < length xs") (simp_all add: upd_nth_def list_update_beyond)

abbreviation (input) upd_proc :: "nat \<Rightarrow> (proc \<Rightarrow> proc) \<Rightarrow> kstate \<Rightarrow> kstate" where
  "upd_proc i f \<equiv> procs_update (upd_nth i f)"

abbreviation (input) upd_buf :: "nat \<Rightarrow> (buf \<Rightarrow> buf) \<Rightarrow> kstate \<Rightarrow> kstate" where
  "upd_buf i f \<equiv> bufs_update (upd_nth i f)"

abbreviation (input) upd_inode :: "nat \<Rightarrow> (inode \<Rightarrow> inode) \<Rightarrow> kstate \<Rightarrow> kstate" where
  "upd_inode i f \<equiv> itable_update (upd_nth i f)"

abbreviation (input) upd_file :: "nat \<Rightarrow> (kfile \<Rightarrow> kfile) \<Rightarrow> kstate \<Rightarrow> kstate" where
  "upd_file i f \<equiv> ftable_update (upd_nth i f)"

abbreviation (input) upd_log :: "(log \<Rightarrow> log) \<Rightarrow> kstate \<Rightarrow> kstate" where
  "upd_log f \<equiv> klog_update f"

section \<open>A sample state\<close>

text \<open>
  The state of the kernel's variables before any initialisation: C's static variables are zero.
  The concrete states of the theorems' instances are updates of it.
\<close>

definition context0 :: kcontext where
  "context0 = \<lparr>ctx_ra = 0, ctx_sp = 0, ctx_s = replicate 12 0\<rparr>"

definition proc0 :: proc where
  "proc0 = \<lparr>p_state = UNUSED, p_chan = None, p_killed = False, p_xstate = 0, p_pid = 0,
     p_parent = None, p_kstack = 0, p_sz = 0, p_pagetable = 0, p_trapframe = 0,
     p_context = context0, p_ofile = replicate NOFILE None, p_cwd = None, p_name = replicate 16 0\<rparr>"

definition lock0 :: sleeplock where
  "lock0 = \<lparr>sl_locked = False, sl_pid = 0\<rparr>"

definition buf0 :: buf where
  "buf0 = \<lparr>b_valid = False, b_disk = False, b_dev = 0, b_blockno = 0, b_lock = lock0,
     b_refcnt = 0, b_prev = 0, b_next = 0, b_data = replicate BSIZE 0\<rparr>"

definition log0 :: log where
  "log0 = \<lparr>l_start = 0, l_outstanding = 0, l_committing = False, l_dev = 0, l_ncommit = 0,
     l_lh = \<lparr>lh_n = 0, lh_block = replicate LOGBLOCKS 0\<rparr>\<rparr>"

definition superblock0 :: superblock where
  "superblock0 = \<lparr>sb_magic = 0, sb_size = 0, sb_nblocks = 0, sb_ninodes = 0, sb_nlog = 0,
     sb_logstart = 0, sb_inodestart = 0, sb_bmapstart = 0\<rparr>"

definition inode0 :: inode where
  "inode0 = \<lparr>i_dev = 0, i_inum = 0, i_ref = 0, i_lock = lock0, i_valid = False, i_type = 0,
     i_major = 0, i_minor = 0, i_nlink = 0, i_size = 0, i_addrs = replicate 13 0\<rparr>"

definition kfile0 :: kfile where
  "kfile0 = \<lparr>f_type = FD_NONE, f_ref = 0, f_readable = False, f_writable = False, f_pipe = 0,
     f_ip = None, f_off = 0, f_major = 0\<rparr>"

definition pipe0 :: pipe where
  "pipe0 = \<lparr>pi_data = replicate 512 0, pi_nread = 0, pi_nwrite = 0, pi_readopen = False,
     pi_writeopen = False\<rparr>"

definition trapframe0 :: trapframe where
  "trapframe0 = \<lparr>kernel_satp = 0, kernel_sp = 0, kernel_trap = 0, tf_epc = 0, kernel_hartid = 0,
     tf_ra = 0, tf_sp = 0, tf_a0 = 0, tf_a1 = 0, tf_a2 = 0, tf_a3 = 0, tf_a4 = 0, tf_a5 = 0,
     tf_a6 = 0, tf_a7 = 0, tf_rest = replicate 21 0\<rparr>"

definition csr0 :: csr where
  "csr0 = \<lparr>stvec = 0, sepc = 0, sstatus = 0, scause = 0, stval = 0, satp = 0, stimecmp = 0,
     mtime = 0, tp = 0\<rparr>"

definition vdisk0 :: vdisk where
  "vdisk0 = \<lparr>d_desc = replicate 8 \<lparr>vd_addr = DNone, vd_len = 0, vd_flags = 0, vd_next = 0\<rparr>,
     d_avail_idx = 0, d_avail_ring = replicate 8 0, d_used_idx = 0, d_used_ring = replicate 8 0,
     d_free = replicate 8 False, d_last_used = 0, d_info_b = replicate 8 None,
     d_info_status = replicate 8 0, d_ops = replicate 8 \<lparr>rq_type = 0, rq_reserved = 0, rq_sector = 0\<rparr>,
     d_seen = 0, d_regs = (\<lambda>_. 0)\<rparr>"

definition kstate0 :: kstate where
  "kstate0 = \<lparr>mem = (\<lambda>_. 0), freelist = 0, kend = 0x80021000, etext = 0x80008000,
     trampoline = 0x80007000, forkret_addr = 0x80001a00, uservec_addr = 0x80007000,
     userret_addr = 0x8000709c, usertrap_addr = 0x80002800, kernelvec_addr = 0x80005c00,
     forkret_first = True, csrs = csr0, procs = replicate NPROC proc0, nextpid = 1, initproc = None,
     cur = 0, trapframes = (\<lambda>_. trapframe0), disk = (\<lambda>_. replicate BSIZE 0), disk_writes = [],
     bufs = replicate (NBUF + 1) buf0, klog = log0, sb = superblock0,
     itable = replicate NINODE inode0, ftable = replicate NFILE kfile0, pipes = (\<lambda>_. pipe0),
     ticks = 0, cons = \<lparr>c_buf = replicate 128 0, c_r = 0, c_w = 0, c_e = 0\<rparr>, console_out = [],
     tx_lock = lock0, uart_regs = (\<lambda>_. 0), uart_idle = (\<lambda>_. True), uart_polls = 0, uart_rx = [],
     plic = (\<lambda>_. 0), vdisk = vdisk0, kernel_pagetable = 0, started = False\<rparr>"

end
