(* ===== verification/Xv6_Kalloc.thy ===== *)
theory Xv6_Kalloc
  imports Xv6_State
begin

text \<open>
  kernel/kalloc.c, the physical page allocator. The free pages form a linked list threaded
  through the pages themselves: the first eight bytes of a free page hold the address of the
  next one. The contract of the allocator is the locale \<open>page_allocator\<close>, interpreted at the
  end on kalloc and kfree.
\<close>

section \<open>64-bit loads and stores\<close>

definition load64 :: "memory \<Rightarrow> u64 \<Rightarrow> u64" where
  "load64 m a = le_word (mem_read m a 8)"

definition store64 :: "memory \<Rightarrow> u64 \<Rightarrow> u64 \<Rightarrow> memory" where
  "store64 m a v = mem_write m a (le_bytes 8 v)"

section \<open>The allocator\<close>

text \<open>kernel/riscv.h: rounding an address up and down to a page boundary.\<close>

definition PGROUNDUP :: "u64 \<Rightarrow> u64" where
  "PGROUNDUP sz = (sz + PGSIZE - 1) AND NOT (PGSIZE - 1)"

definition PGROUNDDOWN :: "u64 \<Rightarrow> u64" where
  "PGROUNDDOWN a = a AND NOT (PGSIZE - 1)"

definition memset_page :: "u64 \<Rightarrow> u8 \<Rightarrow> unit kernel" where
  "memset_page pa c = kmodify (\<lambda>s. s\<lparr>mem := memset (mem s) pa c 4096\<rparr>)"

definition kfree :: "u64 \<Rightarrow> unit kernel" where
  "kfree pa =
     kthen (kpanic_if (\<lambda>s. pa mod PGSIZE \<noteq> 0 \<or> pa < kend s \<or> pa \<ge> PHYSTOP) ''kfree'')
     (kthen (memset_page pa 1)
     (kthen (kmodify (\<lambda>s. s\<lparr>mem := store64 (mem s) pa (freelist s)\<rparr>))
     (kmodify (\<lambda>s. s\<lparr>freelist := pa\<rparr>))))"

definition kalloc :: "u64 kernel" where
  "kalloc =
     kbind (kgets freelist) (\<lambda>r.
     if r \<noteq> 0
     then kthen (kmodify (\<lambda>s. s\<lparr>freelist := load64 (mem s) r\<rparr>))
          (kthen (memset_page r 5) (kret r))
     else kret 0)"

text \<open>
  for (; p + PGSIZE <= pa_end; p += PGSIZE) kfree(p);  Pointer arithmetic in C does not
  wrap; the guard says so.
\<close>

function freerange_loop :: "u64 \<Rightarrow> u64 \<Rightarrow> unit kernel" where
  "freerange_loop p pa_end =
     (if p < p + PGSIZE \<and> p + PGSIZE \<le> pa_end
      then kthen (kfree p) (freerange_loop (p + PGSIZE) pa_end)
      else kret ())"
  by pat_completeness auto
termination
  by (relation "measure (\<lambda>(p, pa_end). 2 ^ 64 - unat p)")
    (auto simp: word_less_nat_alt intro!: diff_less_mono2 less_le_trans [OF _ less_imp_le [OF unat_bounds(4)]]
      intro: unat_bounds(4) [simplified])

declare freerange_loop.simps [simp del]

definition freerange :: "u64 \<Rightarrow> u64 \<Rightarrow> unit kernel" where
  "freerange pa_start pa_end = freerange_loop (PGROUNDUP pa_start) pa_end"

definition kinit :: "unit kernel" where
  "kinit = kbind (kgets kend) (\<lambda>e. freerange e PHYSTOP)"

section \<open>Pages\<close>

lemma PGROUNDDOWN_eq: "PGROUNDDOWN a = push_bit 12 (drop_bit 12 a)"
proof -
  have m: "(PGSIZE - 1 :: u64) = mask 12" by (simp add: mask_eq_exp_minus_1)
  show ?thesis unfolding PGROUNDDOWN_def m
    by (rule bit_eqI) (auto simp: bit_simps)
qed

lemma unat_PGROUNDDOWN: "unat (PGROUNDDOWN a) = unat a div 4096 * 4096"
proof -
  have "unat a div 4096 * 4096 < 2 ^ 64"
    using unat_bounds(4) [of a] by simp
  then show ?thesis
    by (simp add: PGROUNDDOWN_eq push_bit_eq_mult drop_bit_eq_div unat_word_ariths)
qed

lemma PGROUNDUP_as_down: "PGROUNDUP a = PGROUNDDOWN (a + 4095)"
  by (simp add: PGROUNDUP_def PGROUNDDOWN_def add_diff_eq [symmetric])

lemma unat_PGROUNDUP:
  assumes "unat a + 4095 < 2 ^ 64"
  shows "unat (PGROUNDUP a) = (unat a + 4095) div 4096 * 4096"
  using assms by (simp add: PGROUNDUP_as_down unat_PGROUNDDOWN unat_word_ariths)

definition page_aligned :: "u64 \<Rightarrow> bool" where
  "page_aligned p \<longleftrightarrow> p mod PGSIZE = 0"

lemma page_aligned_unat: "page_aligned p \<longleftrightarrow> unat p mod 4096 = 0"
  by (simp add: page_aligned_def unat_eq_0 [symmetric] unat_mod)

lemma page_aligned_PGROUNDDOWN [simp]: "page_aligned (PGROUNDDOWN a)"
  by (simp add: page_aligned_unat unat_PGROUNDDOWN)

lemma page_aligned_PGROUNDUP [simp]: "page_aligned (PGROUNDUP a)"
  by (simp add: PGROUNDUP_as_down)

lemma page_aligned_bound: "page_aligned p \<Longrightarrow> unat p + 4096 \<le> 2 ^ 64"
proof -
  assume "page_aligned p"
  then obtain k where "unat p = 4096 * k"
    by (auto simp: page_aligned_unat)
  with unat_bounds(4) [of p] show ?thesis by simp
qed

lemma page_aligned_apart:
  assumes "page_aligned p" "page_aligned q" "p \<noteq> q"
  shows "unat p + 4096 \<le> unat q \<or> unat q + 4096 \<le> unat p"
proof -
  obtain k l where kl: "unat p = 4096 * k" "unat q = 4096 * l"
    using assms(1,2) by (auto simp: page_aligned_unat elim!: dvdE)
  moreover have "unat p \<noteq> unat q" using assms(3) by (simp add: word_unat_eq_iff)
  ultimately have "k \<noteq> l" by auto
  then show ?thesis using kl by linarith
qed

lemma unat_offset:
  assumes "page_aligned p" "i < 4096"
  shows "unat (p + of_nat i) = unat p + i"
  using page_aligned_bound [OF assms(1)] assms(2)
  by (simp add: unat_word_ariths unat_of_nat_u64)

text \<open>Ranges inside two different pages do not meet; nor do two ranges of one page.\<close>

lemma disjoint_pages:
  assumes "page_aligned p" "page_aligned q" "i + n \<le> 4096" "j + k \<le> 4096"
    and "p \<noteq> q \<or> i + n \<le> j \<or> j + k \<le> i"
  shows "disjoint_ranges (p + of_nat i) n (q + of_nat j) k"
proof (cases "n = 0 \<or> k = 0")
  case True
  then show ?thesis by (auto simp: disjoint_ranges_def)
next
  case False
  then have u: "unat (p + of_nat i) = unat p + i" "unat (q + of_nat j) = unat q + j"
    using assms by (auto intro!: unat_offset)
  have "unat p = unat q \<or> unat p + 4096 \<le> unat q \<or> unat q + 4096 \<le> unat p"
    using page_aligned_apart assms(1,2) by blast
  moreover have "p \<noteq> q \<longrightarrow> unat p \<noteq> unat q" by (simp add: word_unat_eq_iff)
  ultimately have "unat p + i + n \<le> unat q + j \<or> unat q + j + k \<le> unat p + i"
    using assms(3-5) by linarith
  then show ?thesis
    using page_aligned_bound [OF assms(1)] page_aligned_bound [OF assms(2)] assms(3,4)
    by (intro disjoint_rangesI) (simp_all add: u)
qed

lemmas disjoint_pages_0 = disjoint_pages [where i = 0 and j = 0, simplified]

text \<open>Two memories that agree outside the page at \<open>p\<close>.\<close>

definition same_except :: "u64 \<Rightarrow> memory \<Rightarrow> memory \<Rightarrow> bool" where
  "same_except p m m' \<longleftrightarrow>
     (\<forall>q i. page_aligned q \<longrightarrow> q \<noteq> p \<longrightarrow> i < 4096 \<longrightarrow> at m' q i = at m q i)"

lemma same_except_refl [simp]: "same_except p m m"
  by (simp add: same_except_def)

lemma same_except_trans:
  "same_except p m m' \<Longrightarrow> same_except p m' m'' \<Longrightarrow> same_except p m m''"
  by (simp add: same_except_def)

lemma same_except_write:
  assumes "page_aligned p" "i + length xs \<le> 4096"
  shows "same_except p m (mem_write m (p + of_nat i) xs)"
  unfolding same_except_def
proof (intro allI impI)
  fix q k assume q: "page_aligned q" "q \<noteq> p" "k < (4096 :: nat)"
  have "disjoint_ranges (q + of_nat 0) 4096 (p + of_nat i) (length xs)"
    using assms q by (intro disjoint_pages) auto
  then show "at (mem_write m (p + of_nat i) xs) q k = at m q k"
    using q(3) by (intro at_write_other) auto
qed

lemma same_except_write_0:
  "page_aligned p \<Longrightarrow> length xs \<le> 4096 \<Longrightarrow> same_except p m (mem_write m p xs)"
  using same_except_write [of p 0] by simp

lemma at_offset: "at m (q + of_nat i) j = at m q (i + j)"
  by (simp add: at_def add.assoc)

lemma same_except_read:
  assumes "same_except p m m'" "page_aligned q" "q \<noteq> p" "i + n \<le> 4096"
  shows "mem_read m' (q + of_nat i) n = mem_read m (q + of_nat i) n"
  by (rule nth_equalityI) (use assms in \<open>auto simp: same_except_def at_offset\<close>)

lemma load64_same_except:
  assumes "same_except p m m'" "page_aligned q" "q \<noteq> p" "i + 8 \<le> 4096"
  shows "load64 m' (q + of_nat i) = load64 m (q + of_nat i)"
  using same_except_read [OF assms] by (simp add: load64_def)

lemmas load64_same_except_0 = load64_same_except [where i = 0, simplified]

lemma load64_store64 [simp]: "load64 (store64 m a v) a = v"
  by (simp add: load64_def store64_def)

lemma load64_store64_other:
  assumes "page_aligned p" "page_aligned q" "i + 8 \<le> 4096" "j + 8 \<le> 4096"
    and "p \<noteq> q \<or> i + 8 \<le> j \<or> j + 8 \<le> i"
  shows "load64 (store64 m (q + of_nat j) v) (p + of_nat i) = load64 m (p + of_nat i)"
  using disjoint_pages [OF assms] by (simp add: load64_def store64_def mem_read_write_other)

lemma same_except_store64:
  "page_aligned p \<Longrightarrow> i + 8 \<le> 4096 \<Longrightarrow> same_except p m (store64 m (p + of_nat i) v)"
  by (simp add: store64_def same_except_write)

lemmas same_except_store64_0 = same_except_store64 [where i = 0, simplified]

lemma same_except_memset:
  "page_aligned p \<Longrightarrow> same_except p m (memset m p c 4096)"
  by (simp add: memset_eq same_except_write_0)

section \<open>The free list\<close>

text \<open>The pages on the list that starts at \<open>h\<close>, in order.\<close>

primrec free_list :: "memory \<Rightarrow> u64 \<Rightarrow> u64 list \<Rightarrow> bool" where
  "free_list m h [] \<longleftrightarrow> h = 0"
| "free_list m h (p # ps) \<longleftrightarrow> h = p \<and> p \<noteq> 0 \<and> free_list m (load64 m p) ps"

text \<open>A physical page the allocator manages.\<close>

definition ram_page :: "kstate \<Rightarrow> u64 \<Rightarrow> bool" where
  "ram_page s p \<longleftrightarrow> page_aligned p \<and> kend s \<le> p \<and> p < PHYSTOP \<and> p \<noteq> 0"

definition free_pages :: "kstate \<Rightarrow> u64 list \<Rightarrow> bool" where
  "free_pages s ps \<longleftrightarrow>
     free_list (mem s) (freelist s) ps \<and> distinct ps \<and> (\<forall>p\<in>set ps. ram_page s p)"

lemma free_list_same_except:
  assumes "same_except p m m'" "p \<notin> set ps" "\<And>q. q \<in> set ps \<Longrightarrow> page_aligned q"
  shows "free_list m' h ps \<longleftrightarrow> free_list m h ps"
  using assms
proof (induction ps arbitrary: h)
  case Nil
  then show ?case by simp
next
  case (Cons q ps)
  then have "load64 m' q = load64 m q"
    by (intro load64_same_except_0 [of p]) auto
  with Cons show ?case by simp
qed

text \<open>A free list is determined by its head.\<close>

lemma free_list_unique: "free_list m h ps \<Longrightarrow> free_list m h qs \<Longrightarrow> ps = qs"
proof (induction ps arbitrary: h qs)
  case Nil
  then show ?case by (cases qs) auto
next
  case (Cons p ps)
  then show ?case by (cases qs) auto
qed

lemma free_pages_unique: "free_pages s ps \<Longrightarrow> free_pages s qs \<Longrightarrow> ps = qs"
  by (auto simp: free_pages_def intro: free_list_unique)

lemma ram_page_cong [simp]:
  "ram_page (s\<lparr>mem := m\<rparr>) p = ram_page s p" "ram_page (s\<lparr>freelist := f\<rparr>) p = ram_page s p"
  by (simp_all add: ram_page_def)

text \<open>What an allocation and a free do to the state: only \<open>mem\<close> and \<open>freelist\<close> change.\<close>

lemma kalloc_empty: "free_pages s [] \<Longrightarrow> kalloc s = Ok 0 s"
  by (simp add: kalloc_def free_pages_def)

lemma kalloc_page:
  assumes "free_pages s (p # ps)"
  shows "\<exists>m. kalloc s = Ok p (s\<lparr>mem := m, freelist := load64 (mem s) p\<rparr>) \<and>
    free_pages (s\<lparr>mem := m, freelist := load64 (mem s) p\<rparr>) ps \<and>
    same_except p (mem s) m \<and> mem_read m p 4096 = replicate 4096 5"
proof -
  let ?m = "memset (mem s) p 5 4096"
  have p: "p \<noteq> 0" "freelist s = p" "page_aligned p" "p \<notin> set ps"
    and fl: "free_list (mem s) (load64 (mem s) p) ps"
    and ok: "distinct ps" "\<forall>q\<in>set ps. ram_page s q"
    using assms by (auto simp: free_pages_def ram_page_def)
  have "kalloc s = Ok p (s\<lparr>mem := ?m, freelist := load64 (mem s) p\<rparr>)"
    using p by (simp add: kalloc_def memset_page_def)
  moreover have se: "same_except p (mem s) ?m"
    using p by (intro same_except_memset)
  moreover have "free_list ?m (load64 (mem s) p) ps"
    using free_list_same_except [OF se] p ok fl by (auto simp: ram_page_def)
  moreover have "mem_read ?m p 4096 = replicate 4096 5"
    by (simp add: memset_eq)
  ultimately show ?thesis
    using ok by (auto simp: free_pages_def)
qed

lemma kfree_page:
  assumes "free_pages s ps" "ram_page s p" "p \<notin> set ps"
  shows "\<exists>m. kfree p s = Ok () (s\<lparr>mem := m, freelist := p\<rparr>) \<and>
    free_pages (s\<lparr>mem := m, freelist := p\<rparr>) (p # ps) \<and> same_except p (mem s) m"
proof -
  let ?m = "store64 (memset (mem s) p 1 4096) p (freelist s)"
  have p: "page_aligned p" "p \<noteq> 0"
    using assms by (auto simp: ram_page_def)
  have "kfree p s = Ok () (s\<lparr>mem := ?m, freelist := p\<rparr>)"
    using assms(2) by (auto simp: kfree_def memset_page_def ram_page_def page_aligned_def not_less)
  moreover have se: "same_except p (mem s) ?m"
    using p same_except_memset same_except_store64_0 same_except_trans by blast
  moreover have "free_list ?m (freelist s) ps"
    using free_list_same_except [OF se assms(3)] assms(1) by (auto simp: free_pages_def ram_page_def)
  ultimately show ?thesis
    using assms p by (auto simp: free_pages_def)
qed

text \<open>kfree refuses an address that is not the start of a page the allocator manages.\<close>

lemma kfree_panics:
  "p mod PGSIZE \<noteq> 0 \<or> p < kend s \<or> p \<ge> PHYSTOP \<Longrightarrow> kfree p s = Panic ''kfree''"
  by (simp add: kfree_def)

section \<open>Building the free list\<close>

definition page_range :: "u64 \<Rightarrow> nat \<Rightarrow> u64 list" where
  "page_range p n = map (\<lambda>i. p + of_nat (4096 * i)) [0..<n]"

lemma page_range_Suc: "page_range p (Suc n) = p # page_range (p + PGSIZE) n"
  by (simp add: page_range_def upt_conv_Cons map_Suc_upt [symmetric] comp_def algebra_simps
      del: upt_Suc)

lemma length_page_range [simp, len_simps]: "length (page_range p n) = n"
  by (simp add: page_range_def)

lemma unat_next_page:
  "page_aligned p \<Longrightarrow> p < PHYSTOP \<Longrightarrow> unat (p + PGSIZE) = unat p + 4096"
  by (simp add: unat_word_ariths word_less_nat_alt)

lemma page_aligned_next: "page_aligned p \<Longrightarrow> p < PHYSTOP \<Longrightarrow> page_aligned (p + PGSIZE)"
  by (simp add: page_aligned_unat unat_next_page)

lemma freerange_loop_spec:
  assumes "free_pages s ps" "page_aligned p" "kend s \<le> p" "p \<noteq> 0"
    and "unat p + 4096 * n = unat PHYSTOP" "\<And>q. q \<in> set ps \<Longrightarrow> q < p"
  shows "\<exists>m f. freerange_loop p PHYSTOP s = Ok () (s\<lparr>mem := m, freelist := f\<rparr>) \<and>
    free_pages (s\<lparr>mem := m, freelist := f\<rparr>) (rev (page_range p n) @ ps)"
  using assms
proof (induction n arbitrary: s p ps)
  case 0
  then have "\<not> (p < p + PGSIZE \<and> p + PGSIZE \<le> PHYSTOP)"
    by (simp add: word_le_nat_alt unat_word_ariths)
  then have "freerange_loop p PHYSTOP s = Ok () (s\<lparr>mem := mem s, freelist := freelist s\<rparr>)"
    by (subst freerange_loop.simps) (auto split: if_splits)
  then show ?case
    using "0.prems"(1)
    by (intro exI [of _ "mem s"] exI [of _ "freelist s"]) (auto simp: page_range_def)
next
  case (Suc n)
  have lt: "p < PHYSTOP"
    using Suc.prems(5) by (simp add: word_less_nat_alt)
  note next_p = unat_next_page [OF Suc.prems(2) lt]
  have rp: "ram_page s p"
    using Suc.prems lt by (simp add: ram_page_def)
  have "p \<notin> set ps" using Suc.prems(6) by blast
  from kfree_page [OF Suc.prems(1) rp this] obtain m where
    kf: "kfree p s = Ok () (s\<lparr>mem := m, freelist := p\<rparr>)"
    and fp: "free_pages (s\<lparr>mem := m, freelist := p\<rparr>) (p # ps)" by blast
  let ?t = "s\<lparr>mem := m, freelist := p\<rparr>"
  have plt: "p < p + PGSIZE"
    by (simp add: word_less_nat_alt next_p)
  have le: "p + PGSIZE \<le> PHYSTOP"
    using Suc.prems(5) by (simp add: word_le_nat_alt next_p)
  have "\<exists>m' f. freerange_loop (p + PGSIZE) PHYSTOP ?t = Ok () (?t\<lparr>mem := m', freelist := f\<rparr>) \<and>
      free_pages (?t\<lparr>mem := m', freelist := f\<rparr>) (rev (page_range (p + PGSIZE) n) @ p # ps)"
  proof (rule Suc.IH [OF fp])
    show "page_aligned (p + PGSIZE)"
      by (rule page_aligned_next [OF Suc.prems(2) lt])
    show "kend ?t \<le> p + PGSIZE"
      using Suc.prems(3) plt by simp
    show "p + PGSIZE \<noteq> 0"
      using next_p by (auto simp: word_unat_eq_iff)
    show "unat (p + PGSIZE) + 4096 * n = unat PHYSTOP"
      using Suc.prems(5) next_p by simp
    fix q assume "q \<in> set (p # ps)"
    then show "q < p + PGSIZE"
      using Suc.prems(6) plt by (auto intro: less_trans)
  qed
  then obtain m' f where
    "freerange_loop (p + PGSIZE) PHYSTOP ?t = Ok () (?t\<lparr>mem := m', freelist := f\<rparr>)"
    "free_pages (?t\<lparr>mem := m', freelist := f\<rparr>) (rev (page_range (p + PGSIZE) n) @ p # ps)"
    by blast
  moreover have "freerange_loop p PHYSTOP s = freerange_loop (p + PGSIZE) PHYSTOP ?t"
    using plt le kf by (subst freerange_loop.simps) (simp add: kthen_Ok)
  ultimately show ?case
    by (simp add: page_range_Suc) blast
qed

section \<open>The allocator's contract\<close>

text \<open>
  \<open>avail s ps\<close>: exactly the pages \<open>ps\<close> are free in \<open>s\<close>, the next one to be handed out first.
\<close>

locale page_allocator =
  fixes alloc :: "('s, u64) km"
    and free :: "u64 \<Rightarrow> ('s, unit) km"
    and avail :: "'s \<Rightarrow> u64 list \<Rightarrow> bool"
    and managed :: "'s \<Rightarrow> u64 \<Rightarrow> bool"
    and contents :: "'s \<Rightarrow> memory"
  assumes alloc_none: "avail s [] \<Longrightarrow> alloc s = Ok 0 s"
    and alloc_some: "avail s (p # ps) \<Longrightarrow>
      wp alloc (\<lambda>r t. r = p \<and> avail t ps \<and> managed t = managed s \<and>
        same_except p (contents s) (contents t)) s"
    and free_page: "avail s ps \<Longrightarrow> managed s p \<Longrightarrow> p \<notin> set ps \<Longrightarrow>
      wp (free p) (\<lambda>_ t. avail t (p # ps) \<and> managed t = managed s \<and>
        same_except p (contents s) (contents t)) s"
    and avail_managed: "avail s ps \<Longrightarrow> distinct ps \<and> (\<forall>p\<in>set ps. managed s p \<and> p \<noteq> 0)"
begin

text \<open>Freeing the page that was just allocated restores the free list.\<close>

lemma alloc_free:
  assumes "avail s (p # ps)"
  shows "wp (kbind alloc free) (\<lambda>_ t. avail t (p # ps)) s"
proof -
  from alloc_some [OF assms] obtain t where t: "alloc s = Ok p t" "avail t ps"
    "managed t = managed s" by (auto simp: wp_def)
  from avail_managed [OF assms] t have "managed t p" "p \<notin> set ps" by auto
  from free_page [OF t(2) this] t(1) show ?thesis
    by (auto simp: wp_def kbind_def)
qed

text \<open>Two allocations in a row return two different pages, neither of them null.\<close>

lemma alloc_twice:
  assumes "avail s (p # q # ps)"
  shows "wp (kbind alloc (\<lambda>a. kbind alloc (\<lambda>b. kret (a, b))))
    (\<lambda>(a, b) t. a \<noteq> b \<and> a \<noteq> 0 \<and> b \<noteq> 0 \<and> avail t ps) s"
proof -
  from alloc_some [OF assms] obtain t where t: "alloc s = Ok p t" "avail t (q # ps)"
    by (auto simp: wp_def)
  from alloc_some [OF t(2)] obtain u where u: "alloc t = Ok q u" "avail u ps"
    by (auto simp: wp_def)
  from avail_managed [OF assms] t u show ?thesis
    by (auto simp: wp_def kbind_def)
qed

end

interpretation pa: page_allocator kalloc kfree free_pages ram_page mem
proof unfold_locales
  fix s :: kstate and p ps
  show "free_pages s [] \<Longrightarrow> kalloc s = Ok 0 s" by (rule kalloc_empty)
  show "wp kalloc (\<lambda>r t. r = p \<and> free_pages t ps \<and> ram_page t = ram_page s \<and>
      same_except p (mem s) (mem t)) s" if "free_pages s (p # ps)"
    using kalloc_page [OF that] by (auto simp: wp_def fun_eq_iff)
  show "wp (kfree p) (\<lambda>_ t. free_pages t (p # ps) \<and> ram_page t = ram_page s \<and>
      same_except p (mem s) (mem t)) s"
    if "free_pages s ps" "ram_page s p" "p \<notin> set ps"
    using kfree_page [OF that] by (auto simp: wp_def fun_eq_iff)
  show "distinct ps \<and> (\<forall>p\<in>set ps. ram_page s p \<and> p \<noteq> 0)" if "free_pages s ps"
    using that by (auto simp: free_pages_def ram_page_def)
qed

section \<open>Properties\<close>

text \<open>A page that is managed lies in the range that freerange runs over.\<close>

lemma ram_page_in_range:
  assumes "ram_page s p" "unat (kend s) + 4095 < 2 ^ 64"
    and "unat (PGROUNDUP (kend s)) + 4096 * n = unat PHYSTOP"
  shows "p \<in> set (page_range (PGROUNDUP (kend s)) n)"
proof -
  let ?b = "PGROUNDUP (kend s)"
  obtain k where k: "unat p = 4096 * k"
    using assms(1) by (auto simp: ram_page_def page_aligned_unat elim!: dvdE)
  obtain j where j: "unat ?b = 4096 * j"
    using unat_PGROUNDUP [OF assms(2)] by (metis mult.commute)
  have bounds: "unat (kend s) \<le> unat p" "unat p < unat PHYSTOP"
    using assms(1) by (auto simp: ram_page_def word_le_nat_alt word_less_nat_alt)
  have "j \<le> k"
    using bounds(1) k j unat_PGROUNDUP [OF assms(2)] by simp
  moreover have "k - j < n"
    using bounds(2) k j assms(3) \<open>j \<le> k\<close> by simp
  moreover have "p = ?b + of_nat (4096 * (k - j))"
  proof (rule word_unat_eq_iff [THEN iffD2])
    have "unat (of_nat (4096 * (k - j)) :: u64) = 4096 * (k - j)"
      using bounds k by (intro unat_of_nat_u64) simp
    then show "unat p = unat (?b + of_nat (4096 * (k - j)))"
      using j k bounds \<open>j \<le> k\<close> by (simp add: unat_word_ariths diff_mult_distrib2)
  qed
  ultimately show ?thesis
    unfolding page_range_def by (auto simp del: of_nat_mult)
qed

lemma kinit_frees_all:
  assumes "freelist s = 0" "0 < kend s" "kend s \<le> PHYSTOP"
  shows "wp kinit (\<lambda>_ t. ram_page t = ram_page s \<and>
    (\<exists>ps. free_pages t ps \<and> set ps = Collect (ram_page t))) s"
proof -
  let ?b = "PGROUNDUP (kend s)"
  have u: "unat (kend s) + 4095 < 2 ^ 64" "unat (kend s) \<le> unat PHYSTOP"
    using assms(3) by (auto simp: word_le_nat_alt)
  define n where "n = (unat PHYSTOP - unat ?b) div 4096"
  have n: "unat ?b + 4096 * n = unat PHYSTOP"
  proof -
    have "unat ?b \<le> unat PHYSTOP" using u unat_PGROUNDUP [OF u(1)] by simp
    moreover have "4096 dvd unat PHYSTOP - unat ?b"
      by (intro dvd_diff_nat) (auto simp: unat_PGROUNDUP [OF u(1)])
    ultimately show ?thesis by (simp add: n_def)
  qed
  have le: "kend s \<le> ?b"
    using unat_PGROUNDUP [OF u(1)] by (simp add: word_le_nat_alt)
  then have "?b \<noteq> 0"
    using assms(2) by (metis word_le_0_iff less_irrefl)
  have "free_pages s []" using assms(1) by (simp add: free_pages_def)
  from freerange_loop_spec [OF this, of ?b n] obtain m f where
    r: "freerange_loop ?b PHYSTOP s = Ok () (s\<lparr>mem := m, freelist := f\<rparr>)"
      "free_pages (s\<lparr>mem := m, freelist := f\<rparr>) (rev (page_range ?b n))"
    using le \<open>?b \<noteq> 0\<close> n by auto
  let ?t = "s\<lparr>mem := m, freelist := f\<rparr>"
  have "ram_page ?t = ram_page s" by (simp add: fun_eq_iff)
  moreover have "set (rev (page_range ?b n)) = Collect (ram_page ?t)"
    using r(2) ram_page_in_range [OF _ u(1) n] by (auto simp: free_pages_def)
  ultimately show ?thesis
    using r by (auto simp: kinit_def freerange_def intro!: wpI)
qed

text \<open>C24: kinit turns the whole of free memory into the free list: afterwards every page between
  the end of the kernel and PHYSTOP is on the list, exactly once, and nothing else is.\<close>

theorem kinit_collects_every_page:
  assumes "freelist s = 0" "0 < kend s" "kend s \<le> PHYSTOP"
  shows "wp kinit (\<lambda>_ t. \<exists>ps. free_pages t ps \<and> distinct ps \<and> set ps = Collect (ram_page s)) s"
  using kinit_frees_all [OF assms] by (rule wp_conseq) (auto simp: free_pages_def)

theorem kinit_collects_every_page_witness:
  "wp kinit (\<lambda>_ t. \<exists>ps. free_pages t ps \<and> distinct ps \<and> set ps = Collect (ram_page kstate0)) kstate0"
  by (rule kinit_collects_every_page) (simp_all add: kstate0_def)

text \<open>C25: kalloc and kfree implement a stack of pages. kalloc takes the top page (0 when there is
  none), fills it with junk and touches no other page. kfree of a managed page that is not free
  already puts it on top and touches no other page; of anything else it panics.\<close>

theorem kalloc_kfree_are_a_stack:
  assumes "free_pages s ps"
  shows "(case ps of [] \<Rightarrow> kalloc s = Ok 0 s
      | p # qs \<Rightarrow> wp kalloc (\<lambda>r t. r = p \<and> free_pages t qs \<and> same_except p (mem s) (mem t) \<and>
          mem_read (mem t) p 4096 = replicate 4096 5) s) \<and>
    (\<forall>p. if ram_page s p then p \<in> set ps \<or>
            wp (kfree p) (\<lambda>_ t. free_pages t (p # ps) \<and> same_except p (mem s) (mem t)) s
         else p = 0 \<or> kfree p s = Panic ''kfree'')"
proof (intro conjI allI)
  show "case ps of [] \<Rightarrow> kalloc s = Ok 0 s
      | p # qs \<Rightarrow> wp kalloc (\<lambda>r t. r = p \<and> free_pages t qs \<and> same_except p (mem s) (mem t) \<and>
          mem_read (mem t) p 4096 = replicate 4096 5) s"
    using assms kalloc_empty kalloc_page by (fastforce simp: wp_def split: list.split)
  show "if ram_page s p then p \<in> set ps \<or>
            wp (kfree p) (\<lambda>_ t. free_pages t (p # ps) \<and> same_except p (mem s) (mem t)) s
         else p = 0 \<or> kfree p s = Panic ''kfree''" for p
  proof (cases "ram_page s p")
    case True
    have "wp (kfree p) (\<lambda>_ t. free_pages t (p # ps) \<and> same_except p (mem s) (mem t)) s"
      if "p \<notin> set ps"
      using pa.free_page [OF assms True that] by (rule wp_conseq) simp
    with True show ?thesis by auto
  next
    case False
    then show ?thesis
      using kfree_panics [of p s] by (auto simp: ram_page_def page_aligned_def not_le not_less)
  qed
qed

theorem kalloc_kfree_are_a_stack_witness:
  "wp kalloc (\<lambda>r t. r = 0x80021000 \<and> free_pages t []) (kstate0\<lparr>freelist := 0x80021000\<rparr>)"
proof -
  have "load64 (\<lambda>_. 0) 0x80021000 = 0"
    by (simp add: load64_def mem_read_def at_def upt_rec le_word_def)
  then have "free_pages (kstate0\<lparr>freelist := 0x80021000\<rparr>) [0x80021000]"
    by (simp add: free_pages_def kstate0_def ram_page_def page_aligned_def)
  from kalloc_kfree_are_a_stack [OF this] show ?thesis
    by (auto elim: wp_conseq)
qed

end
