(* ===== verification/Xv6_Vm.thy ===== *)
theory Xv6_Vm
  imports Xv6_Kalloc
begin

text \<open>
  kernel/vm.c on the Sv39 page tables of kernel/riscv.h: the tables live in physical memory as
  512 little-endian 64-bit entries per page. A function returning a pointer or 0 returns the
  address; one returning 0 or -1 returns the integer.
\<close>

section \<open>Page table entries\<close>

abbreviation (input) PTE_V :: u64 where "PTE_V \<equiv> 1"
abbreviation (input) PTE_R :: u64 where "PTE_R \<equiv> 2"
abbreviation (input) PTE_W :: u64 where "PTE_W \<equiv> 4"
abbreviation (input) PTE_X :: u64 where "PTE_X \<equiv> 8"
abbreviation (input) PTE_U :: u64 where "PTE_U \<equiv> 16"

definition PA2PTE :: "u64 \<Rightarrow> u64" where
  "PA2PTE pa = push_bit 10 (drop_bit 12 pa)"

definition PTE2PA :: "u64 \<Rightarrow> u64" where
  "PTE2PA pte = push_bit 12 (drop_bit 10 pte)"

definition PTE_FLAGS :: "u64 \<Rightarrow> u64" where
  "PTE_FLAGS pte = pte AND 0x3FF"

definition PX :: "nat \<Rightarrow> u64 \<Rightarrow> u64" where
  "PX level va = drop_bit (12 + 9 * level) va AND 0x1FF"

text \<open>&pagetable[PX(level, va)]\<close>

definition pte_addr :: "u64 \<Rightarrow> nat \<Rightarrow> u64 \<Rightarrow> u64" where
  "pte_addr pagetable level va = pagetable + 8 * PX level va"

definition load_pte :: "u64 \<Rightarrow> u64 kernel" where
  "load_pte pte = kgets (\<lambda>s. load64 (mem s) pte)"

definition store_pte :: "u64 \<Rightarrow> u64 \<Rightarrow> unit kernel" where
  "store_pte pte v = kmodify (\<lambda>s. s\<lparr>mem := store64 (mem s) pte v\<rparr>)"

section \<open>Walking and mapping\<close>

text \<open>The loop of walk, from \<open>level\<close> down to 1.\<close>

fun walk_level :: "nat \<Rightarrow> u64 \<Rightarrow> u64 \<Rightarrow> bool \<Rightarrow> u64 kernel" where
  "walk_level 0 pagetable va alloc = kret (pte_addr pagetable 0 va)"
| "walk_level (Suc l) pagetable va alloc =
     kbind (load_pte (pte_addr pagetable (Suc l) va)) (\<lambda>pte.
     if pte AND PTE_V \<noteq> 0 then walk_level l (PTE2PA pte) va alloc
     else if \<not> alloc then kret 0
     else kbind kalloc (\<lambda>page.
       if page = 0 then kret 0
       else kthen (memset_page page 0)
            (kthen (store_pte (pte_addr pagetable (Suc l) va) (PA2PTE page OR PTE_V))
            (walk_level l page va alloc))))"

definition walk :: "u64 \<Rightarrow> u64 \<Rightarrow> bool \<Rightarrow> u64 kernel" where
  "walk pagetable va alloc =
     (if va \<ge> MAXVA then kpanic ''walk'' else walk_level 2 pagetable va alloc)"

definition walkaddr :: "u64 \<Rightarrow> u64 \<Rightarrow> u64 kernel" where
  "walkaddr pagetable va =
     (if va \<ge> MAXVA then kret 0
      else kbind (walk pagetable va False) (\<lambda>pte.
        if pte = 0 then kret 0
        else kbind (load_pte pte) (\<lambda>e.
          if e AND PTE_V = 0 then kret 0
          else if e AND PTE_U = 0 then kret 0
          else kret (PTE2PA e))))"

text \<open>
  The loop of mappages. It leaves when \<open>a == last\<close>, that is after the \<open>size / PGSIZE\<close> pages
  counted here by the first argument.
\<close>

fun mappages_loop :: "nat \<Rightarrow> u64 \<Rightarrow> u64 \<Rightarrow> u64 \<Rightarrow> u64 \<Rightarrow> int kernel" where
  "mappages_loop 0 pagetable a pa perm = kret 0"
| "mappages_loop (Suc n) pagetable a pa perm =
     kbind (walk pagetable a True) (\<lambda>pte.
     if pte = 0 then kret (- 1)
     else kbind (load_pte pte) (\<lambda>e.
       if e AND PTE_V \<noteq> 0 then kpanic ''mappages: remap''
       else kthen (store_pte pte (PA2PTE pa OR perm OR PTE_V))
            (mappages_loop n pagetable (a + PGSIZE) (pa + PGSIZE) perm)))"

definition mappages :: "u64 \<Rightarrow> u64 \<Rightarrow> u64 \<Rightarrow> u64 \<Rightarrow> u64 \<Rightarrow> int kernel" where
  "mappages pagetable va sz pa perm =
     (if va mod PGSIZE \<noteq> 0 then kpanic ''mappages: va not aligned''
      else if sz mod PGSIZE \<noteq> 0 then kpanic ''mappages: size not aligned''
      else if sz = 0 then kpanic ''mappages: size''
      else mappages_loop (unat (sz div PGSIZE)) pagetable va pa perm)"

definition kvmmap :: "u64 \<Rightarrow> u64 \<Rightarrow> u64 \<Rightarrow> u64 \<Rightarrow> u64 \<Rightarrow> unit kernel" where
  "kvmmap kpgtbl va pa sz perm =
     kbind (mappages kpgtbl va sz pa perm) (\<lambda>r.
     if r \<noteq> 0 then kpanic ''kvmmap'' else kret ())"

text \<open>kernel/memlayout.h: the kernel stack of process \<open>p\<close>.\<close>

definition KSTACK :: "nat \<Rightarrow> u64" where
  "KSTACK p = TRAMPOLINE - (of_nat p + 1) * 2 * PGSIZE"

text \<open>kernel/proc.c\<close>

definition proc_mapstacks :: "u64 \<Rightarrow> unit kernel" where
  "proc_mapstacks kpgtbl =
     kfor [0..<NPROC] (\<lambda>p.
       kbind kalloc (\<lambda>pa.
       if pa = 0 then kpanic ''kalloc''
       else kvmmap kpgtbl (KSTACK p) pa PGSIZE (PTE_R OR PTE_W)))"

definition kvmmake :: "u64 kernel" where
  "kvmmake =
     kbind kalloc (\<lambda>kpgtbl.
     kthen (memset_page kpgtbl 0)
     (kthen (kvmmap kpgtbl UART0 UART0 PGSIZE (PTE_R OR PTE_W))
     (kthen (kvmmap kpgtbl VIRTIO0 VIRTIO0 PGSIZE (PTE_R OR PTE_W))
     (kthen (kvmmap kpgtbl PLIC PLIC 0x4000000 (PTE_R OR PTE_W))
     (kbind (kgets etext) (\<lambda>e.
     kthen (kvmmap kpgtbl KERNBASE KERNBASE (e - KERNBASE) (PTE_R OR PTE_X))
     (kthen (kvmmap kpgtbl e e (PHYSTOP - e) (PTE_R OR PTE_W))
     (kbind (kgets trampoline) (\<lambda>t.
     kthen (kvmmap kpgtbl TRAMPOLINE t PGSIZE (PTE_R OR PTE_X))
     (kthen (proc_mapstacks kpgtbl)
     (kret kpgtbl)))))))))))"

section \<open>User page tables\<close>

definition uvmcreate :: "u64 kernel" where
  "uvmcreate =
     kbind kalloc (\<lambda>pagetable.
     if pagetable = 0 then kret 0
     else kthen (memset_page pagetable 0) (kret pagetable))"

text \<open>The values of \<open>a\<close> in for (a = start; a < stop; a += PGSIZE).\<close>

definition page_steps :: "u64 \<Rightarrow> u64 \<Rightarrow> u64 list" where
  "page_steps start stop =
     (if start < stop then page_range start ((unat stop - unat start + 4095) div 4096) else [])"

definition uvmunmap_page :: "u64 \<Rightarrow> bool \<Rightarrow> u64 \<Rightarrow> unit kernel" where
  "uvmunmap_page pagetable do_free a =
     kbind (walk pagetable a False) (\<lambda>pte.
     if pte = 0 then kret ()
     else kbind (load_pte pte) (\<lambda>e.
       if e AND PTE_V = 0 then kret ()
       else kthen (kwhen do_free (kfree (PTE2PA e))) (store_pte pte 0)))"

definition uvmunmap :: "u64 \<Rightarrow> u64 \<Rightarrow> u64 \<Rightarrow> bool \<Rightarrow> unit kernel" where
  "uvmunmap pagetable va npages do_free =
     (if va mod PGSIZE \<noteq> 0 then kpanic ''uvmunmap: not aligned''
      else kfor (page_steps va (va + npages * PGSIZE)) (uvmunmap_page pagetable do_free))"

text \<open>npages is a C int: 32 bits, sign-extended when passed on.\<close>

definition uvmdealloc :: "u64 \<Rightarrow> u64 \<Rightarrow> u64 \<Rightarrow> u64 kernel" where
  "uvmdealloc pagetable oldsz newsz =
     (if newsz \<ge> oldsz then kret oldsz
      else kthen (kwhen (PGROUNDUP newsz < PGROUNDUP oldsz)
             (uvmunmap pagetable (PGROUNDUP newsz)
                (scast (ucast ((PGROUNDUP oldsz - PGROUNDUP newsz) div PGSIZE) :: u32)) True))
           (kret newsz))"

fun uvmalloc_loop :: "u64 list \<Rightarrow> u64 \<Rightarrow> u64 \<Rightarrow> u64 \<Rightarrow> u64 \<Rightarrow> u64 kernel" where
  "uvmalloc_loop [] pagetable oldsz newsz xperm = kret newsz"
| "uvmalloc_loop (a # as) pagetable oldsz newsz xperm =
     kbind kalloc (\<lambda>page.
     if page = 0 then kthen (uvmdealloc pagetable a oldsz) (kret 0)
     else kthen (memset_page page 0)
       (kbind (mappages pagetable a PGSIZE page (PTE_R OR PTE_U OR xperm)) (\<lambda>r.
        if r \<noteq> 0
        then kthen (kfree page) (kthen (uvmdealloc pagetable a oldsz) (kret 0))
        else uvmalloc_loop as pagetable oldsz newsz xperm)))"

definition uvmalloc :: "u64 \<Rightarrow> u64 \<Rightarrow> u64 \<Rightarrow> u64 \<Rightarrow> u64 kernel" where
  "uvmalloc pagetable oldsz newsz xperm =
     (if newsz < oldsz then kret oldsz
      else uvmalloc_loop (page_steps (PGROUNDUP oldsz) newsz) pagetable (PGROUNDUP oldsz) newsz xperm)"

text \<open>
  freewalk recurses through the table; the first argument bounds the depth. A table built by
  walk has three levels, so freewalk starts with 3.
\<close>

fun freewalk_depth :: "nat \<Rightarrow> u64 \<Rightarrow> unit kernel" where
  "freewalk_depth 0 pagetable = kpanic ''freewalk: deeper than Sv39''"
| "freewalk_depth (Suc d) pagetable =
     kthen (kfor [0..<512] (\<lambda>i.
       kbind (load_pte (pagetable + of_nat (8 * i))) (\<lambda>pte.
       if pte AND PTE_V \<noteq> 0 \<and> pte AND (PTE_R OR PTE_W OR PTE_X) = 0
       then kthen (freewalk_depth d (PTE2PA pte)) (store_pte (pagetable + of_nat (8 * i)) 0)
       else if pte AND PTE_V \<noteq> 0 then kpanic ''freewalk: leaf''
       else kret ())))
     (kfree pagetable)"

definition freewalk :: "u64 \<Rightarrow> unit kernel" where
  "freewalk pagetable = freewalk_depth 3 pagetable"

definition uvmfree :: "u64 \<Rightarrow> u64 \<Rightarrow> unit kernel" where
  "uvmfree pagetable sz =
     kthen (kwhen (sz > 0) (uvmunmap pagetable 0 (PGROUNDUP sz div PGSIZE) True))
     (freewalk pagetable)"

text \<open>The loop of uvmcopy; the error exit unmaps what the child has received so far.\<close>

fun uvmcopy_loop :: "u64 list \<Rightarrow> u64 \<Rightarrow> u64 \<Rightarrow> int kernel" where
  "uvmcopy_loop [] old new = kret 0"
| "uvmcopy_loop (i # is) old new =
     kbind (walk old i False) (\<lambda>pte.
     if pte = 0 then uvmcopy_loop is old new
     else kbind (load_pte pte) (\<lambda>e.
       if e AND PTE_V = 0 then uvmcopy_loop is old new
       else kbind kalloc (\<lambda>page.
         if page = 0 then kthen (uvmunmap new 0 (i div PGSIZE) True) (kret (- 1))
         else kthen (kmodify (\<lambda>s. s\<lparr>mem := memmove (mem s) page (PTE2PA e) 4096\<rparr>))
           (kbind (mappages new i PGSIZE page (PTE_FLAGS e)) (\<lambda>r.
            if r \<noteq> 0
            then kthen (kfree page) (kthen (uvmunmap new 0 (i div PGSIZE) True) (kret (- 1)))
            else uvmcopy_loop is old new)))))"

definition uvmcopy :: "u64 \<Rightarrow> u64 \<Rightarrow> u64 \<Rightarrow> int kernel" where
  "uvmcopy old new sz = uvmcopy_loop (page_steps 0 sz) old new"

definition uvmclear :: "u64 \<Rightarrow> u64 \<Rightarrow> unit kernel" where
  "uvmclear pagetable va =
     kbind (walk pagetable va False) (\<lambda>pte.
     if pte = 0 then kpanic ''uvmclear''
     else kbind (load_pte pte) (\<lambda>e. store_pte pte (e AND NOT PTE_U)))"

section \<open>Page faults and copying\<close>

definition ismapped :: "u64 \<Rightarrow> u64 \<Rightarrow> bool kernel" where
  "ismapped pagetable va =
     kbind (walk pagetable va False) (\<lambda>pte.
     if pte = 0 then kret False
     else kbind (load_pte pte) (\<lambda>e. kret (e AND PTE_V \<noteq> 0)))"

definition vmfault :: "u64 \<Rightarrow> u64 \<Rightarrow> u64 \<Rightarrow> u64 kernel" where
  "vmfault pagetable psz va0 =
     (if va0 \<ge> psz then kret 0
      else (let va = PGROUNDDOWN va0 in
        kbind (ismapped pagetable va) (\<lambda>mapped.
        if mapped then kret 0
        else kbind kalloc (\<lambda>page.
          if page = 0 then kret 0
          else kthen (memset_page page 0)
            (kbind (mappages pagetable va PGSIZE page (PTE_W OR PTE_U OR PTE_R)) (\<lambda>r.
             if r \<noteq> 0 then kthen (kfree page) (kret 0) else kret page))))))"

text \<open>How many bytes of the page of \<open>va\<close> follow \<open>va\<close>, \<open>va\<close> included.\<close>

definition to_page_end :: "u64 \<Rightarrow> nat" where
  "to_page_end va = unat (PGSIZE - (va - PGROUNDDOWN va))"

lemma unat_page_offset: "unat (a - PGROUNDDOWN a) = unat a mod 4096"
proof -
  have "PGROUNDDOWN a \<le> a"
    by (simp add: word_le_nat_alt unat_PGROUNDDOWN)
  then show ?thesis
    by (simp add: unat_sub unat_PGROUNDDOWN minus_div_mult_eq_mod)
qed

lemma to_page_end_eq: "to_page_end va = 4096 - unat va mod 4096"
proof -
  have "va - PGROUNDDOWN va \<le> PGSIZE"
    by (simp add: word_le_nat_alt unat_page_offset)
  then show ?thesis
    by (simp add: to_page_end_def unat_sub unat_page_offset)
qed

lemma to_page_end_pos [simp]: "0 < to_page_end va"
  by (simp add: to_page_end_eq)

text \<open>
  copyout: \<open>src\<close> is the list of bytes still to be copied. The source returns 0 or -1.
\<close>

function copyout :: "u64 \<Rightarrow> u64 \<Rightarrow> u64 \<Rightarrow> u8 list \<Rightarrow> int kernel" where
  "copyout pagetable psz dstva src =
     (if src = [] then kret 0
      else (let va0 = PGROUNDDOWN dstva; n = min (to_page_end dstva) (length src) in
        if va0 \<ge> MAXVA then kret (- 1)
        else kbind (walkaddr pagetable va0) (\<lambda>pa.
          kbind (if pa = 0 then vmfault pagetable psz va0 else kret pa) (\<lambda>pa0.
          if pa0 = 0 then kret (- 1)
          else kbind (walk pagetable va0 False) (\<lambda>pte.
            kbind (load_pte pte) (\<lambda>e.
            if e AND PTE_W = 0 then kret (- 1)
            else kthen (kmodify (\<lambda>s. s\<lparr>mem := mem_write (mem s) (pa0 + (dstva - va0)) (take n src)\<rparr>))
                 (copyout pagetable psz (va0 + PGSIZE) (drop n src))))))))"
  by pat_completeness auto
termination
  by (relation "measure (\<lambda>(pt, psz, dst, src). length src)") auto

declare copyout.simps [simp del]

text \<open>
  copyin and copyinstr return the code's result together with the bytes they stored through
  \<open>dst\<close>, which on an error are the bytes copied before it.
\<close>

function copyin :: "u64 \<Rightarrow> u64 \<Rightarrow> u64 \<Rightarrow> nat \<Rightarrow> (int \<times> u8 list) kernel" where
  "copyin pagetable psz srcva len =
     (if len = 0 then kret (0, [])
      else (let va0 = PGROUNDDOWN srcva; n = min (to_page_end srcva) len in
        kbind (walkaddr pagetable va0) (\<lambda>pa.
        kbind (if pa = 0 then vmfault pagetable psz va0 else kret pa) (\<lambda>pa0.
        if pa0 = 0 then kret (- 1, [])
        else kbind (kgets (\<lambda>s. mem_read (mem s) (pa0 + (srcva - va0)) n)) (\<lambda>bs.
             kbind (copyin pagetable psz (va0 + PGSIZE) (len - n)) (\<lambda>(r, bs').
             kret (r, bs @ bs')))))))"
  by pat_completeness auto
termination
  by (relation "measure (\<lambda>(pt, psz, src, len). len)") auto

declare copyin.simps [simp del]

text \<open>The inner loop of copyinstr: copy up to a NUL; true when the NUL was found.\<close>

fun copy_until_nul :: "u8 list \<Rightarrow> bool \<times> u8 list" where
  "copy_until_nul [] = (False, [])"
| "copy_until_nul (c # cs) =
     (if c = 0 then (True, [0])
      else (let (found, out) = copy_until_nul cs in (found, c # out)))"

function copyinstr :: "u64 \<Rightarrow> u64 \<Rightarrow> u64 \<Rightarrow> nat \<Rightarrow> (int \<times> u8 list) kernel" where
  "copyinstr pagetable psz srcva mx =
     (if mx = 0 then kret (- 1, [])
      else (let va0 = PGROUNDDOWN srcva; n = min (to_page_end srcva) mx in
        kbind (walkaddr pagetable va0) (\<lambda>pa.
        kbind (if pa = 0 then vmfault pagetable psz va0 else kret pa) (\<lambda>pa0.
        if pa0 = 0 then kret (- 1, [])
        else kbind (kgets (\<lambda>s. copy_until_nul (mem_read (mem s) (pa0 + (srcva - va0)) n)))
          (\<lambda>(got_null, bs).
           if got_null then kret (0, bs)
           else kbind (copyinstr pagetable psz (va0 + PGSIZE) (mx - n)) (\<lambda>(r, bs').
                kret (r, bs @ bs')))))))"
  by pat_completeness auto
termination
  by (relation "measure (\<lambda>(pt, psz, src, mx). mx)") auto

declare copyinstr.simps [simp del]

end
