(* ===== verification/Xv6_Asm.thy ===== *)
theory Xv6_Asm
  imports Xv6_Vm
begin

text \<open>
  The assembly of the kernel (entry.S, swtch.S, kernelvec.S, trampoline.S) and the machine-mode code
  of start.c, on the registers of one hart. Address translation is the parameter \<open>mmu\<close>: the physical
  address of a virtual address under a value of satp.
\<close>

unbundle bit_operations_syntax

section \<open>A hart\<close>

datatype reg = RA | SP | GP | TP | T0 | T1 | T2 | S0 | S1 | A0 | A1 | A2 | A3 | A4 | A5 | A6 | A7
  | S2 | S3 | S4 | S5 | S6 | S7 | S8 | S9 | S10 | S11 | T3 | T4 | T5 | T6

datatype csreg = SSCRATCH | SATP | SEPC | SSTATUS | SIE | STIMECMP | MHARTID | MSTATUS | MEPC | MEDELEG | MIDELEG
  | PMPADDR0 | PMPCFG0 | MENVCFG | MCOUNTEREN | TIME

datatype priv = Machine | Supervisor | Usermode

record hart =
  regs :: "reg \<Rightarrow> u64"
  csrf :: "csreg \<Rightarrow> u64"
  phys :: memory
  pc :: u64
  priv :: priv

type_synonym mmu = "u64 \<Rightarrow> u64 \<Rightarrow> u64"

text \<open>
  The instructions the files use. The symbol of \<open>La\<close> and \<open>Call\<close> is an address, and \<open>Call\<close> and \<open>Jalr\<close> also
  carry the address of the instruction after them, which they leave in ra.
\<close>

datatype instr =
    Sd reg nat reg | Ld reg nat reg | Addi reg reg int | Add reg reg reg | Mul reg reg reg
  | Li reg u64 | La reg u64 | Csrr reg csreg | Csrw csreg reg | Sfence_vma | Fence_i
  | Call u64 u64 | Jalr reg u64 | Ret | Sret

definition set_reg :: "reg \<Rightarrow> u64 \<Rightarrow> hart \<Rightarrow> hart" where
  "set_reg r v h = h\<lparr>regs := (regs h)(r := v)\<rparr>"

definition csrw :: "csreg \<Rightarrow> u64 \<Rightarrow> hart \<Rightarrow> hart" where
  "csrw c v h = h\<lparr>csrf := (csrf h)(c := v)\<rparr>"

definition addr_of :: "mmu \<Rightarrow> hart \<Rightarrow> reg \<Rightarrow> nat \<Rightarrow> u64" where
  "addr_of mmu h b off = mmu (csrf h SATP) (regs h b + of_nat off)"

fun exec :: "mmu \<Rightarrow> instr \<Rightarrow> hart \<Rightarrow> hart" where
  "exec mmu (Sd r off b) h = h\<lparr>phys := store64 (phys h) (addr_of mmu h b off) (regs h r)\<rparr>"
| "exec mmu (Ld r off b) h = set_reg r (load64 (phys h) (addr_of mmu h b off)) h"
| "exec mmu (Addi r a i) h = set_reg r (regs h a + word_of_int i) h"
| "exec mmu (Add r a b) h = set_reg r (regs h a + regs h b) h"
| "exec mmu (Mul r a b) h = set_reg r (regs h a * regs h b) h"
| "exec mmu (Li r v) h = set_reg r v h"
| "exec mmu (La r a) h = set_reg r a h"
| "exec mmu (Csrr r c) h = set_reg r (csrf h c) h"
| "exec mmu (Csrw c r) h = csrw c (regs h r) h"
| "exec mmu Sfence_vma h = h"
| "exec mmu Fence_i h = h"
| "exec mmu (Call f next) h = (set_reg RA next h)\<lparr>pc := f\<rparr>"
| "exec mmu (Jalr r next) h = (set_reg RA next h)\<lparr>pc := regs h r\<rparr>"
| "exec mmu Ret h = h\<lparr>pc := regs h RA\<rparr>"
| "exec mmu Sret h = h\<lparr>pc := csrf h SEPC, priv := (if csrf h SSTATUS AND push_bit 8 1 = 0 then Usermode else Supervisor)\<rparr>"

definition run_code :: "mmu \<Rightarrow> instr list \<Rightarrow> hart \<Rightarrow> hart" where
  "run_code mmu code h = fold (exec mmu) code h"

section \<open>entry.S\<close>

text \<open>\<open>stack0\<close> and \<open>start\<close> are addresses the linker fixes; \<open>spin\<close> is the label after the call.\<close>

definition kernel_entry :: "u64 \<Rightarrow> u64 \<Rightarrow> u64 \<Rightarrow> instr list" where
  "kernel_entry stack0 start spin =
    [La SP stack0, Li A0 (1024 * 4), Csrr A1 MHARTID, Addi A1 A1 1, Mul A0 A0 A1, Add SP SP A0,
     Call start spin]"

section \<open>start.c\<close>

text \<open>mret returns to the mode saved in MPP, at mepc.\<close>

definition mret :: "hart \<Rightarrow> hart" where
  "mret h = h\<lparr>pc := csrf h MEPC,
     priv := (if (drop_bit 11 (csrf h MSTATUS)) AND 3 = 3 then Machine
              else if (drop_bit 11 (csrf h MSTATUS)) AND 3 = 1 then Supervisor else Usermode)\<rparr>"

definition timerinit :: "hart \<Rightarrow> hart" where
  "timerinit h =
     (let h = csrw MENVCFG (csrf h MENVCFG OR push_bit 63 1) h;
          h = csrw MCOUNTEREN (csrf h MCOUNTEREN OR 2) h
      in csrw STIMECMP (csrf h TIME + 1000000) h)"

definition start :: "u64 \<Rightarrow> hart \<Rightarrow> hart" where
  "start main h =
     (let x = csrf h MSTATUS;
          x = x AND NOT (push_bit 11 3);
          x = x OR push_bit 11 1;
          h = csrw MSTATUS x h;
          h = csrw MEPC main h;
          h = csrw SATP 0 h;
          h = csrw MEDELEG 0xffff h;
          h = csrw MIDELEG 0xffff h;
          h = csrw SIE (csrf h SIE OR push_bit 9 1 OR push_bit 5 1) h;
          h = csrw PMPADDR0 0x3fffffffffffff h;
          h = csrw PMPCFG0 0xf h;
          h = csrw MENVCFG (csrf h MENVCFG OR push_bit 61 1) h;
          h = timerinit h;
          id = scast (ucast (csrf h MHARTID) :: 32 word) :: u64;
          h = set_reg TP id h
      in mret h)"

section \<open>swtch.S\<close>

definition swtch :: "instr list" where
  "swtch =
    [Sd RA 0 A0, Sd SP 8 A0, Sd S0 16 A0, Sd S1 24 A0, Sd S2 32 A0, Sd S3 40 A0, Sd S4 48 A0,
     Sd S5 56 A0, Sd S6 64 A0, Sd S7 72 A0, Sd S8 80 A0, Sd S9 88 A0, Sd S10 96 A0, Sd S11 104 A0,

     Ld RA 0 A1, Ld SP 8 A1, Ld S0 16 A1, Ld S1 24 A1, Ld S2 32 A1, Ld S3 40 A1, Ld S4 48 A1,
     Ld S5 56 A1, Ld S6 64 A1, Ld S7 72 A1, Ld S8 80 A1, Ld S9 88 A1, Ld S10 96 A1, Ld S11 104 A1,

     Ret]"

section \<open>kernelvec.S\<close>

text \<open>The code before and after the call of kerneltrap.\<close>

definition kernelvec :: "u64 \<Rightarrow> u64 \<Rightarrow> instr list" where
  "kernelvec kerneltrap next =
    [Addi SP SP (- 256),
     Sd RA 0 SP, Sd GP 16 SP, Sd T0 32 SP, Sd T1 40 SP, Sd T2 48 SP, Sd A0 72 SP, Sd A1 80 SP,
     Sd A2 88 SP, Sd A3 96 SP, Sd A4 104 SP, Sd A5 112 SP, Sd A6 120 SP, Sd A7 128 SP, Sd T3 216 SP,
     Sd T4 224 SP, Sd T5 232 SP, Sd T6 240 SP,
     Call kerneltrap next]"

definition kernelvec_return :: "instr list" where
  "kernelvec_return =
    [Ld RA 0 SP, Ld GP 16 SP, Ld T0 32 SP, Ld T1 40 SP, Ld T2 48 SP, Ld A0 72 SP, Ld A1 80 SP,
     Ld A2 88 SP, Ld A3 96 SP, Ld A4 104 SP, Ld A5 112 SP, Ld A6 120 SP, Ld A7 128 SP, Ld T3 216 SP,
     Ld T4 224 SP, Ld T5 232 SP, Ld T6 240 SP,
     Addi SP SP 256, Sret]"

section \<open>trampoline.S\<close>

definition uservec :: "u64 \<Rightarrow> instr list" where
  "uservec userret =
    [Csrw SSCRATCH A0, Li A0 TRAPFRAME,
     Sd RA 40 A0, Sd SP 48 A0, Sd GP 56 A0, Sd TP 64 A0, Sd T0 72 A0, Sd T1 80 A0, Sd T2 88 A0,
     Sd S0 96 A0, Sd S1 104 A0, Sd A1 120 A0, Sd A2 128 A0, Sd A3 136 A0, Sd A4 144 A0, Sd A5 152 A0,
     Sd A6 160 A0, Sd A7 168 A0, Sd S2 176 A0, Sd S3 184 A0, Sd S4 192 A0, Sd S5 200 A0, Sd S6 208 A0,
     Sd S7 216 A0, Sd S8 224 A0, Sd S9 232 A0, Sd S10 240 A0, Sd S11 248 A0, Sd T3 256 A0,
     Sd T4 264 A0, Sd T5 272 A0, Sd T6 280 A0,
     Csrr T0 SSCRATCH, Sd T0 112 A0,
     Ld SP 8 A0, Ld TP 32 A0, Ld T0 16 A0, Ld T1 0 A0,
     Sfence_vma, Csrw SATP T1, Sfence_vma,
     Jalr T0 userret]"

definition userret :: "instr list" where
  "userret =
    [Fence_i, Sfence_vma, Csrw SATP A0, Sfence_vma,
     Li A0 TRAPFRAME,
     Ld RA 40 A0, Ld SP 48 A0, Ld GP 56 A0, Ld TP 64 A0, Ld T0 72 A0, Ld T1 80 A0, Ld T2 88 A0,
     Ld S0 96 A0, Ld S1 104 A0, Ld A1 120 A0, Ld A2 128 A0, Ld A3 136 A0, Ld A4 144 A0, Ld A5 152 A0,
     Ld A6 160 A0, Ld A7 168 A0, Ld S2 176 A0, Ld S3 184 A0, Ld S4 192 A0, Ld S5 200 A0, Ld S6 208 A0,
     Ld S7 216 A0, Ld S8 224 A0, Ld S9 232 A0, Ld S10 240 A0, Ld S11 248 A0, Ld T3 256 A0,
     Ld T4 264 A0, Ld T5 272 A0, Ld T6 280 A0,
     Ld A0 112 A0,
     Sret]"

section \<open>Saving and restoring registers\<close>

lemma run_code_simps [simp]:
  "run_code mmu [] h = h" "run_code mmu (i # is) h = run_code mmu is (exec mmu i h)"
  "run_code mmu (is @ js) h = run_code mmu js (run_code mmu is h)"
  by (simp_all add: run_code_def)

text \<open>A table gives the offset of each register it saves.\<close>

definition sds :: "reg \<Rightarrow> (reg \<times> nat) list \<Rightarrow> instr list" where
  "sds b tab = map (\<lambda>(r, off). Sd r off b) tab"

definition lds :: "reg \<Rightarrow> (reg \<times> nat) list \<Rightarrow> instr list" where
  "lds b tab = map (\<lambda>(r, off). Ld r off b) tab"

definition slots_ok :: "(reg \<times> nat) list \<Rightarrow> bool" where
  "slots_ok tab \<longleftrightarrow> distinct (map snd tab) \<and> (\<forall>off\<in>snd ` set tab. off mod 8 = 0 \<and> off \<le> 4088)"

definition save_all :: "(reg \<Rightarrow> u64) \<Rightarrow> u64 \<Rightarrow> (reg \<times> nat) list \<Rightarrow> memory \<Rightarrow> memory" where
  "save_all rg p tab m = fold (\<lambda>(r, off) m. store64 m (p + of_nat off) (rg r)) tab m"

text \<open>\<open>b\<close> holds the address of \<open>n\<close> bytes that the MMU maps to \<open>p\<close>.\<close>

definition points :: "mmu \<Rightarrow> hart \<Rightarrow> reg \<Rightarrow> u64 \<Rightarrow> nat \<Rightarrow> bool" where
  "points mmu h b p n \<longleftrightarrow> (\<forall>off. off + 8 \<le> n \<longrightarrow> addr_of mmu h b off = p + of_nat off)"

lemma run_sds:
  "points mmu h b p n \<Longrightarrow> \<forall>off\<in>snd ` set tab. off + 8 \<le> n \<Longrightarrow> run_code mmu (sds b tab) h = h\<lparr>phys := save_all (regs h) p tab (phys h)\<rparr>"
proof (induction tab arbitrary: h)
  case (Cons x tab)
  obtain r off where x: "x = (r, off)" by (cases x)
  have a: "addr_of mmu h b off = p + of_nat off" using Cons.prems by (simp add: x points_def)
  let ?h = "h\<lparr>phys := store64 (phys h) (p + of_nat off) (regs h r)\<rparr>"
  have "points mmu ?h b p n" using Cons.prems(1) by (simp add: points_def addr_of_def)
  then show ?case using Cons.IH [of ?h] Cons.prems(2) by (simp add: x a sds_def save_all_def)
qed (simp add: sds_def save_all_def)

lemma run_lds:
  assumes "points mmu h b p n" "\<forall>off\<in>snd ` set tab. off + 8 \<le> n" "distinct (map fst tab)" "b \<notin> fst ` set tab"
  shows "run_code mmu (lds b tab) h =
    h\<lparr>regs := (\<lambda>r. case map_of tab r of Some off \<Rightarrow> load64 (phys h) (p + of_nat off) | None \<Rightarrow> regs h r)\<rparr>"
  using assms
proof (induction tab arbitrary: h)
  case (Cons x tab)
  obtain r off where x: "x = (r, off)" by (cases x)
  have a: "addr_of mmu h b off = p + of_nat off" using Cons.prems by (simp add: x points_def)
  let ?h = "set_reg r (load64 (phys h) (p + of_nat off)) h"
  have "points mmu ?h b p n" using Cons.prems(1,4) by (simp add: x points_def addr_of_def set_reg_def)
  then have "run_code mmu (lds b tab) ?h =
    ?h\<lparr>regs := (\<lambda>r. case map_of tab r of Some off \<Rightarrow> load64 (phys ?h) (p + of_nat off) | None \<Rightarrow> regs ?h r)\<rparr>"
    using Cons.prems by (intro Cons.IH) auto
  moreover have "map_of tab r = None" using Cons.prems(3) by (auto simp: x map_of_eq_None_iff)
  ultimately show ?case by (auto simp: x a lds_def set_reg_def fun_eq_iff split: option.split)
qed (simp add: lds_def)

lemma of_nat_u64_eq: "(of_nat a :: u64) = of_nat b \<Longrightarrow> a < 2 ^ 64 \<Longrightarrow> b < 2 ^ 64 \<Longrightarrow> a = b"
  by (metis unat_of_nat_u64)

lemma store64_apart:
  assumes "i + 8 \<le> j \<or> j + 8 \<le> i" "i \<le> 4088" "j \<le> 4088"
  shows "load64 (store64 m (p + of_nat i) v) (p + of_nat j) = load64 m (p + of_nat j)"
proof -
  have "p + of_nat j + of_nat k \<noteq> p + of_nat i + of_nat l" if "k < 8" "l < 8" for k l
  proof
    assume "p + of_nat j + of_nat k = p + of_nat i + of_nat l"
    then have "(of_nat (j + k) :: u64) = of_nat (i + l)" by (simp add: add.assoc)
    then have "j + k = i + l" by (rule of_nat_u64_eq) (use that assms in auto)
    then show False using that assms by auto
  qed
  then have "disjoint_ranges (p + of_nat j) 8 (p + of_nat i) 8" by (auto simp: disjoint_ranges_def)
  then show ?thesis by (simp add: load64_def store64_def mem_read_write_other)
qed

lemma slots_apart: "off mod 8 = 0 \<Longrightarrow> off' mod 8 = 0 \<Longrightarrow> off \<noteq> off' \<Longrightarrow> off + 8 \<le> off' \<or> off' + 8 \<le> (off :: nat)"
  by presburger

lemma save_all_other:
  assumes "slots_ok tab" "off \<notin> snd ` set tab" "off mod 8 = 0" "off \<le> 4088"
  shows "load64 (save_all rg p tab m) (p + of_nat off) = load64 m (p + of_nat off)"
  using assms
proof (induction tab arbitrary: m)
  case (Cons x tab)
  obtain r o1 where x: "x = (r, o1)" by (cases x)
  have "load64 (save_all rg p tab (store64 m (p + of_nat o1) (rg r))) (p + of_nat off) =
      load64 (store64 m (p + of_nat o1) (rg r)) (p + of_nat off)"
    using Cons.prems by (intro Cons.IH) (auto simp: slots_ok_def)
  also have "\<dots> = load64 m (p + of_nat off)"
    using Cons.prems by (intro store64_apart slots_apart) (auto simp: x slots_ok_def)
  finally show ?case by (simp add: x save_all_def)
qed (simp add: save_all_def)

lemma save_all_slot:
  assumes "slots_ok tab" "(r, off) \<in> set tab"
  shows "load64 (save_all rg p tab m) (p + of_nat off) = rg r"
  using assms
proof (induction tab arbitrary: m)
  case (Cons x tab)
  obtain r1 o1 where x: "x = (r1, o1)" by (cases x)
  have ok: "slots_ok tab" using Cons.prems(1) by (simp add: slots_ok_def)
  show ?case
  proof (cases "(r, off) \<in> set tab")
    case True then show ?thesis using Cons.IH [OF ok True] by (simp add: x save_all_def)
  next
    case False
    then have e: "r1 = r" "o1 = off" using Cons.prems(2) x by auto
    have "load64 (save_all rg p tab (store64 m (p + of_nat off) (rg r))) (p + of_nat off) = rg r"
      using save_all_other [OF ok, of off] Cons.prems(1) by (auto simp: x e slots_ok_def)
    then show ?thesis by (simp add: x e save_all_def)
  qed
qed simp

lemma save_all_outside:
  assumes "\<forall>off\<in>snd ` set tab. lo \<le> off \<and> off + 8 \<le> hi" "hi \<le> 4096" "\<not> (lo \<le> unat (x - p) \<and> unat (x - p) < hi)"
  shows "save_all rg p tab m x = m x"
  using assms
proof (induction tab arbitrary: m)
  case (Cons y tab)
  obtain r o1 where y: "y = (r, o1)" by (cases y)
  have o1: "lo \<le> o1" "o1 + 8 \<le> hi" using Cons.prems(1) y by auto
  have "\<not> unat (x - (p + of_nat o1)) < 8"
  proof
    assume a: "unat (x - (p + of_nat o1)) < 8"
    have "of_nat (unat (x - p)) = (of_nat (o1 + unat (x - (p + of_nat o1))) :: u64)" by simp
    then have "unat (x - p) = o1 + unat (x - (p + of_nat o1))"
      by (rule of_nat_u64_eq) (use a o1 assms(2) unsigned_less [of "x - p"] in auto)
    then show False using a o1 Cons.prems(3) by auto
  qed
  then have "store64 m (p + of_nat o1) (rg r) x = m x" by (simp add: store64_def mem_write_def)
  moreover have "save_all rg p tab (store64 m (p + of_nat o1) (rg r)) x = store64 m (p + of_nat o1) (rg r) x"
    using Cons.prems by (intro Cons.IH) auto
  ultimately show ?case by (simp add: y save_all_def)
qed (simp add: save_all_def)

section \<open>Traps from user space\<close>

text \<open>The offsets of the user registers in struct trapframe (proc.h); a0 is saved last.\<close>

definition frame_regs :: "(reg \<times> nat) list" where
  "frame_regs = [(RA, 40), (SP, 48), (GP, 56), (TP, 64), (T0, 72), (T1, 80), (T2, 88), (S0, 96), (S1, 104),
     (A1, 120), (A2, 128), (A3, 136), (A4, 144), (A5, 152), (A6, 160), (A7, 168), (S2, 176), (S3, 184),
     (S4, 192), (S5, 200), (S6, 208), (S7, 216), (S8, 224), (S9, 232), (S10, 240), (S11, 248), (T3, 256),
     (T4, 264), (T5, 272), (T6, 280)]"

definition frame_off :: "reg \<Rightarrow> nat" where
  "frame_off r = (case map_of frame_regs r of Some off \<Rightarrow> off | None \<Rightarrow> 112)"

text \<open>The trap frame of the page at \<open>p\<close>, as the C code sees it.\<close>

definition trapframe_at :: "memory \<Rightarrow> u64 \<Rightarrow> trapframe" where
  "trapframe_at m p = \<lparr>kernel_satp = load64 m p, kernel_sp = load64 m (p + 8), kernel_trap = load64 m (p + 16),
     tf_epc = load64 m (p + 24), kernel_hartid = load64 m (p + 32), tf_ra = load64 m (p + 40), tf_sp = load64 m (p + 48),
     tf_a0 = load64 m (p + 112), tf_a1 = load64 m (p + 120), tf_a2 = load64 m (p + 128), tf_a3 = load64 m (p + 136),
     tf_a4 = load64 m (p + 144), tf_a5 = load64 m (p + 152), tf_a6 = load64 m (p + 160), tf_a7 = load64 m (p + 168),
     tf_rest = map (\<lambda>off. load64 m (p + of_nat off))
       [56, 64, 72, 80, 88, 96, 104, 176, 184, 192, 200, 208, 216, 224, 232, 240, 248, 256, 264, 272, 280]\<rparr>"

definition frame_all :: "(reg \<times> nat) list" where
  "frame_all = frame_regs @ [(A0, 112)]"

lemma uservec_saves: "uservec ur = [Csrw SSCRATCH A0, Li A0 TRAPFRAME] @ sds A0 frame_regs @
    [Csrr T0 SSCRATCH, Sd T0 112 A0, Ld SP 8 A0, Ld TP 32 A0, Ld T0 16 A0, Ld T1 0 A0,
     Sfence_vma, Csrw SATP T1, Sfence_vma, Jalr T0 ur]"
  by (simp add: uservec_def sds_def frame_regs_def)

lemma userret_loads: "userret = [Fence_i, Sfence_vma, Csrw SATP A0, Sfence_vma, Li A0 TRAPFRAME] @ lds A0 frame_regs @ [Ld A0 112 A0, Sret]"
  by (simp add: userret_def lds_def frame_regs_def)

lemma frame_regs_ok: "slots_ok frame_regs" "slots_ok frame_all" "distinct (map fst frame_regs)" "A0 \<notin> fst ` set frame_regs"
  "\<forall>off\<in>snd ` set frame_regs. off + 8 \<le> 288" "\<forall>off\<in>snd ` set frame_all. 40 \<le> off \<and> off + 8 \<le> 288"
  by (simp_all add: slots_ok_def frame_all_def frame_regs_def)

lemma frame_off: "(r, frame_off r) \<in> set frame_all" "map_of frame_regs r = (if r = A0 then None else Some (frame_off r))"
  by (cases r; simp add: frame_off_def frame_all_def frame_regs_def)+

lemma save_all_cong: "(\<And>r. r \<in> fst ` set tab \<Longrightarrow> rg r = rg' r) \<Longrightarrow> save_all rg p tab m = save_all rg' p tab m"
  unfolding save_all_def by (induction tab arbitrary: m) auto

lemma save_all_frame:
  "store64 (save_all ((regs h)(A0 := v)) p frame_regs m) (p + 112) (regs h A0) = save_all (regs h) p frame_all m"
proof -
  have "save_all ((regs h)(A0 := v)) p frame_regs m = save_all (regs h) p frame_regs m"
    by (rule save_all_cong) (use frame_regs_ok(4) in \<open>auto simp: image_iff\<close>)
  then show ?thesis by (simp add: frame_all_def save_all_def)
qed

text \<open>The value \<open>sp\<close> of satp maps the page TRAPFRAME to \<open>p\<close>.\<close>

definition maps_frame :: "mmu \<Rightarrow> u64 \<Rightarrow> u64 \<Rightarrow> bool" where
  "maps_frame mmu sp p \<longleftrightarrow> (\<forall>off<4096. mmu sp (TRAPFRAME + of_nat off) = p + of_nat off)"

lemma uservec_run:
  assumes f: "maps_frame mmu (csrf h SATP) p"
  shows "run_code mmu (uservec ur) h =
      h\<lparr>regs := (regs h)(A0 := TRAPFRAME, SP := load64 (phys h) (p + 8), TP := load64 (phys h) (p + 32),
          T0 := load64 (phys h) (p + 16), T1 := load64 (phys h) p, RA := ur),
        csrf := (csrf h)(SSCRATCH := regs h A0, SATP := load64 (phys h) p),
        phys := save_all (regs h) p frame_all (phys h), pc := load64 (phys h) (p + 16)\<rparr>"
proof -
  let ?h = "h\<lparr>csrf := (csrf h)(SSCRATCH := regs h A0), regs := (regs h)(A0 := TRAPFRAME)\<rparr>"
  have pts: "points mmu ?h A0 p 288" using f by (simp add: points_def addr_of_def maps_frame_def)
  have a: "addr_of mmu h' A0 off = p + of_nat off" if "csrf h' SATP = csrf h SATP" "regs h' A0 = TRAPFRAME" "off < 4096" for h' off
    using f that by (simp add: addr_of_def maps_frame_def)
  have k: "load64 (save_all (regs h) p frame_all (phys h)) (p + of_nat off) = load64 (phys h) (p + of_nat off)" if "off \<in> {0, 8, 16, 32}" for off
    using that by (intro save_all_other frame_regs_ok) (auto simp: frame_all_def frame_regs_def)
  show ?thesis
    using k [of 0] k [of 8] k [of 16] k [of 32] run_sds [OF pts frame_regs_ok(5)]
    by (simp add: uservec_saves set_reg_def csrw_def a save_all_frame)
qed

lemma userret_run:
  assumes f: "maps_frame mmu (regs h A0) p"
  shows "run_code mmu userret h =
      h\<lparr>regs := (\<lambda>r. load64 (phys h) (p + of_nat (frame_off r))), csrf := (csrf h)(SATP := regs h A0),
        pc := csrf h SEPC, priv := (if csrf h SSTATUS AND push_bit 8 1 = 0 then Usermode else Supervisor)\<rparr>"
proof -
  let ?h = "h\<lparr>csrf := (csrf h)(SATP := regs h A0), regs := (regs h)(A0 := TRAPFRAME)\<rparr>"
  have pts: "points mmu ?h A0 p 288" using f by (simp add: points_def addr_of_def maps_frame_def)
  have a: "addr_of mmu h' A0 112 = p + 112" if "csrf h' SATP = regs h A0" "regs h' A0 = TRAPFRAME" for h'
    using f [unfolded maps_frame_def, rule_format, of 112] that by (simp add: addr_of_def)
  have "frame_off A0 = 112" by (simp add: frame_off_def frame_regs_def)
  then show ?thesis
    using run_lds [OF pts frame_regs_ok(5,3,4)]
    by (simp add: userret_loads set_reg_def csrw_def a frame_off(2) fun_eq_iff)
qed

text \<open>C14: A trap is transparent to the user program. From any user state, uservec leaves every user register in
  its field of the trap frame, changes no other memory, and enters the kernel at kernel\_trap with the
  kernel's stack, hart id and page table. When the kernel later jumps to userret with the page table of
  the same process, every user register has the value its field of the trap frame has then; if the
  kernel has not changed the fields, all 31 registers are those the program had at the trap.\<close>

theorem trap_saves_and_restores_registers:
  assumes "maps_frame mmu (csrf h SATP) p" and "maps_frame mmu (regs k A0) p"
    and "\<forall>r. load64 (phys k) (p + of_nat (frame_off r)) = load64 (phys (run_code mmu (uservec ur) h)) (p + of_nat (frame_off r))"
  shows "let u = run_code mmu (uservec ur) h; f = trapframe_at (phys h) p; g = trapframe_at (phys u) p; v = run_code mmu userret k in
    pc u = kernel_trap f \<and> regs u SP = kernel_sp f \<and> regs u TP = kernel_hartid f \<and> csrf u SATP = kernel_satp f \<and> regs u RA = ur \<and>
    tf_a0 g = regs h A0 \<and> tf_a7 g = regs h A7 \<and> tf_sp g = regs h SP \<and> kernel_satp g = kernel_satp f \<and> tf_epc g = tf_epc f \<and>
    (\<forall>x. unat (x - p) < 40 \<or> 288 \<le> unat (x - p) \<longrightarrow> phys u x = phys h x) \<and>
    regs v = regs h \<and> csrf v SATP = regs k A0 \<and> pc v = csrf k SEPC \<and> phys v = phys k"
proof -
  let ?m = "save_all (regs h) p frame_all (phys h)"
  have slot: "load64 ?m (p + of_nat (frame_off r)) = regs h r" for r
    using save_all_slot [OF frame_regs_ok(2) frame_off(1)] .
  have keep: "load64 ?m (p + of_nat off) = load64 (phys h) (p + of_nat off)" if "off \<in> {0, 24}" for off
    using that by (intro save_all_other frame_regs_ok) (auto simp: frame_all_def frame_regs_def)
  have out: "?m x = phys h x" if "unat (x - p) < 40 \<or> 288 \<le> unat (x - p)" for x
    by (rule save_all_outside [OF frame_regs_ok(6)]) (use that in auto)
  have "frame_off A0 = 112" "frame_off A7 = 168" "frame_off SP = 48" by (simp_all add: frame_off_def frame_regs_def)
  then have "load64 ?m (p + 112) = regs h A0" "load64 ?m (p + 168) = regs h A7" "load64 ?m (p + 48) = regs h SP"
    using slot [of A0] slot [of A7] slot [of SP] by simp_all
  then show ?thesis
    using assms(3) keep [of 0] keep [of 24] out slot
    by (simp add: Let_def uservec_run [OF assms(1)] userret_run [OF assms(2)] trapframe_at_def)
qed

definition sample_mmu :: mmu where
  "sample_mmu st va = va - TRAPFRAME + 0x87000000"

definition sample_hart :: hart where
  "sample_hart = \<lparr>regs = (\<lambda>r. of_nat (frame_off r)), csrf = (\<lambda>_. 0), phys = (\<lambda>_. 0), pc = 0x1000, priv = Usermode\<rparr>"

lemma sample_maps_frame: "maps_frame sample_mmu st 0x87000000"
  by (simp add: maps_frame_def sample_mmu_def)

theorem trap_saves_and_restores_registers_witness:
  "regs (run_code sample_mmu userret (run_code sample_mmu (uservec 0x3ffffff09c) sample_hart)) A5 = 152"
  using trap_saves_and_restores_registers [OF sample_maps_frame sample_maps_frame,
      where h = sample_hart and ur = "0x3ffffff09c" and k = "run_code sample_mmu (uservec 0x3ffffff09c) sample_hart"]
  by (simp add: Let_def sample_hart_def frame_off_def frame_regs_def)

section \<open>Context switches\<close>

definition context_regs :: "(reg \<times> nat) list" where
  "context_regs = [(RA, 0), (SP, 8), (S0, 16), (S1, 24), (S2, 32), (S3, 40), (S4, 48), (S5, 56), (S6, 64), (S7, 72),
     (S8, 80), (S9, 88), (S10, 96), (S11, 104)]"

lemma swtch_saves: "swtch = sds A0 context_regs @ lds A1 context_regs @ [Ret]"
  by (simp add: swtch_def sds_def lds_def context_regs_def)

lemma context_regs_ok: "slots_ok context_regs" "distinct (map fst context_regs)" "A1 \<notin> fst ` set context_regs"
  "\<forall>off\<in>snd ` set context_regs. off + 8 \<le> 112" "map_of context_regs RA = Some 0"
  by (simp_all add: slots_ok_def context_regs_def)

lemma load64_cong:
  assumes "\<And>j. j < 8 \<Longrightarrow> m' (a + of_nat j) = m (a + of_nat j)"
  shows "load64 m' a = load64 m a"
proof -
  have "mem_read m' a 8 = mem_read m a 8" by (rule nth_equalityI) (simp_all add: assms at_def)
  then show ?thesis by (simp add: load64_def)
qed

text \<open>Stores to a context leave another context alone.\<close>

lemma save_context_other:
  assumes d: "disjoint_ranges new 112 old 112" and "off + 8 \<le> 112"
  shows "load64 (save_all rg old context_regs m) (new + of_nat off) = load64 m (new + of_nat off)"
proof (rule load64_cong)
  fix j :: nat assume j: "j < 8"
  have "112 \<le> unat (new + of_nat (off + j) - old)"
  proof (rule ccontr)
    assume "\<not> ?thesis"
    then have l: "unat (new + of_nat (off + j) - old) < 112" by simp
    have e: "new + of_nat (off + j) = old + of_nat (unat (new + of_nat (off + j) - old))" by simp
    have "new + of_nat (off + j) \<noteq> old + of_nat (unat (new + of_nat (off + j) - old))"
      by (rule d [unfolded disjoint_ranges_def, rule_format]) (use l j assms(2) in simp_all)
    then show False using e by simp
  qed
  then show "save_all rg old context_regs m (new + of_nat off + of_nat j) = m (new + of_nat off + of_nat j)"
    using save_all_outside [of context_regs 0 112 "new + of_nat off + of_nat j" old rg m] context_regs_ok(4)
    by (simp add: add.assoc)
qed

lemma swtch_run:
  assumes "points mmu h A0 old 112" "points mmu h A1 new 112" "disjoint_ranges new 112 old 112"
  shows "run_code mmu swtch h =
    h\<lparr>phys := save_all (regs h) old context_regs (phys h),
      regs := (\<lambda>r. case map_of context_regs r of Some off \<Rightarrow> load64 (phys h) (new + of_nat off) | None \<Rightarrow> regs h r),
      pc := load64 (phys h) new\<rparr>"
proof -
  let ?h = "h\<lparr>phys := save_all (regs h) old context_regs (phys h)\<rparr>"
  have "points mmu ?h A1 new 112" using assms(2) by (simp add: points_def addr_of_def)
  note r = run_lds [OF this context_regs_ok(4,2,3)]
  have k: "load64 (save_all (regs h) old context_regs (phys h)) (new + of_nat off) = load64 (phys h) (new + of_nat off)"
    if "map_of context_regs r = Some off" for r off
  proof (rule save_context_other [OF assms(3)])
    have "off \<in> snd ` set context_regs" using map_of_SomeD [OF that] by force
    then show "off + 8 \<le> 112" using context_regs_ok(4) by blast
  qed
  have "(\<lambda>r. case map_of context_regs r of Some off \<Rightarrow> load64 (phys ?h) (new + of_nat off) | None \<Rightarrow> regs ?h r) =
      (\<lambda>r. case map_of context_regs r of Some off \<Rightarrow> load64 (phys h) (new + of_nat off) | None \<Rightarrow> regs h r)"
    using k by (auto simp: fun_eq_iff split: option.split)
  then show ?thesis using context_regs_ok(5) by (simp add: swtch_saves run_sds [OF assms(1) context_regs_ok(4)] r)
qed

text \<open>C15: A call of swtch returns to its caller. swtch stores the callee-saved registers of the caller in the
  old context and continues with those of the new one, at its return address. When some hart later
  switches to the old context, with its 112 bytes unchanged, it continues at the caller's return
  address with the caller's stack pointer and callee-saved registers.\<close>

theorem swtch_resumes_caller:
  assumes "points mmu h A0 old 112" and "points mmu h A1 new 112" and "disjoint_ranges new 112 old 112"
    and "points mmu k A0 old' 112" and "points mmu k A1 old 112" and "disjoint_ranges old 112 old' 112"
    and "\<forall>i<112. phys k (old + of_nat i) = phys (run_code mmu swtch h) (old + of_nat i)"
    and "r \<in> {RA, SP, S0, S1, S2, S3, S4, S5, S6, S7, S8, S9, S10, S11}"
  shows "regs (run_code mmu swtch k) r = regs h r \<and> pc (run_code mmu swtch k) = regs h RA \<and>
    pc (run_code mmu swtch h) = load64 (phys h) new"
proof -
  have slot: "load64 (phys k) (old + of_nat off) = regs h q" if "(q, off) \<in> set context_regs" for q off
  proof -
    have off: "off + 8 \<le> 112" using context_regs_ok(4) that by force
    have "load64 (phys k) (old + of_nat off) = load64 (phys (run_code mmu swtch h)) (old + of_nat off)"
    proof (rule load64_cong)
      fix j :: nat assume "j < 8"
      then show "phys k (old + of_nat off + of_nat j) = phys (run_code mmu swtch h) (old + of_nat off + of_nat j)"
        using assms(7) [rule_format, of "off + j"] off by (simp add: add.assoc)
    qed
    also have "\<dots> = regs h q" using save_all_slot [OF context_regs_ok(1) that] by (simp add: swtch_run [OF assms(1-3)])
    finally show ?thesis .
  qed
  obtain off where m: "map_of context_regs r = Some off" using assms(8) by (auto simp: context_regs_def)
  have "load64 (phys k) (old + of_nat 0) = regs h RA" by (rule slot) (simp add: context_regs_def)
  then show ?thesis using slot [OF map_of_SomeD [OF m]] m by (simp add: swtch_run [OF assms(1-3)] swtch_run [OF assms(4-6)])
qed

definition flat_mmu :: mmu where
  "flat_mmu st va = va"

definition sample_caller :: hart where
  "sample_caller = sample_hart\<lparr>regs := (\<lambda>_. 0)(A0 := 0x80001000, A1 := 0x80002000, S3 := 33, SP := 0x80009000)\<rparr>"

definition sample_switched :: hart where
  "sample_switched = (run_code flat_mmu swtch sample_caller)\<lparr>regs := (\<lambda>_. 0)(A0 := 0x80003000, A1 := 0x80001000)\<rparr>"

lemma sample_contexts: "disjoint_ranges 0x80002000 112 0x80001000 112" "disjoint_ranges 0x80001000 112 0x80003000 112"
  by (rule disjoint_rangesI; simp)+

theorem swtch_resumes_caller_witness:
  "regs (run_code flat_mmu swtch sample_switched) S3 = 33"
  using swtch_resumes_caller [where mmu = flat_mmu and h = sample_caller and k = sample_switched and r = S3, OF _ _ sample_contexts(1) _ _ sample_contexts(2)]
  by (simp add: points_def addr_of_def flat_mmu_def sample_caller_def sample_switched_def)

section \<open>Traps in the kernel\<close>

definition kvec_regs :: "(reg \<times> nat) list" where
  "kvec_regs = [(RA, 0), (GP, 16), (T0, 32), (T1, 40), (T2, 48), (A0, 72), (A1, 80), (A2, 88), (A3, 96), (A4, 104),
     (A5, 112), (A6, 120), (A7, 128), (T3, 216), (T4, 224), (T5, 232), (T6, 240)]"

lemma kernelvec_saves: "kernelvec kt nx = [Addi SP SP (- 256)] @ sds SP kvec_regs @ [Call kt nx]"
  "kernelvec_return = lds SP kvec_regs @ [Addi SP SP 256, Sret]"
  by (simp_all add: kernelvec_def kernelvec_return_def sds_def lds_def kvec_regs_def)

lemma kvec_regs_ok: "slots_ok kvec_regs" "distinct (map fst kvec_regs)" "SP \<notin> fst ` set kvec_regs"
  "\<forall>off\<in>snd ` set kvec_regs. off + 8 \<le> 256" "map_of kvec_regs SP = None" "map_of kvec_regs TP = None"
  by (simp_all add: slots_ok_def kvec_regs_def)

lemma kernelvec_run:
  assumes "\<forall>off. off + 8 \<le> 256 \<longrightarrow> mmu (csrf h SATP) (regs h SP - 256 + of_nat off) = p + of_nat off"
  shows "run_code mmu (kernelvec kt nx) h =
    h\<lparr>regs := (regs h)(SP := regs h SP - 256, RA := nx), phys := save_all ((regs h)(SP := regs h SP - 256)) p kvec_regs (phys h), pc := kt\<rparr>"
proof -
  have "points mmu (set_reg SP (regs h SP - 256) h) SP p 256" using assms by (simp add: points_def addr_of_def set_reg_def)
  from run_sds [OF this kvec_regs_ok(4)] show ?thesis by (simp add: kernelvec_saves set_reg_def)
qed

text \<open>C16: An interrupt in the kernel is transparent to the code it interrupts. kernelvec saves on the stack what
  the C compiler may change; if kerneltrap keeps the calling convention (it returns with the stack
  pointer and the callee-saved registers it was called with) and the 256 bytes of the frame are
  unchanged, then every register except tp is the same after the return as at the interrupt, on
  whichever hart the return happens.\<close>

theorem kernelvec_is_transparent:
  assumes "\<forall>off. off + 8 \<le> 256 \<longrightarrow> mmu (csrf h SATP) (regs h SP - 256 + of_nat off) = p + of_nat off"
    and "\<forall>off. off + 8 \<le> 256 \<longrightarrow> mmu (csrf k SATP) (regs k SP + of_nat off) = p + of_nat off"
    and "\<forall>r\<in>{SP, S0, S1, S2, S3, S4, S5, S6, S7, S8, S9, S10, S11}. regs k r = regs (run_code mmu (kernelvec kt nx) h) r"
    and "\<forall>i<256. phys k (p + of_nat i) = phys (run_code mmu (kernelvec kt nx) h) (p + of_nat i)"
    and "r \<noteq> TP"
  shows "regs (run_code mmu kernelvec_return k) r = regs h r \<and> pc (run_code mmu kernelvec_return k) = csrf k SEPC \<and>
    pc (run_code mmu (kernelvec kt nx) h) = kt"
proof -
  let ?u = "run_code mmu (kernelvec kt nx) h"
  note u = kernelvec_run [of mmu h p, OF assms(1)]
  have "points mmu k SP p 256" using assms(2) by (simp add: points_def addr_of_def)
  note l = run_lds [OF this kvec_regs_ok(4,2,3)]
  have slot: "load64 (phys k) (p + of_nat off) = regs h q" if "(q, off) \<in> set kvec_regs" for q off
  proof -
    have off: "off + 8 \<le> 256" using kvec_regs_ok(4) that by force
    have "load64 (phys k) (p + of_nat off) = load64 (phys ?u) (p + of_nat off)"
    proof (rule load64_cong)
      fix j :: nat assume "j < 8"
      then show "phys k (p + of_nat off + of_nat j) = phys ?u (p + of_nat off + of_nat j)"
        using assms(4) [rule_format, of "off + j"] off by (simp add: add.assoc)
    qed
    moreover have "q \<noteq> SP" using that kvec_regs_ok(3) by force
    ultimately show ?thesis using save_all_slot [OF kvec_regs_ok(1) that] by (simp add: u set_reg_def)
  qed
  have "regs (run_code mmu kernelvec_return k) r = regs h r"
  proof (cases "map_of kvec_regs r")
    case None
    then have "r = TP \<or> r \<in> {SP, S0, S1, S2, S3, S4, S5, S6, S7, S8, S9, S10, S11}" by (cases r) (simp_all add: kvec_regs_def)
    then show ?thesis using None assms(3,5) kvec_regs_ok(5) by (auto simp: kernelvec_saves(2) l set_reg_def u)
  next
    case (Some off)
    then show ?thesis using slot [OF map_of_SomeD [OF Some]] kvec_regs_ok(5) by (auto simp: kernelvec_saves(2) l set_reg_def)
  qed
  then show ?thesis by (simp add: kernelvec_saves(2) l set_reg_def u)
qed

definition sample_handled :: hart where
  "sample_handled = (run_code flat_mmu (kernelvec 0x80002a00 0x80005c50) sample_caller)
     \<lparr>regs := (regs (run_code flat_mmu (kernelvec 0x80002a00 0x80005c50) sample_caller))(A0 := 99, T3 := 5, TP := 1)\<rparr>"

theorem kernelvec_is_transparent_witness:
  "regs (run_code flat_mmu kernelvec_return sample_handled) A0 = 0x80001000"
proof -
  have sp: "regs (run_code flat_mmu (kernelvec 0x80002a00 0x80005c50) sample_caller) SP = 0x80008f00"
    using kernelvec_run [of flat_mmu sample_caller "0x80008f00"] by (simp add: flat_mmu_def sample_caller_def)
  then have k: "regs sample_handled SP = 0x80008f00" by (simp add: sample_handled_def)
  have c: "regs sample_caller SP = 0x80009000" "regs sample_caller A0 = 0x80001000" by (simp_all add: sample_caller_def)
  show ?thesis
    using kernelvec_is_transparent [where mmu = flat_mmu and h = sample_caller and k = sample_handled and r = A0
        and p = "0x80008f00" and kt = "0x80002a00" and nx = "0x80005c50"]
    by (simp add: flat_mmu_def k sp c) (simp add: sample_handled_def)
qed

section \<open>Machine start\<close>

lemma kernel_entry_run:
  "run_code mmu (kernel_entry stk st spin) h =
    h\<lparr>regs := (regs h)(A1 := csrf h MHARTID + 1, A0 := 4096 * (csrf h MHARTID + 1), SP := stk + 4096 * (csrf h MHARTID + 1), RA := spin),
      pc := st\<rparr>"
  by (simp add: kernel_entry_def set_reg_def fun_upd_twist)

lemma mpp_supervisor: "drop_bit 11 (x AND NOT (push_bit 11 3) OR push_bit 11 1) AND 3 = (1 :: u64)"
proof -
  have m: "(3 :: u64) = mask 2" by (simp add: mask_eq_exp_minus_1)
  show ?thesis unfolding m by (rule bit_word_eqI) (auto simp: bit_simps)
qed

lemma small_hartid: "i < 8 \<Longrightarrow> (scast (ucast (of_nat i :: u64) :: 32 word) :: u64) = of_nat i"
proof -
  assume "i < 8"
  then have "i \<in> {0, 1, 2, 3, 4, 5, 6, 7}" by auto
  then show ?thesis by (elim insertE emptyE; simp)
qed

lemma csrw_sel:
  "csrf (csrw c v h) d = (if c = d then v else csrf h d)" "regs (csrw c v h) = regs h" "phys (csrw c v h) = phys h"
  "csrf (set_reg r v h) = csrf h" "regs (set_reg r v h) = (regs h)(r := v)" "phys (set_reg r v h) = phys h"
  by (simp_all add: csrw_def set_reg_def)

lemma start_run:
  "pc (start main h) = main" "priv (start main h) = Supervisor" "csrf (start main h) SATP = 0"
  "csrf (start main h) MEDELEG = 0xffff" "csrf (start main h) MIDELEG = 0xffff"
  "csrf (start main h) SIE = csrf h SIE OR push_bit 9 1 OR push_bit 5 1" "csrf (start main h) STIMECMP = csrf h TIME + 1000000"
  "regs (start main h) = (regs h)(TP := scast (ucast (csrf h MHARTID) :: 32 word))" "phys (start main h) = phys h"
  using mpp_supervisor [of "csrf h MSTATUS"] by (simp_all add: start_def timerinit_def mret_def Let_def csrw_sel)

text \<open>C32: Every hart enters main with a stack of its own. From reset, entry.S gives hart \<open>i\<close> the stack that ends
  \<open>(i + 1) * 4096\<close> bytes after stack0 and calls start, which ends in supervisor mode at main, with the
  hart's number in tp, paging off, all traps delegated to supervisor mode, external and timer
  interrupts enabled in sie, and the first timer interrupt requested.\<close>

theorem hart_enters_main:
  assumes "csrf h MHARTID = of_nat i" and "i < 8"
  shows "let e = run_code mmu (kernel_entry stk st spin) h; t = start main e in
    pc e = st \<and> regs e SP = stk + of_nat ((i + 1) * 4096) \<and>
    pc t = main \<and> priv t = Supervisor \<and> regs t TP = of_nat i \<and> regs t SP = regs e SP \<and> csrf t SATP = 0 \<and>
    csrf t MEDELEG = 0xffff \<and> csrf t MIDELEG = 0xffff \<and> bit (csrf t SIE) 9 \<and> bit (csrf t SIE) 5 \<and>
    csrf t STIMECMP = csrf h TIME + 1000000 \<and> phys t = phys h"
  using assms(1) small_hartid [OF assms(2)]
  by (simp add: Let_def kernel_entry_run start_run ring_distribs bit_or_iff bit_push_bit_iff)

theorem hart_enters_main_witness:
  "regs (run_code flat_mmu (kernel_entry 0x8000a000 0x80000030 0x8000001a) (sample_hart\<lparr>csrf := (\<lambda>_. 0)(MHARTID := 2)\<rparr>)) SP = 0x8000d000"
  using hart_enters_main [where h = "sample_hart\<lparr>csrf := (\<lambda>_. 0)(MHARTID := 2)\<rparr>" and i = 2 and mmu = flat_mmu
    and stk = "0x8000a000" and st = "0x80000030" and spin = "0x8000001a"]
  by (simp add: Let_def)

end
