(* ===== verification/Xv6_Uvm.thy ===== *)
theory Xv6_Uvm
  imports Xv6_Pagetable
begin

text \<open>
  User address spaces: unmapping and freeing pages, growing an address space, page faults, and
  copying between the kernel and user memory, on top of the table trees of Xv6_Pagetable.
\<close>

section \<open>uvmunmap\<close>

text \<open>
  The leaf pages of the addresses in \<open>R\<close> are pages of the allocator, not free, not tables,
  and no two virtual pages share one.
\<close>

definition owned :: "(u64 \<Rightarrow> bool) \<Rightarrow> kstate \<Rightarrow> tree \<Rightarrow> u64 list \<Rightarrow> bool" where
  "owned R s T ps \<longleftrightarrow>
     (\<forall>va<MAXVA. R va \<longrightarrow> bit (leaf (mem s) T va) 0 \<longrightarrow>
        (let pa = PTE2PA (leaf (mem s) T va) in ram_page s pa \<and> pa \<notin> ran T \<and> pa \<notin> set ps)) \<and>
     (\<forall>va<MAXVA. \<forall>vb<MAXVA. R va \<longrightarrow> R vb \<longrightarrow>
        bit (leaf (mem s) T va) 0 \<longrightarrow> bit (leaf (mem s) T vb) 0 \<longrightarrow>
        PTE2PA (leaf (mem s) T va) = PTE2PA (leaf (mem s) T vb) \<longrightarrow> vpn va = vpn vb)"

lemma ownedD:
  assumes "owned R s T ps" "va < MAXVA" "R va" "bit (leaf (mem s) T va) 0"
  shows "ram_page s (PTE2PA (leaf (mem s) T va))" "PTE2PA (leaf (mem s) T va) \<notin> ran T"
    "PTE2PA (leaf (mem s) T va) \<notin> set ps"
  using assms by (simp_all add: owned_def Let_def)

lemma owned_inj:
  "owned R s T ps \<Longrightarrow> va < MAXVA \<Longrightarrow> vb < MAXVA \<Longrightarrow> R va \<Longrightarrow> R vb \<Longrightarrow>
     bit (leaf (mem s) T va) 0 \<Longrightarrow> bit (leaf (mem s) T vb) 0 \<Longrightarrow>
     PTE2PA (leaf (mem s) T va) = PTE2PA (leaf (mem s) T vb) \<Longrightarrow> vpn va = vpn vb"
  unfolding owned_def by blast

text \<open>The entry of a page that is valid is cleared, and its page freed.\<close>

lemma unmap_page:
  assumes inv: "vm_inv s root T ps" and va: "va < MAXVA" "bit (leaf (mem s) T va) 0"
  defines "pa \<equiv> PTE2PA (leaf (mem s) T va)"
  assumes pa: "ram_page s pa" "pa \<notin> ran T" "pa \<notin> set ps"
  shows "\<exists>t. uvmunmap_page root True va s = Ok () t \<and> vm_inv t root T (pa # ps) \<and>
    t = s\<lparr>mem := mem t, freelist := freelist t\<rparr> \<and>
    (\<forall>vb<MAXVA. leaf (mem t) T vb = (if vpn vb = vpn va then 0 else leaf (mem s) T vb)) \<and>
    same_outside (insert pa (ran T)) (mem s) (mem t)"
proof -
  have T: "T [px 2 va, px 1 va] \<noteq> None"
    using va(2) by (auto simp: leaf_def split: option.splits)
  have ok: "pt_ok (mem s) root T" and fp: "free_pages s ps"
    using inv by (auto simp: vm_inv_def)
  from kfree_page [OF fp pa(1,3)] obtain m where
    kf: "kfree pa s = Ok () (s\<lparr>mem := m, freelist := pa\<rparr>)"
    and fp1: "free_pages (s\<lparr>mem := m, freelist := pa\<rparr>) (pa # ps)"
    and se: "same_except pa (mem s) m" by blast
  let ?u = "s\<lparr>mem := m, freelist := pa\<rparr>"
  have inv1: "vm_inv ?u root T (pa # ps)"
    using inv pa(2) fp1 pt_ok_same_except [OF ok se pa(2)] by (auto simp: vm_inv_def)
  have lf: "leaf m T = leaf (mem s) T"
    by (rule leaf_same_except [OF ok se pa(2)])
  let ?t = "?u\<lparr>mem := store64 (mem ?u) (leaf_addr T va) 0\<rparr>"
  note sl = set_leaf [OF inv1 va(1) T, where e = 0]
  have so: "same_outside (insert pa (ran T)) (mem s) (mem ?t)"
  proof (rule same_outside_trans)
    show "same_outside {pa} (mem s) (mem ?u)" using se by (simp add: same_outside_except)
    show "same_outside (ran T) (mem ?u) (mem ?t)" by (rule sl(3))
  qed simp
  have "uvmunmap_page root True va s = Ok () ?t"
    unfolding uvmunmap_page_def walk_entry [OF inv va(1)]
    using T va(2) kf by (auto simp: flag_bit pa_def kthen_Ok store_pte_def)
  then show ?thesis
    using sl(1,2) so lf by (intro exI [of _ ?t]) simp
qed

lemma unmap_absent:
  assumes "vm_inv s root T ps" "va < MAXVA" "\<not> bit (leaf (mem s) T va) 0"
  shows "uvmunmap_page root do_free va s = Ok () s"
  unfolding uvmunmap_page_def walk_entry [OF assms(1,2)]
  using assms(3) by (simp add: flag_bit)

abbreviation (input) in_range :: "u64 \<Rightarrow> nat \<Rightarrow> u64 \<Rightarrow> bool" where
  "in_range a n vb \<equiv> vpn a \<le> vpn vb \<and> vpn vb < vpn a + n"

text \<open>Only \<open>mem\<close> and \<open>freelist\<close> differ.\<close>

definition mem_only :: "kstate \<Rightarrow> kstate \<Rightarrow> bool" where
  "mem_only s t \<longleftrightarrow> t = s\<lparr>mem := mem t, freelist := freelist t\<rparr>"

lemma mem_only_refl [simp]: "mem_only s s"
  by (simp add: mem_only_def)

lemma mem_only_trans: "mem_only s t \<Longrightarrow> mem_only t u \<Longrightarrow> mem_only s u"
  unfolding mem_only_def by (metis (no_types, lifting) kstate.surjective kstate.update_convs(1,2))

lemma mem_only_ram_page: "mem_only s t \<Longrightarrow> ram_page t = ram_page s"
  by (cases s; cases t) (simp add: mem_only_def ram_page_def fun_eq_iff)

text \<open>The pages behind the valid entries of a range.\<close>

definition range_pages :: "memory \<Rightarrow> tree \<Rightarrow> u64 \<Rightarrow> nat \<Rightarrow> u64 set" where
  "range_pages m T a n =
     {PTE2PA (leaf m T vb) | vb. vb < MAXVA \<and> in_range a n vb \<and> bit (leaf m T vb) 0}"

lemma owned_smaller:
  assumes "owned R s T ps" "mem_only s t"
    and "\<And>vb. vb < MAXVA \<Longrightarrow> R' vb \<Longrightarrow> bit (leaf (mem t) T vb) 0 \<Longrightarrow>
      R vb \<and> leaf (mem t) T vb = leaf (mem s) T vb \<and> PTE2PA (leaf (mem s) T vb) \<notin> set qs - set ps"
  shows "owned R' t T qs"
  unfolding owned_def Let_def
proof (intro conjI allI impI)
  fix vb assume vb: "vb < MAXVA" "R' vb" "bit (leaf (mem t) T vb) 0"
  note h = assms(3) [OF vb]
  note o = ownedD [OF assms(1) vb(1)]
  show "ram_page t (PTE2PA (leaf (mem t) T vb))" "PTE2PA (leaf (mem t) T vb) \<notin> ran T"
    "PTE2PA (leaf (mem t) T vb) \<notin> set qs"
    using h o vb(3) by (auto simp: mem_only_ram_page [OF assms(2)])
next
  fix va vb assume "va < MAXVA" "vb < MAXVA" "R' va" "R' vb"
    "bit (leaf (mem t) T va) 0" "bit (leaf (mem t) T vb) 0"
    "PTE2PA (leaf (mem t) T va) = PTE2PA (leaf (mem t) T vb)"
  then show "vpn va = vpn vb"
    using assms(3) [of va] assms(3) [of vb] owned_inj [OF assms(1), of va vb] by auto
qed

text \<open>uvmunmap over \<open>n\<close> pages from \<open>a\<close> on, freeing what was mapped.\<close>

lemma unmap_range:
  assumes "vm_inv s root T ps" "owned R s T ps" "page_aligned a" "unat a + 4096 * n \<le> unat MAXVA"
    and "\<And>vb. in_range a n vb \<Longrightarrow> R vb"
  shows "\<exists>t qs. kfor (page_range a n) (uvmunmap_page root True) s = Ok () t \<and>
    vm_inv t root T (qs @ ps) \<and> owned R t T (qs @ ps) \<and> mem_only s t \<and>
    (\<forall>vb<MAXVA. leaf (mem t) T vb =
      (if in_range a n vb \<and> bit (leaf (mem s) T vb) 0 then 0 else leaf (mem s) T vb)) \<and>
    set qs = range_pages (mem s) T a n \<and> same_outside (set qs \<union> ran T) (mem s) (mem t)"
  using assms
proof (induction n arbitrary: s ps a)
  case 0
  have "range_pages (mem s) T a 0 = {}" by (auto simp: range_pages_def)
  then show ?case
    using 0 by (intro exI [of _ s] exI [of _ "[]"]) (auto simp: page_range_def)
next
  case (Suc n)
  have lt: "a < MAXVA" using Suc.prems(4) by (simp add: word_less_nat_alt)
  have un: "unat (a + PGSIZE) = unat a + 4096"
    using lt by (simp add: unat_word_ariths word_less_nat_alt)
  have split: "in_range a (Suc n) vb \<longleftrightarrow> vpn vb = vpn a \<or> in_range (a + PGSIZE) n vb" for vb
    using un by auto
  let ?l = "leaf (mem s) T"
  have "\<exists>t qs. uvmunmap_page root True a s = Ok () t \<and> vm_inv t root T (qs @ ps) \<and>
      owned R t T (qs @ ps) \<and> mem_only s t \<and>
      (\<forall>vb<MAXVA. leaf (mem t) T vb = (if vpn vb = vpn a \<and> bit (?l vb) 0 then 0 else ?l vb)) \<and>
      set qs = (if bit (?l a) 0 then {PTE2PA (?l a)} else {}) \<and>
      same_outside (set qs \<union> ran T) (mem s) (mem t)"
  proof (cases "bit (?l a) 0")
    case False
    have "\<not> (vpn vb = vpn a \<and> bit (?l vb) 0)" for vb
      using False leaf_cong [of vb a] by metis
    then show ?thesis
      using False unmap_absent [OF Suc.prems(1) lt] Suc.prems(1,2)
      by (intro exI [of _ s] exI [of _ "[]"]) auto
  next
    case True
    have Ra: "R a" using Suc.prems(5) [of a] by simp
    note o = ownedD [OF Suc.prems(2) lt Ra True]
    from unmap_page [OF Suc.prems(1) lt True o] obtain t where t:
      "uvmunmap_page root True a s = Ok () t" "vm_inv t root T (PTE2PA (?l a) # ps)" "mem_only s t"
      "\<forall>vb<MAXVA. leaf (mem t) T vb = (if vpn vb = vpn a then 0 else ?l vb)"
      "same_outside (insert (PTE2PA (?l a)) (ran T)) (mem s) (mem t)"
      unfolding mem_only_def by blast
    have "owned R t T (PTE2PA (?l a) # ps)"
    proof (rule owned_smaller [OF Suc.prems(2) t(3)])
      fix vb assume vb: "vb < MAXVA" "R vb" "bit (leaf (mem t) T vb) 0"
      then have "vpn vb \<noteq> vpn a" "leaf (mem t) T vb = ?l vb" using t(4) by (auto split: if_splits)
      with owned_inj [OF Suc.prems(2) vb(1) lt vb(2) Ra _ True] vb
      show "R vb \<and> leaf (mem t) T vb = ?l vb \<and> PTE2PA (?l vb) \<notin> set (PTE2PA (?l a) # ps) - set ps"
        by auto
    qed
    moreover have "leaf (mem t) T vb = (if vpn vb = vpn a \<and> bit (?l vb) 0 then 0 else ?l vb)"
      if "vb < MAXVA" for vb
    proof (cases "vpn vb = vpn a")
      case eq: True
      with leaf_cong [OF eq] True have "bit (?l vb) 0" by metis
      with eq show ?thesis using t(4) that by simp
    qed (use t(4) that in simp)
    ultimately show ?thesis
      using t True by (intro exI [of _ t] exI [of _ "[PTE2PA (?l a)]"]) simp
  qed
  then obtain t qs where t: "uvmunmap_page root True a s = Ok () t" "vm_inv t root T (qs @ ps)"
      "owned R t T (qs @ ps)" "mem_only s t"
      "\<forall>vb<MAXVA. leaf (mem t) T vb = (if vpn vb = vpn a \<and> bit (?l vb) 0 then 0 else ?l vb)"
      "set qs = (if bit (?l a) 0 then {PTE2PA (?l a)} else {})"
      "same_outside (set qs \<union> ran T) (mem s) (mem t)"
    by blast
  have al: "page_aligned (a + PGSIZE)" using Suc.prems(3) un by (simp add: page_aligned_unat)
  have bd: "unat (a + PGSIZE) + 4096 * n \<le> unat MAXVA" using Suc.prems(4) un by simp
  have "R vb" if "in_range (a + PGSIZE) n vb" for vb using that Suc.prems(5) split by blast
  from Suc.IH [OF t(2,3) al bd this] obtain u rs where u:
      "kfor (page_range (a + PGSIZE) n) (uvmunmap_page root True) t = Ok () u"
      "vm_inv u root T (rs @ qs @ ps)" "owned R u T (rs @ qs @ ps)" "mem_only t u"
      "\<forall>vb<MAXVA. leaf (mem u) T vb = (if in_range (a + PGSIZE) n vb \<and> bit (leaf (mem t) T vb) 0
          then 0 else leaf (mem t) T vb)"
      "set rs = range_pages (mem t) T (a + PGSIZE) n"
      "same_outside (set rs \<union> ran T) (mem t) (mem u)"
    by blast
  have "kfor (page_range a (Suc n)) (uvmunmap_page root True) s = Ok () u"
    using t(1) u(1) by (simp add: page_range_Suc kthen_Ok)
  moreover have "\<forall>vb<MAXVA. leaf (mem u) T vb =
      (if in_range a (Suc n) vb \<and> bit (?l vb) 0 then 0 else ?l vb)"
    unfolding split using t(5) u(5) by auto
  moreover have "set (rs @ qs) = range_pages (mem s) T a (Suc n)"
  proof -
    have "leaf (mem t) T vb = ?l vb" if "vb < MAXVA" "in_range (a + PGSIZE) n vb" for vb
      using t(5) that un by auto
    then have "range_pages (mem t) T (a + PGSIZE) n = range_pages (mem s) T (a + PGSIZE) n"
      unfolding range_pages_def by (intro Collect_cong ex_cong1) auto
    moreover have "range_pages (mem s) T a (Suc n) = set qs \<union> range_pages (mem s) T (a + PGSIZE) n"
    proof (rule set_eqI)
      fix x
      have "(\<exists>vb<MAXVA. vpn vb = vpn a \<and> bit (?l vb) 0 \<and> x = PTE2PA (?l vb)) \<longleftrightarrow> x \<in> set qs"
        using lt leaf_cong [of _ a "mem s" T] unfolding t(6) by (metis empty_iff singleton_iff)
      then show "x \<in> range_pages (mem s) T a (Suc n) \<longleftrightarrow>
          x \<in> set qs \<union> range_pages (mem s) T (a + PGSIZE) n"
        unfolding range_pages_def split by blast
    qed
    ultimately show ?thesis using u(6) by auto
  qed
  moreover have "same_outside (set (rs @ qs) \<union> ran T) (mem s) (mem u)"
    by (rule same_outside_trans [OF t(7) u(7)]) auto
  ultimately show ?case
    using u(2,3) mem_only_trans [OF t(4) u(4)]
    by (intro exI [of _ u] exI [of _ "rs @ qs"]) simp
qed

section \<open>User memory\<close>

text \<open>A table tree whose user pages are owned.\<close>

definition uinv :: "kstate \<Rightarrow> u64 \<Rightarrow> tree \<Rightarrow> u64 list \<Rightarrow> bool" where
  "uinv s root T ps \<longleftrightarrow>
     vm_inv s root T ps \<and> owned (\<lambda>va. bit (leaf (mem s) T va) 4) s T ps"

text \<open>The byte a user program sees at \<open>va\<close>; \<open>None\<close> where an access would fault.\<close>

definition ubyte :: "kstate \<Rightarrow> tree \<Rightarrow> u64 \<Rightarrow> u8 option" where
  "ubyte s T va =
     (let e = leaf (mem s) T va in
      if va < MAXVA \<and> bit e 0 \<and> bit e 4 then Some (at (mem s) (PTE2PA e) (unat va mod 4096)) else None)"

lemma pte_bit: "k < 10 \<Longrightarrow> bit (PA2PTE pa OR f) k = bit f k"
  by (simp add: bit_simps bit_PA2PTE)

lemma uinv_user_page:
  assumes "uinv s root T ps" "va < MAXVA" "bit (leaf (mem s) T va) 0" "bit (leaf (mem s) T va) 4"
  shows "ram_page s (PTE2PA (leaf (mem s) T va))" "PTE2PA (leaf (mem s) T va) \<notin> ran T"
    "PTE2PA (leaf (mem s) T va) \<notin> set ps"
  using assms ownedD [of "\<lambda>va. bit (leaf (mem s) T va) 4" s T ps va] by (auto simp: uinv_def)

text \<open>Table growth and changes outside the user pages are invisible to the user.\<close>

lemma ubyte_cong:
  assumes "uinv s root T ps" "leaf (mem t) T' va = leaf (mem s) T va" "same_outside Q (mem s) (mem t)"
    and "va < MAXVA \<Longrightarrow> bit (leaf (mem s) T va) 0 \<Longrightarrow> bit (leaf (mem s) T va) 4 \<Longrightarrow>
      PTE2PA (leaf (mem s) T va) \<notin> Q"
  shows "ubyte t T' va = ubyte s T va"
  using assms uinv_user_page(1) [OF assms(1), of va]
  by (auto simp: ubyte_def Let_def same_outside_def ram_page_def)

lemma uinv_remapped:
  assumes u: "uinv s root T ps" and v: "vm_inv t root T' ps'" and r: "remapped s T ps t T' ps' (leaf (mem s) T)"
  shows "uinv t root T' ps' \<and> ubyte t T' = ubyte s T"
proof
  obtain used where used: "ps = used @ ps'" "ran T' = ran T \<union> set used"
    using r by (auto simp: remapped_def)
  have lf: "leaf (mem t) T' va = leaf (mem s) T va" if "va < MAXVA" for va
    using r that by (simp add: remapped_def)
  have mo: "mem_only s t" using r by (simp add: remapped_def mem_only_def)
  have notin: "PTE2PA (leaf (mem s) T va) \<notin> ran T' \<union> set ps'"
    if "va < MAXVA" "bit (leaf (mem s) T va) 0" "bit (leaf (mem s) T va) 4" for va
    using uinv_user_page [OF u that] used by auto
  have "owned (\<lambda>va. bit (leaf (mem t) T' va) 4) t T' ps'"
    unfolding owned_def Let_def
  proof (intro conjI allI impI)
    fix va assume "va < MAXVA" "bit (leaf (mem t) T' va) 4" "bit (leaf (mem t) T' va) 0"
    then have va: "va < MAXVA" "bit (leaf (mem s) T va) 0" "bit (leaf (mem s) T va) 4"
      by (auto simp: lf)
    then show "ram_page t (PTE2PA (leaf (mem t) T' va))" "PTE2PA (leaf (mem t) T' va) \<notin> ran T'"
      "PTE2PA (leaf (mem t) T' va) \<notin> set ps'"
      using notin [OF va] uinv_user_page [OF u va] by (auto simp: lf mem_only_ram_page [OF mo])
  next
    fix va vb assume "va < MAXVA" "vb < MAXVA" "bit (leaf (mem t) T' va) 4" "bit (leaf (mem t) T' vb) 4"
      "bit (leaf (mem t) T' va) 0" "bit (leaf (mem t) T' vb) 0"
      "PTE2PA (leaf (mem t) T' va) = PTE2PA (leaf (mem t) T' vb)"
    then show "vpn va = vpn vb"
      using u owned_inj [of "\<lambda>va. bit (leaf (mem s) T va) 4" s T ps va vb] by (auto simp: lf uinv_def)
  qed
  then show "uinv t root T' ps'" using v by (simp add: uinv_def)
  show "ubyte t T' = ubyte s T"
  proof
    fix va
    show "ubyte t T' va = ubyte s T va"
    proof (cases "va < MAXVA")
      case True
      then show ?thesis
        using ubyte_cong [OF u lf [OF True], of "ran T'"] r notin by (auto simp: remapped_def)
    qed (simp add: ubyte_def)
  qed
qed

text \<open>Allocating a page and clearing it, as vmfault and uvmalloc do.\<close>

lemma kalloc_zeroed:
  assumes "vm_inv s root T (p # ps)"
  shows "\<exists>t. kbind kalloc (\<lambda>page. if page = 0 then none else kthen (memset_page page 0) (k page)) s = k p t \<and>
    vm_inv t root T ps \<and> mem_only s t \<and> same_outside {p} (mem s) (mem t) \<and>
    mem_read (mem t) p 4096 = replicate 4096 0 \<and> leaf (mem t) T = leaf (mem s) T \<and>
    ram_page s p \<and> p \<notin> ran T \<and> p \<notin> set ps"
proof -
  have ok: "pt_ok (mem s) root T" and fp: "free_pages s (p # ps)" and pT: "p \<notin> ran T"
    using assms by (auto simp: vm_inv_def)
  have p: "page_aligned p" "p \<noteq> 0" "ram_page s p" "p \<notin> set ps"
    using fp by (auto simp: free_pages_def ram_page_def)
  from kalloc_page [OF fp] obtain m where
    ka: "kalloc s = Ok p (s\<lparr>mem := m, freelist := load64 (mem s) p\<rparr>)"
    and fp1: "free_pages (s\<lparr>mem := m, freelist := load64 (mem s) p\<rparr>) ps"
    and se: "same_except p (mem s) m" by blast
  let ?t = "s\<lparr>mem := memset m p 0 4096, freelist := load64 (mem s) p\<rparr>"
  have se1: "same_except p (mem s) (mem ?t)"
    using same_except_trans [OF se same_except_memset [OF p(1)]] by simp
  have "same_outside {p} m (memset m p 0 4096)"
    by (simp add: same_outside_except same_except_memset [OF p(1)])
  then have "free_pages ?t ps"
    using free_pages_same_outside [OF fp1, of "{p}" ?t] p(4) by auto
  then have "vm_inv ?t root T ps"
    using assms pt_ok_same_except [OF ok se1 pT] by (auto simp: vm_inv_def)
  moreover have "kbind kalloc (\<lambda>page. if page = 0 then none else kthen (memset_page page 0) (k page)) s = k p ?t"
    using ka p(2) by (simp add: kbind_Ok memset_page_def)
  moreover have "leaf (mem ?t) T = leaf (mem s) T"
    by (rule leaf_same_except [OF ok se1 pT])
  ultimately show ?thesis
    using se1 p pT by (intro exI [of _ ?t]) (simp add: mem_only_def same_outside_except memset_eq)
qed

lemma uinv_alloc:
  assumes u: "uinv s root T (p # ps)" and t: "vm_inv t root T ps" "mem_only s t"
    "same_outside {p} (mem s) (mem t)" "leaf (mem t) T = leaf (mem s) T"
  shows "uinv t root T ps \<and> ubyte t T = ubyte s T"
proof
  have "owned (\<lambda>va. bit (leaf (mem t) T va) 4) t T ps"
    using u t(4) by (intro owned_smaller [OF _ t(2)]) (auto simp: uinv_def)
  then show "uinv t root T ps" using t(1) by (simp add: uinv_def)
  show "ubyte t T = ubyte s T"
    using uinv_user_page(3) [OF u] by (intro ext ubyte_cong [OF u _ t(3)]) (auto simp: t(4))
qed

text \<open>A fresh zeroed page \<open>p\<close> mapped for the user at \<open>va\<close>.\<close>

lemma uinv_map_page:
  assumes u: "uinv s root T ps" and p: "ram_page s p" "p \<notin> ran T" "p \<notin> set ps"
      "mem_read (mem s) p 4096 = replicate 4096 0"
    and new: "\<And>vb. vb < MAXVA \<Longrightarrow> bit (leaf (mem s) T vb) 0 \<Longrightarrow> bit (leaf (mem s) T vb) 4 \<Longrightarrow>
      PTE2PA (leaf (mem s) T vb) \<noteq> p"
    and va: "va < MAXVA" "\<not> bit (leaf (mem s) T va) 0"
    and v: "vm_inv t root T' ps'"
    and r: "remapped s T ps t T' ps' (map_range 1 va p f (leaf (mem s) T))" and f: "f < 1024" "bit f 4"
  shows "uinv t root T' ps' \<and>
    ubyte t T' = (\<lambda>vb. if vb < MAXVA \<and> vpn vb = vpn va then Some 0 else ubyte s T vb) \<and>
    leaf (mem t) T' va = PA2PTE p OR f OR PTE_V"
proof -
  let ?e = "PA2PTE p OR f OR PTE_V"
  have al: "page_aligned p" using p(1) by (simp add: ram_page_def)
  have fl: "f OR PTE_V < 1024" using f(1) by (intro or_small) simp_all
  have e: "PTE2PA ?e = p" "bit ?e 0" "bit ?e 4"
    using PTE2PA_PA2PTE [OF al fl] f(2) by (simp_all add: pte_bit bit_or_iff)
  obtain used where used: "ps = used @ ps'" "ran T' = ran T \<union> set used"
    using r by (auto simp: remapped_def)
  have lf: "leaf (mem t) T' vb = (if vpn vb = vpn va then ?e else leaf (mem s) T vb)" if "vb < MAXVA" for vb
    using r that by (auto simp: remapped_def map_range_def)
  have mo: "mem_only s t" using r by (simp add: remapped_def mem_only_def)
  have so: "same_outside (ran T') (mem s) (mem t)" using r by (simp add: remapped_def)
  have user: "ram_page s (PTE2PA (leaf (mem s) T vb)) \<and> PTE2PA (leaf (mem s) T vb) \<notin> ran T' \<union> set ps' \<union> {p}"
    if "vb < MAXVA" "bit (leaf (mem s) T vb) 0" "bit (leaf (mem s) T vb) 4" for vb
    using uinv_user_page [OF u that] used new [OF that] by auto
  have pT: "p \<notin> ran T' \<union> set ps'" using p(2,3) used by auto
  have "owned (\<lambda>va. bit (leaf (mem t) T' va) 4) t T' ps'"
    unfolding owned_def Let_def
  proof (intro conjI allI impI)
    fix vb assume "vb < MAXVA" "bit (leaf (mem t) T' vb) 4" "bit (leaf (mem t) T' vb) 0"
    then show "ram_page t (PTE2PA (leaf (mem t) T' vb))" "PTE2PA (leaf (mem t) T' vb) \<notin> ran T'"
      "PTE2PA (leaf (mem t) T' vb) \<notin> set ps'"
      using user [of vb] pT p(1) e(1) by (auto simp: lf mem_only_ram_page [OF mo] split: if_splits)
  next
    fix vb vc assume vbc: "vb < MAXVA" "vc < MAXVA"
      and h: "bit (leaf (mem t) T' vb) 4" "bit (leaf (mem t) T' vc) 4"
      "bit (leaf (mem t) T' vb) 0" "bit (leaf (mem t) T' vc) 0"
      "PTE2PA (leaf (mem t) T' vb) = PTE2PA (leaf (mem t) T' vc)"
    then show "vpn vb = vpn vc"
      using u owned_inj [of "\<lambda>va. bit (leaf (mem s) T va) 4" s T ps vb vc] user [of vb] user [of vc] e(1)
      unfolding lf [OF vbc(1)] lf [OF vbc(2)] by (auto simp: uinv_def split: if_splits)
  qed
  then have "uinv t root T' ps'" using v by (simp add: uinv_def)
  moreover have "ubyte t T' vb = (if vb < MAXVA \<and> vpn vb = vpn va then Some 0 else ubyte s T vb)" for vb
  proof (cases "vb < MAXVA \<and> vpn vb = vpn va")
    case True
    have "at (mem s) p (unat vb mod 4096) = 0"
      using arg_cong [OF p(4), of "\<lambda>xs. xs ! (unat vb mod 4096)"] by simp
    then have "at (mem t) p (unat vb mod 4096) = 0"
      using so pT al by (simp add: same_outside_def)
    then show ?thesis using True e lf [of vb] by (simp add: ubyte_def)
  next
    case False
    then show ?thesis
      using ubyte_cong [OF u _ so, of T' vb] user [of vb] lf [of vb] by (cases "vb < MAXVA") (auto simp: ubyte_def)
  qed
  ultimately show ?thesis using lf [OF va(1)] by auto
qed

text \<open>Giving back a page that no table and no user mapping uses.\<close>

lemma uinv_free:
  assumes u: "uinv s root T ps" and p: "ram_page s p" "p \<notin> ran T" "p \<notin> set ps"
    and unused: "\<And>vb. vb < MAXVA \<Longrightarrow> bit (leaf (mem s) T vb) 0 \<Longrightarrow> bit (leaf (mem s) T vb) 4 \<Longrightarrow>
      PTE2PA (leaf (mem s) T vb) \<noteq> p"
  shows "\<exists>t. kfree p s = Ok () t \<and> uinv t root T (p # ps) \<and> ubyte t T = ubyte s T \<and> mem_only s t \<and>
    leaf (mem t) T = leaf (mem s) T"
proof -
  have inv: "vm_inv s root T ps" and ok: "pt_ok (mem s) root T" and fp: "free_pages s ps"
    using u by (auto simp: uinv_def vm_inv_def)
  from kfree_page [OF fp p(1,3)] obtain m where
    kf: "kfree p s = Ok () (s\<lparr>mem := m, freelist := p\<rparr>)"
    and fp1: "free_pages (s\<lparr>mem := m, freelist := p\<rparr>) (p # ps)"
    and se: "same_except p (mem s) m" by blast
  let ?t = "s\<lparr>mem := m, freelist := p\<rparr>"
  have v: "vm_inv ?t root T (p # ps)"
    using inv p(2) fp1 pt_ok_same_except [OF ok se p(2)] by (auto simp: vm_inv_def)
  have lf: "leaf m T = leaf (mem s) T"
    by (rule leaf_same_except [OF ok se p(2)])
  have mo: "mem_only s ?t" by (simp add: mem_only_def)
  have "owned (\<lambda>va. bit (leaf (mem ?t) T va) 4) ?t T (p # ps)"
    using u unused by (intro owned_smaller [OF _ mo]) (auto simp: uinv_def lf)
  moreover have "ubyte ?t T = ubyte s T"
    using unused se by (intro ext ubyte_cong [OF u, of _ _ _ "{p}"]) (auto simp: lf same_outside_except)
  ultimately show ?thesis using kf v lf mo by (intro exI [of _ ?t]) (simp add: uinv_def)
qed

lemma ismapped_leaf:
  assumes "vm_inv s root T ps" "va < MAXVA"
  shows "ismapped root va s = Ok (bit (leaf (mem s) T va) 0) s"
proof -
  have "T [px 2 va, px 1 va] = None \<longrightarrow> \<not> bit (leaf (mem s) T va) 0"
    by (auto simp: leaf_def)
  then show ?thesis
    unfolding ismapped_def walk_entry [OF assms] by (auto simp: flag_bit)
qed

lemma vpn_PGROUNDDOWN [simp]: "vpn (PGROUNDDOWN va) = vpn va"
  by (simp add: unat_PGROUNDDOWN)

lemma PGROUNDDOWN_less: "va < b \<Longrightarrow> PGROUNDDOWN va < b"
  using unat_PGROUNDDOWN [of va] by (simp add: word_less_nat_alt)

text \<open>The outcome of a page fault at \<open>va\<close>: nothing visible changes, or a page of zeros appears.\<close>

lemma vmfault_spec:
  assumes u: "uinv s root T ps" and va: "va < MAXVA"
  shows "\<exists>t T' ps' r. vmfault root psz va s = Ok r t \<and> uinv t root T' ps' \<and> mem_only s t \<and>
    (r = 0 \<and> ubyte t T' = ubyte s T \<or>
     r \<noteq> 0 \<and> page_aligned r \<and> va < psz \<and> \<not> bit (leaf (mem s) T va) 0 \<and>
     ubyte t T' = (\<lambda>vb. if vb < MAXVA \<and> vpn vb = vpn va then Some 0 else ubyte s T vb) \<and>
     leaf (mem t) T' va = PA2PTE r OR (PTE_W OR PTE_U OR PTE_R) OR PTE_V)"
proof -
  let ?va = "PGROUNDDOWN va" and ?e = "leaf (mem s) T va"
  have inv: "vm_inv s root T ps" using u by (simp add: uinv_def)
  have va0: "?va < MAXVA" using PGROUNDDOWN_less [OF va] .
  have lf0: "leaf m T ?va = leaf m T va" for m T by (rule leaf_cong) simp
  consider (stop) "\<not> va < psz \<or> bit ?e 0 \<or> ps = []" | (go) p qs where "ps = p # qs" "va < psz" "\<not> bit ?e 0"
    by (cases ps) auto
  then show ?thesis
  proof cases
    case stop
    then have "vmfault root psz va s = Ok 0 s"
      using ismapped_leaf [OF inv va0] kalloc_empty [of s] inv
      by (auto simp: vmfault_def Let_def kbind_Ok lf0 not_less vm_inv_def)
    then show ?thesis using u by (intro exI [of _ s] exI [of _ T] exI [of _ ps] exI [of _ 0]) simp
  next
    case go
    let ?perm = "PTE_W OR PTE_U OR PTE_R"
    let ?k = "\<lambda>page. kbind (mappages root ?va PGSIZE page ?perm)
      (\<lambda>r. if r \<noteq> 0 then kthen (kfree page) (kret 0) else kret page)"
    from kalloc_zeroed [OF inv [unfolded go(1)], of "kret 0" ?k] obtain t1 where t1:
      "kbind kalloc (\<lambda>page. if page = 0 then kret 0 else kthen (memset_page page 0) (?k page)) s = ?k p t1"
      "vm_inv t1 root T qs" "mem_only s t1" "same_outside {p} (mem s) (mem t1)"
      "mem_read (mem t1) p 4096 = replicate 4096 0" "leaf (mem t1) T = leaf (mem s) T"
      "ram_page s p" "p \<notin> ran T" "p \<notin> set qs" by blast
    have "\<not> psz \<le> va" using go(2) by simp
    then have run: "vmfault root psz va s = ?k p t1"
      unfolding t1(1) [symmetric] vmfault_def Let_def
      using go(3) by (simp add: kbind_def [of "ismapped root ?va"] ismapped_leaf [OF inv va0] lf0)
    have p: "page_aligned p" "p \<noteq> 0" using t1(7) by (auto simp: ram_page_def)
    have ram1: "ram_page t1 p" using t1(7) mem_only_ram_page [OF t1(3)] by simp
    from uinv_alloc [OF u [unfolded go(1)] t1(2,3,4,6)]
    have u1: "uinv t1 root T qs" "ubyte t1 T = ubyte s T" by auto
    have fresh: "PTE2PA (leaf (mem t1) T vb) \<noteq> p"
      if "vb < MAXVA" "bit (leaf (mem t1) T vb) 0" "bit (leaf (mem t1) T vb) 4" for vb
      using uinv_user_page(3) [OF u, of vb] that go(1) by (auto simp: t1(6))
    have "\<exists>t T' ps' k r. mappages root ?va PGSIZE p ?perm t1 = Ok r t \<and> vm_inv t root T' ps' \<and>
      remapped t1 T qs t T' ps' (map_range k ?va p ?perm (leaf (mem t1) T)) \<and>
      (r = 0 \<and> k = vpn PGSIZE \<and> length qs \<le> length ps' + 2 * vpn PGSIZE \<or>
       r = - 1 \<and> k < vpn PGSIZE \<and> ps' = [] \<and> length qs < 2 * vpn PGSIZE)"
    proof (rule mappages_spec [OF t1(2)])
      show "unat ?va + unat PGSIZE \<le> unat MAXVA"
        using va by (simp add: unat_PGROUNDDOWN word_less_nat_alt)
      fix vb assume "vpn ?va \<le> vpn vb" "vpn vb < vpn ?va + vpn PGSIZE"
      then have "vpn vb = vpn va" by simp
      then show "leaf (mem t1) T vb AND PTE_V = 0"
        using go(3) leaf_cong [of vb va "mem s" T] by (simp add: flag_bit t1(6))
    qed (auto simp: page_aligned_unat unat_PGROUNDDOWN)
    then obtain t T' ps' k r where m: "mappages root ?va PGSIZE p ?perm t1 = Ok r t"
      "vm_inv t root T' ps'" "remapped t1 T qs t T' ps' (map_range k ?va p ?perm (leaf (mem t1) T))"
      "r = 0 \<and> k = 1 \<or> r = - 1 \<and> k = 0" by auto
    have mo: "mem_only s t" using m(3) mem_only_trans [OF t1(3)] by (simp add: remapped_def mem_only_def)
    from m(4) show ?thesis
    proof (elim disjE conjE)
      assume r: "r = 0" "k = 1"
      have "\<not> bit (leaf (mem t1) T ?va) 0" using go(3) by (simp add: lf0 t1(6))
      from uinv_map_page [OF u1(1) ram1 t1(8,9,5) fresh va0 this m(2) m(3) [unfolded r]]
      have "uinv t root T' ps'"
        "ubyte t T' = (\<lambda>vb. if vb < MAXVA \<and> vpn vb = vpn va then Some 0 else ubyte s T vb)"
        "leaf (mem t) T' va = PA2PTE p OR ?perm OR PTE_V"
        by (auto simp: u1(2) lf0 bit_or_iff)
      moreover have "vmfault root psz va s = Ok p t"
        unfolding run using m(1) r by (simp add: kbind_Ok)
      ultimately show ?thesis
        using p go(2,3) mo by (intro exI [of _ t] exI [of _ T'] exI [of _ ps'] exI [of _ p]) simp
    next
      assume r: "r = - 1" "k = 0"
      then have rm: "remapped t1 T qs t T' ps' (leaf (mem t1) T)" using m(3) by simp
      from uinv_remapped [OF u1(1) m(2) rm] have u2: "uinv t root T' ps'" "ubyte t T' = ubyte s T"
        using u1(2) by auto
      obtain used where used: "qs = used @ ps'" "ran T' = ran T \<union> set used"
        using rm by (auto simp: remapped_def)
      have "\<exists>t'. kfree p t = Ok () t' \<and> uinv t' root T' (p # ps') \<and> ubyte t' T' = ubyte t T' \<and>
          mem_only t t' \<and> leaf (mem t') T' = leaf (mem t) T'"
        using u2(1) t1(7,8,9) used mem_only_ram_page [OF mo] fresh rm
        by (intro uinv_free) (auto simp: remapped_def)
      then obtain t' where t': "kfree p t = Ok () t'" "uinv t' root T' (p # ps')"
        "ubyte t' T' = ubyte t T'" "mem_only t t'" by blast
      have "vmfault root psz va s = Ok 0 t'"
        unfolding run using m(1) r t'(1) by (simp add: kbind_Ok kthen_Ok)
      then show ?thesis
        using t' u2(2) mem_only_trans [OF mo t'(4)]
        by (intro exI [of _ t'] exI [of _ T'] exI [of _ "p # ps'"] exI [of _ 0]) simp
    qed
  qed
qed

section \<open>Copying\<close>

text \<open>Finding the page behind a user address, faulting it in when it is not there.\<close>

lemma fetch_page:
  assumes u: "uinv s root T ps" and va: "va < MAXVA"
  shows "\<exists>t T' ps' pa.
    kbind (walkaddr root va) (\<lambda>pa. if pa = 0 then vmfault root psz va else kret pa) s = Ok pa t \<and>
    uinv t root T' ps' \<and> mem_only s t \<and>
    (pa = 0 \<and> ubyte t T' = ubyte s T \<or>
     pa \<noteq> 0 \<and> bit (leaf (mem t) T' va) 0 \<and> bit (leaf (mem t) T' va) 4 \<and>
     pa = PTE2PA (leaf (mem t) T' va) \<and>
     (t = s \<and> T' = T \<or> ubyte s T va = None \<and>
       ubyte t T' = (\<lambda>vb. if vb < MAXVA \<and> vpn vb = vpn va then Some 0 else ubyte s T vb)))"
proof -
  let ?e = "leaf (mem s) T va"
  have inv: "vm_inv s root T ps" using u by (simp add: uinv_def)
  show ?thesis
  proof (cases "bit ?e 0 \<and> bit ?e 4")
    case True
    then have "PTE2PA ?e \<noteq> 0"
      using uinv_user_page(1) [OF u va] by (auto simp: ram_page_def)
    then show ?thesis
      using walkaddr_leaf [OF inv va] True u
      by (intro exI [of _ s] exI [of _ T] exI [of _ ps] exI [of _ "PTE2PA ?e"]) (simp add: kbind_Ok)
  next
    case False
    then have run: "kbind (walkaddr root va) (\<lambda>pa. if pa = 0 then vmfault root psz va else kret pa) s =
        vmfault root psz va s"
      using walkaddr_leaf [OF inv va] by (auto simp: kbind_Ok)
    from vmfault_spec [OF u va, of psz] obtain t T' ps' r where
      t: "vmfault root psz va s = Ok r t" "uinv t root T' ps'" "mem_only s t"
      and alt: "r = 0 \<and> ubyte t T' = ubyte s T \<or>
       r \<noteq> 0 \<and> page_aligned r \<and> va < psz \<and> \<not> bit ?e 0 \<and>
       ubyte t T' = (\<lambda>vb. if vb < MAXVA \<and> vpn vb = vpn va then Some 0 else ubyte s T vb) \<and>
       leaf (mem t) T' va = PA2PTE r OR (PTE_W OR PTE_U OR PTE_R) OR PTE_V" by blast
    from alt show ?thesis
    proof (elim disjE conjE)
      assume "r = 0" "ubyte t T' = ubyte s T"
      then show ?thesis
        using run t by (intro exI [of _ t] exI [of _ T'] exI [of _ ps'] exI [of _ r]) simp
    next
      assume r: "r \<noteq> 0" "page_aligned r" "\<not> bit ?e 0"
        "ubyte t T' = (\<lambda>vb. if vb < MAXVA \<and> vpn vb = vpn va then Some 0 else ubyte s T vb)"
        "leaf (mem t) T' va = PA2PTE r OR (PTE_W OR PTE_U OR PTE_R) OR PTE_V"
      moreover have "PTE2PA (PA2PTE r OR (PTE_W OR PTE_U OR PTE_R) OR PTE_V) = r"
        by (rule PTE2PA_PA2PTE [OF r(2)]) simp
      moreover have "ubyte s T va = None" using r(3) by (simp add: ubyte_def)
      ultimately show ?thesis
        using run t
        by (intro exI [of _ t] exI [of _ T'] exI [of _ ps'] exI [of _ r]) (simp add: pte_bit bit_or_iff)
    qed
  qed
qed

lemma at_mem_write_page:
  assumes "page_aligned pa" "k < 4096" "off + length xs \<le> 4096"
  shows "at (mem_write m (pa + of_nat off) xs) pa k =
    (if off \<le> k \<and> k < off + length xs then xs ! (k - off) else at m pa k)"
proof -
  let ?d = "pa + of_nat k - (pa + of_nat off)"
  have d: "?d = of_nat k - of_nat off" by simp
  show ?thesis
  proof (cases "off \<le> k")
    case True
    then have "unat ?d = k - off"
      using assms(2) by (simp add: d unat_of_nat_u64 flip: of_nat_diff)
    then show ?thesis using True by (auto simp: at_def mem_write_def)
  next
    case False
    have "\<not> unat ?d < length xs"
    proof
      assume l: "unat ?d < length xs"
      have "of_nat k = of_nat off + ?d" using d by simp
      then have "unat (of_nat k :: u64) = unat (of_nat (off + unat ?d) :: u64)" by simp
      moreover have "unat (of_nat (off + unat ?d) :: u64) = off + unat ?d"
        using l assms(3) by (intro unat_of_nat_u64) simp
      moreover have "unat (of_nat k :: u64) = k" using assms(2) by (intro unat_of_nat_u64) simp
      ultimately show False using False by simp
    qed
    then show ?thesis using False by (simp add: at_def mem_write_def)
  qed
qed

lemma user_write:
  fixes xs :: "u8 list"
  assumes u: "uinv s root T ps" and va: "va < MAXVA" "bit (leaf (mem s) T va) 0" "bit (leaf (mem s) T va) 4"
  defines "pa \<equiv> PTE2PA (leaf (mem s) T va)" and "off \<equiv> unat va mod 4096"
  assumes len: "off + length xs \<le> 4096"
  defines "t \<equiv> s\<lparr>mem := mem_write (mem s) (pa + of_nat off) xs\<rparr>"
  shows "uinv t root T ps"
    and "ubyte t T = (\<lambda>vb. if vb < MAXVA \<and> vpn vb = vpn va \<and> off \<le> unat vb mod 4096 \<and>
        unat vb mod 4096 < off + length xs then Some (xs ! (unat vb mod 4096 - off)) else ubyte s T vb)"
proof -
  note pa = uinv_user_page [OF u va, folded pa_def]
  have al: "page_aligned pa" using pa(1) by (simp add: ram_page_def)
  have inv: "vm_inv s root T ps" and ok: "pt_ok (mem s) root T" and fp: "free_pages s ps"
    using u by (auto simp: uinv_def vm_inv_def)
  have se: "same_except pa (mem s) (mem t)"
    using same_except_write [OF al len] by (simp add: t_def)
  have lf: "leaf (mem t) T = leaf (mem s) T" by (rule leaf_same_except [OF ok se pa(2)])
  have mo: "mem_only s t" by (simp add: t_def mem_only_def)
  have "free_pages t ps"
    using free_pages_same_outside [OF fp, of "{pa}" t] se pa(3) by (auto simp: t_def same_outside_except)
  then have "vm_inv t root T ps"
    using inv pt_ok_same_except [OF ok se pa(2)] by (simp add: vm_inv_def t_def)
  moreover have "owned (\<lambda>va. bit (leaf (mem t) T va) 4) t T ps"
    using u by (intro owned_smaller [OF _ mo]) (auto simp: uinv_def lf)
  ultimately show "uinv t root T ps" by (simp add: uinv_def)
  show "ubyte t T = (\<lambda>vb. if vb < MAXVA \<and> vpn vb = vpn va \<and> off \<le> unat vb mod 4096 \<and>
        unat vb mod 4096 < off + length xs then Some (xs ! (unat vb mod 4096 - off)) else ubyte s T vb)"
  proof
    fix vb
    show "ubyte t T vb = (if vb < MAXVA \<and> vpn vb = vpn va \<and> off \<le> unat vb mod 4096 \<and>
        unat vb mod 4096 < off + length xs then Some (xs ! (unat vb mod 4096 - off)) else ubyte s T vb)"
    proof (cases "vb < MAXVA \<and> vpn vb = vpn va")
      case True
      then have "leaf (mem s) T vb = leaf (mem s) T va" by (intro leaf_cong) simp
      then show ?thesis
        using True va at_mem_write_page [OF al _ len, of "unat vb mod 4096"]
        by (simp add: ubyte_def lf Let_def flip: pa_def) (simp add: t_def)
    next
      case False
      have "ubyte t T vb = ubyte s T vb"
      proof (rule ubyte_cong [OF u])
        show "same_outside {pa} (mem s) (mem t)" using se by (simp add: same_outside_except)
        assume vb: "vb < MAXVA" "bit (leaf (mem s) T vb) 0" "bit (leaf (mem s) T vb) 4"
        have o: "owned (\<lambda>va. bit (leaf (mem s) T va) 4) s T ps" using u by (simp add: uinv_def)
        from owned_inj [OF o vb(1) va(1) vb(3) va(3) vb(2) va(2)] False vb(1)
        show "PTE2PA (leaf (mem s) T vb) \<notin> {pa}" by (auto simp: pa_def)
      qed (simp add: lf)
      then show ?thesis using False by auto
    qed
  qed
qed

text \<open>
  What may happen to the user memory outside the addresses \<open>W\<close>: nothing, or pages of zeros
  appear where there was no memory.
\<close>

definition ugrown :: "(u64 \<Rightarrow> bool) \<Rightarrow> kstate \<Rightarrow> tree \<Rightarrow> kstate \<Rightarrow> tree \<Rightarrow> bool" where
  "ugrown W s T t T' \<longleftrightarrow>
     (\<forall>vb. W vb \<or> ubyte t T' vb = ubyte s T vb \<or> ubyte s T vb = None \<and> ubyte t T' vb = Some 0)"

abbreviation (input) bytes_at :: "u64 \<Rightarrow> nat \<Rightarrow> u64 \<Rightarrow> bool" where
  "bytes_at a n vb \<equiv> unat a \<le> unat vb \<and> unat vb < unat a + n"

lemma load_leaf:
  "bit (leaf (mem s) T va) 0 \<Longrightarrow> load64 (mem s) (leaf_addr T va) = leaf (mem s) T va"
  by (auto simp: leaf_def leaf_addr_def entry_def split: option.splits)

lemma page_offset: "a - PGROUNDDOWN a = of_nat (unat a mod 4096)"
  by (simp add: word_unat_eq_iff unat_page_offset unat_of_nat_u64)

lemma PGROUNDDOWN_MAXVA: "PGROUNDDOWN va < MAXVA \<longleftrightarrow> va < MAXVA"
  by (auto simp: word_less_nat_alt unat_PGROUNDDOWN)

lemma bytes_in_page:
  assumes "unat a mod 4096 + n \<le> 4096"
  shows "bytes_at a n vb \<longleftrightarrow> vpn vb = vpn a \<and> unat a mod 4096 \<le> unat vb mod 4096 \<and>
    unat vb mod 4096 < unat a mod 4096 + n"
proof
  have a: "unat a = vpn a * 4096 + unat a mod 4096" by simp
  have b: "unat vb = vpn vb * 4096 + unat vb mod 4096" by simp
  assume h: "bytes_at a n vb"
  then have h': "unat a \<le> unat vb" "unat vb < unat a + n" by auto
  have "4096 * Suc (vpn a) = vpn a * 4096 + 4096" by simp
  then have "vpn vb = vpn a"
    by (intro div_nat_eqI) (use h' assms a in linarith)+
  then show "vpn vb = vpn a \<and> unat a mod 4096 \<le> unat vb mod 4096 \<and>
    unat vb mod 4096 < unat a mod 4096 + n"
    using h a b by linarith
next
  have a: "unat a = vpn a * 4096 + unat a mod 4096" by simp
  have b: "unat vb = vpn vb * 4096 + unat vb mod 4096" by simp
  assume "vpn vb = vpn a \<and> unat a mod 4096 \<le> unat vb mod 4096 \<and>
    unat vb mod 4096 < unat a mod 4096 + n"
  then show "bytes_at a n vb" using a b by linarith
qed

lemma vpn_MAXVA: "vpn vb = vpn va \<Longrightarrow> va < MAXVA \<Longrightarrow> vb < MAXVA"
  using div_less_iff_less_mult [of 4096 "unat vb" 67108864]
    div_less_iff_less_mult [of 4096 "unat va" 67108864]
  by (simp add: word_less_nat_alt)

text \<open>One iteration of copyout.\<close>

lemma copyout_step:
  fixes dst :: u64
  assumes u: "uinv s root T ps" and src: "src \<noteq> []"
  defines "n \<equiv> min (to_page_end dst) (length src)"
  shows "\<exists>t T' ps'. uinv t root T' ps' \<and> mem_only s t \<and>
    (copyout root psz dst src s = Ok (- 1) t \<and> ugrown (\<lambda>_. False) s T t T' \<or>
     dst < MAXVA \<and> ugrown (bytes_at dst n) s T t T' \<and>
     (\<forall>vb. bytes_at dst n vb \<longrightarrow> ubyte t T' vb = Some (src ! (unat vb - unat dst))) \<and>
     copyout root psz dst src s = copyout root psz (PGROUNDDOWN dst + PGSIZE) (drop n src) t)"
proof (cases "dst < MAXVA")
  case False
  then have "copyout root psz dst src s = Ok (- 1) s"
    using src PGROUNDDOWN_MAXVA [of dst] by (subst copyout.simps) (auto simp: Let_def)
  then show ?thesis
    using u by (intro exI [of _ s] exI [of _ T] exI [of _ ps]) (simp add: ugrown_def)
next
  case True
  let ?va = "PGROUNDDOWN dst" and ?off = "unat dst mod 4096"
  have va: "?va < MAXVA" using True PGROUNDDOWN_MAXVA by simp
  from fetch_page [OF u va, of psz] obtain t T' ps' pa where
    f: "kbind (walkaddr root ?va) (\<lambda>pa. if pa = 0 then vmfault root psz ?va else kret pa) s = Ok pa t"
      "uinv t root T' ps'" "mem_only s t" and alt: "pa = 0 \<and> ubyte t T' = ubyte s T \<or>
     pa \<noteq> 0 \<and> bit (leaf (mem t) T' ?va) 0 \<and> bit (leaf (mem t) T' ?va) 4 \<and>
     pa = PTE2PA (leaf (mem t) T' ?va) \<and>
     (t = s \<and> T' = T \<or> ubyte s T ?va = None \<and>
       ubyte t T' = (\<lambda>vb. if vb < MAXVA \<and> vpn vb = vpn ?va then Some 0 else ubyte s T vb))"
    by blast
  let ?rest = "\<lambda>pa0. if pa0 = 0 then kret (- 1)
    else kbind (walk root ?va False) (\<lambda>pte. kbind (load_pte pte) (\<lambda>e. if e AND PTE_W = 0 then kret (- 1)
      else kthen (kmodify (\<lambda>s. s\<lparr>mem := mem_write (mem s) (pa0 + (dst - ?va)) (take n src)\<rparr>))
        (copyout root psz (?va + PGSIZE) (drop n src))))"
  have "copyout root psz dst src s = kbind (walkaddr root ?va) (\<lambda>pa.
      kbind (if pa = 0 then vmfault root psz ?va else kret pa) ?rest) s"
    unfolding n_def using src va [unfolded not_le [symmetric]]
    by (subst copyout.simps) (simp add: Let_def)
  also have "\<dots> = ?rest pa t"
    unfolding kbind_assoc [symmetric] by (simp add: kbind_def [of "kbind _ _"] f(1))
  finally have run: "copyout root psz dst src s = ?rest pa t" .
  have grown: "ugrown (\<lambda>_. False) s T t T'"
  proof (cases "ubyte t T' = ubyte s T")
    case False
    with alt have "ubyte s T ?va = None"
      "ubyte t T' = (\<lambda>vb. if vb < MAXVA \<and> vpn vb = vpn ?va then Some 0 else ubyte s T vb)" by auto
    moreover have "ubyte s T vb = None" if "vb < MAXVA" "vpn vb = vpn ?va" for vb
      using \<open>ubyte s T ?va = None\<close> leaf_cong [OF that(2), of "mem s" T] va
      by (auto simp: ubyte_def Let_def split: if_splits)
    ultimately show ?thesis by (simp add: ugrown_def)
  qed (simp add: ugrown_def)
  consider (fail) "pa = 0 \<or> \<not> bit (leaf (mem t) T' ?va) 2 \<and> bit (leaf (mem t) T' ?va) 0"
    | (ok) "pa = PTE2PA (leaf (mem t) T' ?va)" "pa \<noteq> 0" "bit (leaf (mem t) T' ?va) 0"
      "bit (leaf (mem t) T' ?va) 4" "bit (leaf (mem t) T' ?va) 2"
    using alt by blast
  then show ?thesis
  proof cases
    case fail
    have "?rest pa t = Ok (- 1) t"
      using fail walk_lookup [of t root T' ?va] f(2) va load_leaf [of t T' ?va]
      by (auto simp: uinv_def vm_inv_def load_pte_def flag_bit kbind_def [of "walk _ _ _"])
    with run have "copyout root psz dst src s = Ok (- 1) t" by simp
    then show ?thesis
      using f(2,3) grown by (intro exI [of _ t] exI [of _ T'] exI [of _ ps']) simp
  next
    case ok
    have lf: "leaf (mem t) T' dst = leaf (mem t) T' ?va" by (rule leaf_cong) simp
    let ?t = "t\<lparr>mem := mem_write (mem t) (PTE2PA (leaf (mem t) T' dst) + of_nat ?off) (take n src)\<rparr>"
    have len: "?off + length (take n src) \<le> 4096" by (simp add: n_def to_page_end_eq)
    have bits: "bit (leaf (mem t) T' dst) 0" "bit (leaf (mem t) T' dst) 4" using ok by (simp_all add: lf)
    note w = user_write [OF f(2) True bits len]
    have n: "length (take n src) = n" "n \<le> length src" by (simp_all add: n_def)
    have ub: "ubyte ?t T' vb = (if bytes_at dst n vb then Some (src ! (unat vb - unat dst)) else ubyte t T' vb)" for vb
    proof (cases "bytes_at dst n vb")
      case b: True
      then have m: "vpn vb = vpn dst" "?off \<le> unat vb mod 4096" "unat vb mod 4096 < ?off + n"
        using bytes_in_page [of dst n vb] len n by auto
      then have "unat vb mod 4096 - ?off = unat vb - unat dst"
        using b by (metis add_diff_cancel_left div_mult_mod_eq)
      moreover have "unat vb - unat dst < n" using b n(1) by linarith
      ultimately show ?thesis
        using b m vpn_MAXVA [OF m(1) True] by (simp add: w(2) n(2))
    next
      case b: False
      then show ?thesis using bytes_in_page [of dst n vb] len n by (auto simp: w(2))
    qed
    have "mem_only s ?t" by (rule mem_only_trans [OF f(3)]) (simp add: mem_only_def)
    moreover have "ugrown (bytes_at dst n) s T ?t T'"
      using grown ub by (auto simp: ugrown_def)
    moreover have "?rest pa t = copyout root psz (?va + PGSIZE) (drop n src) ?t"
      using ok walk_lookup [of t root T' ?va] f(2) va load_leaf [of t T' ?va]
      by (simp add: uinv_def vm_inv_def load_pte_def flag_bit kbind_def [of "walk _ _ _"] page_offset lf)
    ultimately show ?thesis
      using w(1) ub True run by (intro exI [of _ ?t] exI [of _ T'] exI [of _ ps']) simp
  qed
qed

lemma next_page_addr:
  assumes "dst < MAXVA"
  shows "unat (PGROUNDDOWN dst + PGSIZE) = unat dst + to_page_end dst"
proof -
  have "unat (PGROUNDDOWN dst) < unat MAXVA" using PGROUNDDOWN_MAXVA assms by (simp add: word_less_nat_alt)
  then have "unat (PGROUNDDOWN dst + PGSIZE) = unat (PGROUNDDOWN dst) + 4096" by (simp add: unat_word_ariths)
  also have "\<dots> = unat dst + to_page_end dst"
  proof -
    have "unat dst mod 4096 \<le> 4096" by (simp add: less_imp_le)
    then show ?thesis
      unfolding unat_PGROUNDDOWN to_page_end_eq using div_mult_mod_eq [of "unat dst" 4096] by linarith
  qed
  finally show ?thesis .
qed

lemma to_page_end_MAXVA:
  assumes "dst < MAXVA"
  shows "unat dst + to_page_end dst \<le> unat MAXVA"
proof -
  have "unat dst div 4096 < 67108864"
    using assms div_less_iff_less_mult [of 4096 "unat dst" 67108864] by (simp add: word_less_nat_alt)
  moreover have "unat dst = unat dst div 4096 * 4096 + unat dst mod 4096" "unat dst mod 4096 \<le> 4096"
    by (simp_all add: less_imp_le)
  ultimately have "unat dst + (4096 - unat dst mod 4096) \<le> 274877906944" by linarith
  then show ?thesis by (simp add: to_page_end_eq)
qed

lemma copyout_spec:
  assumes "uinv s root T ps"
  shows "\<exists>t T' ps' r. copyout root psz dst src s = Ok r t \<and> uinv t root T' ps' \<and> mem_only s t \<and>
    ugrown (bytes_at dst (length src)) s T t T' \<and>
    (r = - 1 \<or> r = 0 \<and> (src \<noteq> [] \<longrightarrow> unat dst + length src \<le> unat MAXVA) \<and>
      (\<forall>vb. bytes_at dst (length src) vb \<longrightarrow> ubyte t T' vb = Some (src ! (unat vb - unat dst))))"
  using assms
proof (induction src arbitrary: s T ps dst rule: length_induct)
  case (1 src)
  show ?case
  proof (cases "src = []")
    case True
    then have "copyout root psz dst src s = Ok 0 s" by (simp add: copyout.simps)
    then show ?thesis
      using True 1 by (intro exI [of _ s] exI [of _ T] exI [of _ ps] exI [of _ 0]) (auto simp: ugrown_def)
  next
    case False
    define n where "n = min (to_page_end dst) (length src)"
    have n: "0 < n" "n \<le> length src" using False by (simp_all add: n_def)
    let ?dst = "PGROUNDDOWN dst + PGSIZE"
    from copyout_step [OF "1.prems" False, of psz dst, folded n_def] obtain t T' ps' where
      t: "uinv t root T' ps'" "mem_only s t" and alt:
      "copyout root psz dst src s = Ok (- 1) t \<and> ugrown (\<lambda>_. False) s T t T' \<or>
       dst < MAXVA \<and> ugrown (bytes_at dst n) s T t T' \<and>
       (\<forall>vb. bytes_at dst n vb \<longrightarrow> ubyte t T' vb = Some (src ! (unat vb - unat dst))) \<and>
       copyout root psz dst src s = copyout root psz ?dst (drop n src) t" (is "?fail \<or> ?ok") by blast
    from alt show ?thesis
    proof
      assume ?fail
      then show ?thesis
        using t by (intro exI [of _ t] exI [of _ T'] exI [of _ ps'] exI [of _ "- 1 :: int"])
          (auto simp: ugrown_def)
    next
      assume ok: ?ok
      have "length (drop n src) < length src" using n False by simp
      from "1.IH" [rule_format, OF this t(1), of ?dst] obtain u T'' ps'' r where
        u: "copyout root psz ?dst (drop n src) t = Ok r u" "uinv u root T'' ps''" "mem_only t u"
          "ugrown (bytes_at ?dst (length src - n)) t T' u T''"
        and r: "r = - 1 \<or> r = 0 \<and> (drop n src \<noteq> [] \<longrightarrow> unat ?dst + (length src - n) \<le> unat MAXVA) \<and>
          (\<forall>vb. bytes_at ?dst (length src - n) vb \<longrightarrow> ubyte u T'' vb = Some (drop n src ! (unat vb - unat ?dst)))"
        by auto
      have next_dst: "unat ?dst = unat dst + n" if "n < length src"
        using next_page_addr [of dst] ok that by (auto simp: n_def)
      have split: "bytes_at dst (length src) vb \<longleftrightarrow>
          bytes_at dst n vb \<or> bytes_at ?dst (length src - n) vb" for vb
        using next_dst n by (cases "n < length src") auto
      have apart: "\<not> bytes_at ?dst (length src - n) vb" if "bytes_at dst n vb" for vb
        using next_dst that by (cases "n < length src") auto
      have first: "ubyte u T'' vb = Some (src ! (unat vb - unat dst))" if "bytes_at dst n vb" for vb
        using u(4) ok apart [OF that] that unfolding ugrown_def by (metis option.distinct(1))
      have "ugrown (bytes_at dst (length src)) s T u T''"
        using ok u(4) split unfolding ugrown_def by (metis option.distinct(1))
      moreover have "ubyte u T'' vb = Some (src ! (unat vb - unat dst))"
        if "r = 0" "bytes_at dst (length src) vb" for vb
      proof (cases "bytes_at dst n vb")
        case False
        then have b: "bytes_at ?dst (length src - n) vb" using that(2) split by blast
        then have "n < length src" by auto
        then have "ubyte u T'' vb = Some (src ! (n + (unat vb - unat ?dst)))"
          using r that(1) b n by auto
        then show ?thesis using next_dst [OF \<open>n < length src\<close>] b by simp
      qed (rule first)
      moreover have "unat dst + length src \<le> unat MAXVA" if "r = 0"
        using r that next_dst to_page_end_MAXVA [of dst] ok n by (cases "n < length src") (auto simp: n_def)
      ultimately show ?thesis
        using u(1,2) r ok mem_only_trans [OF t(2) u(3)]
        by (intro exI [of _ u] exI [of _ T''] exI [of _ ps''] exI [of _ r]) auto
    qed
  qed
qed

text \<open>copyin reads the user's bytes, page by page.\<close>

lemma mem_read_nth_eqI:
  "length bs = n \<Longrightarrow> (\<And>i. i < n \<Longrightarrow> m (p + of_nat i) = bs ! i) \<Longrightarrow> mem_read m p n = bs"
  by (rule nth_equalityI) (simp_all add: at_def)

lemma copyin_spec:
  assumes u: "uinv s root T ps"
    and "n = 0 \<or> unat src + n \<le> unat MAXVA" "length bs = n"
    and "\<And>vb. bytes_at src n vb \<Longrightarrow> ubyte s T vb = Some (bs ! (unat vb - unat src))"
  shows "copyin root psz src n s = Ok (0, bs) s"
  using assms(2-)
proof (induction n arbitrary: src bs rule: less_induct)
  case (less n)
  show ?case
  proof (cases "n = 0")
    case True
    then show ?thesis using less.prems by (simp add: copyin.simps)
  next
    case False
    let ?va = "PGROUNDDOWN src" and ?off = "unat src mod 4096"
    define k where "k = min (to_page_end src) n"
    have k: "0 < k" "k \<le> n" "?off + k \<le> 4096" using False by (simp_all add: k_def to_page_end_eq)
    have src: "src < MAXVA" using less.prems(1) False by (simp add: word_less_nat_alt)
    then have va: "?va < MAXVA" using PGROUNDDOWN_MAXVA by simp
    let ?e = "leaf (mem s) T ?va"
    have lf: "leaf (mem s) T vb = ?e" if "vpn vb = vpn src" for vb by (rule leaf_cong) (simp add: that)
    have "ubyte s T src = Some (bs ! 0)" using less.prems(3) [of src] False by simp
    then have e: "bit ?e 0" "bit ?e 4" using lf [of src] by (auto simp: ubyte_def Let_def split: if_splits)
    have inv: "vm_inv s root T ps" using u by (simp add: uinv_def)
    have pa: "PTE2PA ?e \<noteq> 0" "page_aligned (PTE2PA ?e)"
      using uinv_user_page(1) [OF u va e] by (auto simp: ram_page_def)
    have bytes: "mem_read (mem s) (PTE2PA ?e + (src - ?va)) k = take k bs"
    proof (rule mem_read_nth_eqI)
      fix i assume i: "i < k"
      let ?vb = "src + of_nat i"
      have "unat ?vb = unat src + i"
        using i k src by (simp add: unat_word_ariths unat_of_nat_u64 word_less_nat_alt)
      then have b: "bytes_at src k ?vb" "bytes_at src n ?vb" using i k by auto
      then have m: "vpn ?vb = vpn src" using bytes_in_page [OF k(3)] by blast
      moreover have "unat ?vb mod 4096 = ?off + i"
        using \<open>unat ?vb = unat src + i\<close> m div_mult_mod_eq [of "unat ?vb" 4096]
          div_mult_mod_eq [of "unat src" 4096] by linarith
      ultimately have "at (mem s) (PTE2PA ?e) (?off + i) = bs ! i"
        using less.prems(3) [OF b(2)] lf [OF m] e vpn_MAXVA [OF m src] \<open>unat ?vb = unat src + i\<close>
        by (simp add: ubyte_def)
      then show "mem s (PTE2PA ?e + (src - ?va) + of_nat i) = take k bs ! i"
        using i by (simp add: page_offset at_def add.assoc)
    qed (use less.prems k in simp)
    have rec: "copyin root psz (?va + PGSIZE) (n - k) s = Ok (0, drop k bs) s"
    proof (rule less.IH)
      have nd: "unat (?va + PGSIZE) = unat src + k" if "k < n"
        using next_page_addr [OF src] that by (auto simp: k_def)
      show "n - k < n" using k by simp
      show "n - k = 0 \<or> unat (?va + PGSIZE) + (n - k) \<le> unat MAXVA"
        using nd less.prems(1) k by (cases "k < n") auto
      show "length (drop k bs) = n - k" using less.prems(2) by simp
      fix vb assume vb: "bytes_at (?va + PGSIZE) (n - k) vb"
      then have "k < n" by auto
      then show "ubyte s T vb = Some (drop k bs ! (unat vb - unat (?va + PGSIZE)))"
        using vb nd less.prems(2) less.prems(3) [of vb] k by auto
    qed
    show ?thesis
      using False rec bytes pa(1) walkaddr_leaf [OF inv va] e
      by (subst copyin.simps)
        (simp add: Let_def k_def [symmetric] kbind_def [of "walkaddr _ _"] kbind_def [of "copyin _ _ _ _"])
  qed
qed

section \<open>A sample address space\<close>

text \<open>An empty address space with its root table at 0x80025000, and three free pages.\<close>

definition vm_sample :: kstate where
  "vm_sample = kstate0\<lparr>mem := store64 (store64 (\<lambda>_. 0) 0x80022000 0x80023000) 0x80023000 0x80024000,
     freelist := 0x80022000\<rparr>"

abbreviation (input) sample_root :: u64 where "sample_root \<equiv> 0x80025000"
abbreviation (input) sample_tree :: tree where "sample_tree \<equiv> [[] \<mapsto> sample_root]"
abbreviation (input) sample_free :: "u64 list" where "sample_free \<equiv> [0x80022000, 0x80023000, 0x80024000]"

lemma zero_memory: "load64 (\<lambda>_. 0) a = 0"
  by (simp add: load64_def mem_read_def at_def upt_rec le_word_def)

lemma vm_sample_load:
  assumes "page_aligned p" "i + 8 \<le> 4096" "p \<noteq> 0x80022000" "p \<noteq> 0x80023000"
  shows "load64 (mem vm_sample) (p + of_nat i) = 0"
proof -
  have al: "page_aligned 0x80022000" "page_aligned 0x80023000" by (simp_all add: page_aligned_def)
  show ?thesis
    using load64_store64_other [OF assms(1) al(2) assms(2), of 0]
      load64_store64_other [OF assms(1) al(1) assms(2), of 0] assms(3,4)
    by (simp add: vm_sample_def zero_memory)
qed

lemma vm_sample_inv: "uinv vm_sample sample_root sample_tree sample_free"
proof -
  have al: "page_aligned 0x80022000" "page_aligned 0x80023000" "page_aligned 0x80024000"
    "page_aligned sample_root"
    by (simp_all add: page_aligned_def)
  have "load64 (mem vm_sample) 0x80022000 = 0x80023000"
    using load64_store64_other [OF al(1,2), of 0 0 "store64 (\<lambda>_. 0) 0x80022000 0x80023000"]
    by (simp add: vm_sample_def)
  moreover have "load64 (mem vm_sample) 0x80023000 = 0x80024000"
    by (simp add: vm_sample_def)
  moreover have "load64 (mem vm_sample) 0x80024000 = 0"
    using vm_sample_load [OF al(3), of 0] by simp
  ultimately have "free_pages vm_sample sample_free"
    using al(1-3) by (simp add: free_pages_def ram_page_def) (simp add: vm_sample_def kstate0_def)
  moreover have ent: "entry (mem vm_sample) sample_root i = 0" if "i < 512" for i
    using vm_sample_load [OF al(4), of "8 * i"] that by (simp add: entry_def slot_def)
  then have "pt_ok (mem vm_sample) sample_root sample_tree"
    using al(4) by (auto simp: pt_ok_def child_ok_def)
  moreover have "leaf (mem vm_sample) sample_tree va = 0" for va
    by (simp add: leaf_def)
  moreover have "ram_page vm_sample sample_root"
    using al(4) by (simp add: ram_page_def vm_sample_def kstate0_def)
  ultimately show ?thesis
    by (simp add: uinv_def vm_inv_def owned_def)
qed

section \<open>Properties\<close>





lemma page_steps_pages:
  assumes "unat a + 4096 * unat n \<le> unat MAXVA"
  shows "page_steps a (a + n * PGSIZE) = page_range a (unat n)"
proof -
  have n: "unat (n * PGSIZE) = unat n * 4096"
    using assms by (simp add: unat_word_ariths)
  then have "unat (a + n * PGSIZE) = unat a + unat n * 4096"
    using assms by (simp add: unat_word_ariths)
  then show ?thesis
    by (auto simp: page_steps_def word_less_nat_alt page_range_def)
qed

text \<open>C28: uvmunmap with do_free removes the mappings of its range and nothing else, and gives
  back exactly the physical pages that were mapped there, each once: the free list grows by
  them, so no page leaks and none is freed twice.\<close>

theorem uvmunmap_frees_exactly_the_range:
  assumes "vm_inv s root T ps" "owned (in_range va (unat npages)) s T ps" "page_aligned va"
    and "unat va + 4096 * unat npages \<le> unat MAXVA"
  shows "wp (uvmunmap root va npages True) (\<lambda>_ t. \<exists>qs. vm_inv t root T (qs @ ps) \<and>
    set qs = range_pages (mem s) T va (unat npages) \<and>
    (\<forall>vb<MAXVA. bit (leaf (mem t) T vb) 0 \<longleftrightarrow>
       bit (leaf (mem s) T vb) 0 \<and> \<not> in_range va (unat npages) vb) \<and>
    (\<forall>vb<MAXVA. \<not> in_range va (unat npages) vb \<longrightarrow> leaf (mem t) T vb = leaf (mem s) T vb) \<and>
    same_outside (set qs \<union> ran T) (mem s) (mem t)) s"
proof -
  from unmap_range [OF assms] obtain t qs where
    "kfor (page_range va (unat npages)) (uvmunmap_page root True) s = Ok () t"
    and t: "vm_inv t root T (qs @ ps)" "set qs = range_pages (mem s) T va (unat npages)"
      "same_outside (set qs \<union> ran T) (mem s) (mem t)"
    and l: "\<forall>vb<MAXVA. leaf (mem t) T vb =
      (if in_range va (unat npages) vb \<and> bit (leaf (mem s) T vb) 0 then 0 else leaf (mem s) T vb)"
    by blast
  then have run: "uvmunmap root va npages True s = Ok () t"
    using assms(3) by (simp add: uvmunmap_def page_steps_pages [OF assms(4)] page_aligned_def)
  have "bit (leaf (mem t) T vb) 0 \<longleftrightarrow> bit (leaf (mem s) T vb) 0 \<and> \<not> in_range va (unat npages) vb"
    if "vb < MAXVA" for vb
    using l [rule_format, OF that] by (auto split: if_splits)
  moreover have "leaf (mem t) T vb = leaf (mem s) T vb"
    if "vb < MAXVA" "\<not> in_range va (unat npages) vb" for vb
    using l [rule_format, OF that(1)] that(2) by auto
  ultimately show ?thesis
    unfolding wp_def using t run by (intro exI [of _ "()"] exI [of _ t]) blast
qed

theorem uvmunmap_frees_exactly_the_range_witness:
  "wp (uvmunmap sample_root 0 2 True) (\<lambda>_ t. \<exists>qs. vm_inv t sample_root sample_tree (qs @ sample_free) \<and>
     set qs = range_pages (mem vm_sample) sample_tree 0 2) vm_sample"
proof -
  have "vm_inv vm_sample sample_root sample_tree sample_free"
    using vm_sample_inv by (simp add: uinv_def)
  moreover have "owned (in_range 0 (unat (2 :: u64))) vm_sample sample_tree sample_free"
    by (simp add: owned_def leaf_def)
  ultimately show ?thesis
    using uvmunmap_frees_exactly_the_range [of vm_sample sample_root sample_tree sample_free 0 2]
    by (auto simp: page_aligned_def elim!: wp_conseq)
qed

end
