(* ===== verification/Xv6_Printk.thy ===== *)
theory Xv6_Printk
  imports Xv6_State
begin

text \<open>
  kernel/printk.c: formatted output, on the text it sends to the console. The variable
  arguments are a list of machine words and strings; an argument of the wrong kind, undefined
  in C, reads as 0 or the null pointer.
\<close>

section \<open>Numbers\<close>

definition digits :: string where
  "digits = ''0123456789abcdef''"

text \<open>
  do buf[i++] = digits[x % base]; while ((x /= base) != 0);  the characters in the order they
  are stored. A base below 2 does not occur.
\<close>

function digit_loop :: "string \<Rightarrow> nat \<Rightarrow> nat \<Rightarrow> string" where
  "digit_loop tbl x base =
     (if base < 2 then []
      else tbl ! (x mod base) # (if x div base \<noteq> 0 then digit_loop tbl (x div base) base else []))"
  by pat_completeness auto
termination
proof (relation "measure (\<lambda>(tbl, x, base). x)")
  show "wf (measure (\<lambda>(tbl :: string, x :: nat, base :: nat). x))" by simp
  fix tbl :: string and x base :: nat
  assume "\<not> base < 2" "x div base \<noteq> 0"
  then have "x div base < x" by (intro div_less_dividend) (auto intro!: gr0I)
  then show "((tbl, x div base, base), (tbl, x, base)) \<in> measure (\<lambda>(tbl, x, base). x)" by simp
qed

declare digit_loop.simps [simp del]

text \<open>What printint leaves in buf, with the value \<open>xx\<close> as a 64-bit word.\<close>

definition printint_buf :: "string \<Rightarrow> u64 \<Rightarrow> nat \<Rightarrow> bool \<Rightarrow> string" where
  "printint_buf tbl xx base sign =
     (let neg = sign \<and> sint xx < 0; x = (if neg then - xx else xx) in
      digit_loop tbl (unat x) base @ (if neg then ''-'' else []))"

definition printint :: "u64 \<Rightarrow> nat \<Rightarrow> bool \<Rightarrow> string" where
  "printint xx base sign = rev (printint_buf digits xx base sign)"

text \<open>for (i = 0; i < 16; i++, x <<= 4) consputc(digits[x >> 60]);\<close>

fun ptr_loop :: "string \<Rightarrow> nat \<Rightarrow> u64 \<Rightarrow> string" where
  "ptr_loop tbl 0 x = []"
| "ptr_loop tbl (Suc n) x = tbl ! unat (drop_bit 60 x) # ptr_loop tbl n (push_bit 4 x)"

definition printptr :: "u64 \<Rightarrow> string" where
  "printptr x = ''0x'' @ ptr_loop digits 16 x"

section \<open>Formats\<close>

datatype arg = Num u64 | Str "string option"

text \<open>va_arg(ap, int), va_arg(ap, uint32), va_arg(ap, uint64), va_arg(ap, char *).\<close>

fun arg_word :: "arg list \<Rightarrow> u64" where
  "arg_word (Num x # ap) = x"
| "arg_word ap = 0"

fun arg_string :: "arg list \<Rightarrow> string option" where
  "arg_string (Str x # ap) = x"
| "arg_string ap = None"

definition arg_int :: "arg list \<Rightarrow> u64" where
  "arg_int ap = scast (ucast (arg_word ap) :: u32)"

definition arg_uint32 :: "arg list \<Rightarrow> u64" where
  "arg_uint32 ap = ucast (ucast (arg_word ap) :: u32)"

text \<open>A conversion: its meaning, and how many characters after the % it takes.\<close>

datatype conv =
    Int32 nat bool     \<comment> \<open>%d, %u, %x: base and sign\<close>
  | Int64 nat bool     \<comment> \<open>%ld, %llu and the like\<close>
  | Ptr | Chr | String | Percent
  | End                \<comment> \<open>the format ends after the %\<close>
  | Unknown char

definition char_at :: "string \<Rightarrow> nat \<Rightarrow> char option" where
  "char_at cs i = (if i < length cs then Some (cs ! i) else None)"

definition conversion :: "string \<Rightarrow> conv \<times> nat" where
  "conversion cs =
     (let c0 = char_at cs 0; c1 = char_at cs 1; c2 = char_at cs 2; l = Some (CHR ''l'') in
      if c0 = Some (CHR ''d'') then (Int32 10 True, 1)
      else if c0 = l \<and> c1 = Some (CHR ''d'') then (Int64 10 True, 2)
      else if c0 = l \<and> c1 = l \<and> c2 = Some (CHR ''d'') then (Int64 10 True, 3)
      else if c0 = Some (CHR ''u'') then (Int32 10 False, 1)
      else if c0 = l \<and> c1 = Some (CHR ''u'') then (Int64 10 False, 2)
      else if c0 = l \<and> c1 = l \<and> c2 = Some (CHR ''u'') then (Int64 10 False, 3)
      else if c0 = Some (CHR ''x'') then (Int32 16 False, 1)
      else if c0 = l \<and> c1 = Some (CHR ''x'') then (Int64 16 False, 2)
      else if c0 = l \<and> c1 = l \<and> c2 = Some (CHR ''x'') then (Int64 16 False, 3)
      else if c0 = Some (CHR ''p'') then (Ptr, 1)
      else if c0 = Some (CHR ''c'') then (Chr, 1)
      else if c0 = Some (CHR ''s'') then (String, 1)
      else if c0 = Some (CHR ''%'') then (Percent, 1)
      else (case c0 of None \<Rightarrow> (End, 0) | Some c \<Rightarrow> (Unknown c, 1)))"

text \<open>The text of one conversion, and the arguments left after it.\<close>

definition convert :: "conv \<Rightarrow> arg list \<Rightarrow> string \<times> arg list" where
  "convert k ap =
     (case k of
        Int32 base sign \<Rightarrow> (printint (if sign then arg_int ap else arg_uint32 ap) base sign, tl ap)
      | Int64 base sign \<Rightarrow> (printint (arg_word ap) base sign, tl ap)
      | Ptr \<Rightarrow> (printptr (arg_word ap), tl ap)
      | Chr \<Rightarrow> ([char_of (unat (arg_uint32 ap))], tl ap)
      | String \<Rightarrow> (case arg_string ap of None \<Rightarrow> ''(null)'' | Some s \<Rightarrow> s, tl ap)
      | Percent \<Rightarrow> (''%'', ap)
      | End \<Rightarrow> ([], ap)
      | Unknown c \<Rightarrow> ([CHR ''%'', c], ap))"

function printk_text :: "string \<Rightarrow> arg list \<Rightarrow> string" where
  "printk_text [] ap = []"
| "printk_text (c # cs) ap =
     (if c \<noteq> CHR ''%'' then c # printk_text cs ap
      else (let (k, n) = conversion cs; (t, ap') = convert k ap in
            if k = End then [] else t @ printk_text (drop n cs) ap'))"
  by pat_completeness auto
termination
  by (relation "measure (\<lambda>(cs, ap). length cs)") auto

text \<open>
  kernel/uart.c's uartputc_sync, once the device is ready for the byte, and kernel/console.c's
  consputc, which is given 0x100 to erase a character.
\<close>

definition uartputc_sync :: "nat \<Rightarrow> unit kernel" where
  "uartputc_sync c = kmodify (\<lambda>s. s\<lparr>console_out := console_out s @ [char_of c]\<rparr>)"

abbreviation (input) BACKSPACE :: nat where "BACKSPACE \<equiv> 0x100"

definition consputc :: "nat \<Rightarrow> unit kernel" where
  "consputc c =
     (if c = BACKSPACE then kthen (uartputc_sync 8) (kthen (uartputc_sync 32) (uartputc_sync 8))
      else uartputc_sync c)"

definition printk :: "string \<Rightarrow> arg list \<Rightarrow> unit kernel" where
  "printk fmt ap = kfor (printk_text fmt ap) (\<lambda>c. consputc (of_char c))"

lemma consputc_char: "consputc (of_char c) s = Ok () (s\<lparr>console_out := console_out s @ [c]\<rparr>)"
proof -
  have "of_char c \<noteq> (256 :: nat)" using nat_of_char_less_256 [of c] by linarith
  then show ?thesis by (simp add: consputc_def uartputc_sync_def)
qed

lemma kfor_consputc:
  "kfor t (\<lambda>c. consputc (of_char c)) s = Ok () (s\<lparr>console_out := console_out s @ t\<rparr>)"
  by (induction t arbitrary: s) (simp_all add: kthen_def kbind_def consputc_char)

lemma printk_apply [simp]:
  "printk fmt ap s = Ok () (s\<lparr>console_out := console_out s @ printk_text fmt ap\<rparr>)"
  by (simp add: printk_def kfor_consputc)

abbreviation (input) newline :: char where "newline \<equiv> CHR 0x0a"

section \<open>Correctness of printint\<close>

lemma sint_u64: "sint (x::u64) = (if sint x < 0 then uint x - 2^64 else uint x)"
proof -
  have t: "take_bit 64 (uint x) = uint x"
    using uint_lt2p [of x] by (intro take_bit_int_eq_self) auto
  have "uint x < 2^64" using uint_lt2p [of x] by simp
  then show ?thesis
    by (cases "bit (uint x) 63") (auto simp: sint_uint signed_take_bit_eq_take_bit_minus t)
qed
lemma uint_minus_neg: "sint (x::u64) < 0 \<Longrightarrow> uint (- x) = - sint x"
proof -
  assume a: "sint x < 0"
  have "x \<noteq> 0" using a by auto
  then have "uint x \<noteq> 0" by (simp add: uint_0_iff)
  then have "uint x > 0" using uint_ge_0 [of x] by linarith
  moreover have "uint x < 2^64" using uint_lt2p [of x] by simp
  ultimately have "(- uint x) mod 2^64 = 2^64 - uint x"
    by (simp add: zmod_zminus1_eq_if)
  then show ?thesis using a sint_u64 [of x] by (simp add: uint_word_ariths)
qed

text \<open>Reading digits back, most significant first.\<close>

definition digit_value :: "string \<Rightarrow> char \<Rightarrow> nat" where
  "digit_value tbl c = length (takeWhile (\<lambda>d. d \<noteq> c) tbl)"

fun read_digits :: "(char \<Rightarrow> nat) \<Rightarrow> nat \<Rightarrow> nat \<Rightarrow> string \<Rightarrow> nat" where
  "read_digits val base acc [] = acc"
| "read_digits val base acc (c # cs) = read_digits val base (base * acc + val c) cs"

lemma read_digits_append:
  "read_digits val base acc (xs @ ys) = read_digits val base (read_digits val base acc xs) ys"
  by (induction xs arbitrary: acc) auto

lemma read_digit_loop:
  assumes "2 \<le> base" "\<And>i. i < base \<Longrightarrow> val (tbl ! i) = i"
  shows "read_digits val base 0 (rev (digit_loop tbl x base)) = x"
proof (induction x rule: less_induct)
  case (less x)
  show ?case
  proof (cases "x div base = 0")
    case True
    then have "x < base" using assms(1) by (simp add: div_eq_0_iff)
    then show ?thesis using assms by (simp add: digit_loop.simps [of tbl x base])
  next
    case False
    then have "x div base < x" using assms(1) by (intro div_less_dividend) (auto intro!: gr0I)
    from less.IH [OF this] False show ?thesis
      using assms(1) assms(2) [of "x mod base"]
      by (simp add: digit_loop.simps [of tbl x base] read_digits_append)
  qed
qed

lemma length_digit_loop:
  assumes "2 \<le> base"
  shows "x < base ^ k \<Longrightarrow> 0 < k \<Longrightarrow> length (digit_loop tbl x base) \<le> k"
proof (induction k arbitrary: x)
  case 0
  then show ?case by simp
next
  case (Suc k)
  show ?case
  proof (cases "x div base = 0")
    case True
    then show ?thesis using assms by (simp add: digit_loop.simps [of tbl x base])
  next
    case False
    have "x div base < base ^ k"
      using Suc.prems(1) assms by (simp add: div_less_iff_less_mult mult.commute)
    moreover have "0 < k" using calculation False by (cases k) auto
    ultimately show ?thesis
      using Suc.IH [of "x div base"] assms False by (simp add: digit_loop.simps [of tbl x base])
  qed
qed


text \<open>The number a text denotes, with an optional sign.\<close>

definition read_number :: "string \<Rightarrow> nat \<Rightarrow> string \<Rightarrow> int" where
  "read_number tbl base t =
     (case t of [] \<Rightarrow> 0
      | c # cs \<Rightarrow> if c = CHR ''-'' then - int (read_digits (digit_value tbl) base 0 cs)
                  else int (read_digits (digit_value tbl) base 0 t))"

lemma digit_loop_nonempty [simp]: "2 \<le> base \<Longrightarrow> digit_loop tbl x base \<noteq> []"
  by (subst digit_loop.simps) simp

lemma set_digit_loop:
  assumes "2 \<le> base" "base \<le> length tbl"
  shows "set (digit_loop tbl x base) \<subseteq> set tbl"
proof (induction x rule: less_induct)
  case (less x)
  have "tbl ! (x mod base) \<in> set tbl"
    using assms by (intro nth_mem) (auto intro: less_le_trans [OF mod_less_divisor])
  moreover have "x div base < x" if "x div base \<noteq> 0"
    using assms(1) that by (intro div_less_dividend) (auto intro!: gr0I)
  ultimately show ?case
    using less.IH [of "x div base"] by (subst digit_loop.simps) auto
qed

lemma digit_value_nth:
  assumes "distinct tbl" "i < length tbl"
  shows "digit_value tbl (tbl ! i) = i"
proof -
  have "takeWhile (\<lambda>d. d \<noteq> tbl ! i) tbl = take i tbl"
    using assms by (intro takeWhile_eq_take_P_nth) (auto simp: nth_eq_iff_index_eq)
  then show ?thesis using assms by (simp add: digit_value_def)
qed

text \<open>
  printint for any table of digits that has no minus sign: the text reads back as the value, and
  it fits the 20 bytes of buf.
\<close>

lemma read_printint_buf:
  assumes "2 \<le> base" "base \<le> length tbl" "distinct tbl" "CHR ''-'' \<notin> set tbl"
  shows "read_number tbl base (rev (printint_buf tbl xx base sign)) = (if sign then sint xx else uint xx)"
proof -
  have rd: "read_digits (digit_value tbl) base 0 (rev (digit_loop tbl x base)) = x" for x
    using assms by (intro read_digit_loop digit_value_nth) auto
  have pos: "read_number tbl base (rev (digit_loop tbl x base)) = int x" for x
  proof -
    obtain c cs where c: "rev (digit_loop tbl x base) = c # cs"
      using assms(1) by (cases "rev (digit_loop tbl x base)") auto
    then have "c \<in> set (digit_loop tbl x base)" by (metis list.set_intros(1) set_rev)
    then have "c \<noteq> CHR ''-''" using set_digit_loop [OF assms(1,2)] assms(4) by auto
    then show ?thesis using c rd [of x] by (simp add: read_number_def)
  qed
  show ?thesis
  proof (cases "sign \<and> sint xx < 0")
    case True
    have "int (unat (- xx)) = - sint xx" using True uint_minus_neg [of xx] by simp
    then show ?thesis using True rd by (simp add: printint_buf_def Let_def read_number_def)
  next
    case False
    have "sint xx = uint xx" if "0 \<le> sint xx" using that sint_u64 [of xx] by simp
    then show ?thesis using False pos by (auto simp: printint_buf_def Let_def)
  qed
qed

lemma length_printint_buf:
  assumes "10 \<le> base"
  shows "length (printint_buf tbl xx base sign) \<le> 20"
proof (cases "sign \<and> sint xx < 0")
  case True
  have "int (unat (- xx)) = - sint xx" using True uint_minus_neg [of xx] by simp
  moreover have "- (2 ^ 63) \<le> sint xx" using sint_greater_eq [of xx] by simp
  ultimately have "int (unat (- xx)) \<le> 2 ^ 63" by linarith
  also have "\<dots> < (10 :: int) ^ 19" by simp
  finally have "int (unat (- xx)) < 10 ^ 19" .
  then have "unat (- xx) < 10 ^ 19" by (metis of_nat_less_iff of_nat_numeral of_nat_power)
  also have "\<dots> \<le> base ^ 19" using assms by (rule power_mono) simp
  finally have "length (digit_loop tbl (unat (- xx)) base) \<le> 19"
    using assms by (intro length_digit_loop) auto
  then show ?thesis using True by (simp add: printint_buf_def Let_def)
next
  case False
  have "unat xx < 2 ^ 64" using unsigned_less [of xx] by simp
  then have "unat xx < 10 ^ 20" by simp
  also have "\<dots> \<le> base ^ 20" using assms by (rule power_mono) simp
  finally have "length (digit_loop tbl (unat xx) base) \<le> 20"
    using assms by (intro length_digit_loop) auto
  then show ?thesis using False by (auto simp: printint_buf_def Let_def)
qed

text \<open>C33: printint prints the number it is given. In base 10 and 16, signed or unsigned, the text
  reads back as the value, the most negative one included, and the digits and sign it stores
  never pass the end of its 20-byte buffer.
\<close>

theorem printint_roundtrip:
  assumes "base = 10 \<or> base = 16"
  shows "read_number digits base (printint xx base sign) = (if sign then sint xx else uint xx)
    \<and> length (printint_buf digits xx base sign) \<le> 20"
  using assms read_printint_buf [of base digits xx sign] length_printint_buf [of base digits xx sign]
  by (auto simp: printint_def digits_def)

theorem printint_roundtrip_witness:
  "(10 :: nat) = 10
    \<and> read_number digits 10 (printint (2 ^ 63) 10 True) = (if True then sint (2 ^ 63 :: u64) else uint (2 ^ 63 :: u64))
    \<and> length (printint_buf digits (2 ^ 63) 10 True) \<le> 20"
  using printint_roundtrip [of 10 "2 ^ 63" True] by simp

end
