(* ===== verification/Xv6_Proc.thy ===== *)
theory Xv6_Proc
  imports Xv6_Uvm Xv6_Printk
begin

text \<open>
  kernel/proc.c: the process table, sleeping and waking, killing, waiting, and the scheduler's
  pass over the table. A process is its index in the table; \<open>cur\<close> is the process myproc()
  returns. Operations that need the file system (kfork, kexit, userinit, forkret) are in
  Xv6_Process.
\<close>

section \<open>The process table\<close>

definition myproc :: "nat kernel" where
  "myproc = kgets cur"

definition get_proc :: "nat \<Rightarrow> proc kernel" where
  "get_proc i = kgets (\<lambda>s. procs s ! i)"

definition set_proc :: "nat \<Rightarrow> (proc \<Rightarrow> proc) \<Rightarrow> unit kernel" where
  "set_proc i f = kmodify (upd_proc i f)"

text \<open>The first process in table order that satisfies \<open>P\<close>.\<close>

definition find_proc :: "(proc \<Rightarrow> bool) \<Rightarrow> proc list \<Rightarrow> nat option" where
  "find_proc P ps = List.find (\<lambda>i. P (ps ! i)) [0..<length ps]"

definition procinit :: "unit kernel" where
  "procinit = kfor [0..<NPROC] (\<lambda>i.
     set_proc i (\<lambda>p. p\<lparr>p_state := UNUSED, p_kstack := KSTACK i\<rparr>))"

definition allocpid :: "int kernel" where
  "allocpid =
     kbind (kgets nextpid) (\<lambda>pid.
     kthen (kmodify (\<lambda>s. s\<lparr>nextpid := nextpid s + 1\<rparr>)) (kret pid))"

definition proc_pagetable :: "nat \<Rightarrow> u64 kernel" where
  "proc_pagetable i =
     kbind uvmcreate (\<lambda>pagetable.
     if pagetable = 0 then kret 0
     else kbind (kgets trampoline) (\<lambda>tr.
       kbind (mappages pagetable TRAMPOLINE PGSIZE tr (PTE_R OR PTE_X)) (\<lambda>r.
       if r < 0 then kthen (uvmfree pagetable 0) (kret 0)
       else kbind (get_proc i) (\<lambda>p.
         kbind (mappages pagetable TRAPFRAME PGSIZE (p_trapframe p) (PTE_R OR PTE_W)) (\<lambda>r2.
         if r2 < 0
         then kthen (uvmunmap pagetable TRAMPOLINE 1 False) (kthen (uvmfree pagetable 0) (kret 0))
         else kret pagetable)))))"

definition proc_freepagetable :: "u64 \<Rightarrow> u64 \<Rightarrow> unit kernel" where
  "proc_freepagetable pagetable sz =
     kthen (uvmunmap pagetable TRAMPOLINE 1 False)
     (kthen (uvmunmap pagetable TRAPFRAME 1 False)
     (uvmfree pagetable sz))"

definition freeproc :: "nat \<Rightarrow> unit kernel" where
  "freeproc i =
     kbind (get_proc i) (\<lambda>p.
     kthen (kwhen (p_trapframe p \<noteq> 0) (kfree (p_trapframe p)))
     (kthen (set_proc i (\<lambda>p. p\<lparr>p_trapframe := 0\<rparr>))
     (kthen (kwhen (p_pagetable p \<noteq> 0) (proc_freepagetable (p_pagetable p) (p_sz p)))
     (set_proc i (\<lambda>p. p\<lparr>p_pagetable := 0, p_sz := 0, p_pid := 0, p_name := (p_name p)[0 := 0],
        p_chan := None, p_killed := False, p_xstate := 0, p_state := UNUSED\<rparr>)))))"

text \<open>\<open>None\<close>: allocproc returned 0.\<close>

definition allocproc :: "nat option kernel" where
  "allocproc =
     kbind (kgets (\<lambda>s. find_proc (\<lambda>p. p_state p = UNUSED) (procs s))) (\<lambda>found.
     case found of None \<Rightarrow> kret None
     | Some i \<Rightarrow>
       kbind allocpid (\<lambda>pid.
       kthen (set_proc i (\<lambda>p. p\<lparr>p_pid := pid, p_state := USED\<rparr>))
       (kbind kalloc (\<lambda>tf.
        kthen (set_proc i (\<lambda>p. p\<lparr>p_trapframe := tf\<rparr>))
        (if tf = 0 then kthen (freeproc i) (kret None)
         else kbind (proc_pagetable i) (\<lambda>pt.
           kthen (set_proc i (\<lambda>p. p\<lparr>p_pagetable := pt\<rparr>))
           (if pt = 0 then kthen (freeproc i) (kret None)
            else kbind (kgets forkret_addr) (\<lambda>ra.
              kthen (set_proc i (\<lambda>p. p\<lparr>p_context :=
                \<lparr>ctx_ra = ra, ctx_sp = p_kstack p + PGSIZE, ctx_s = replicate 12 0\<rparr>\<rparr>))
              (kret (Some i))))))))))"

text \<open>n is a C int, sign-extended when added to the 64-bit size.\<close>

definition growproc :: "int \<Rightarrow> int kernel" where
  "growproc n =
     kbind myproc (\<lambda>i.
     kbind (get_proc i) (\<lambda>p.
     let sz = p_sz p; newsz = sz + word_of_int n in
     if n > 0 then
       (if newsz > TRAPFRAME then kret (- 1)
        else kbind (uvmalloc (p_pagetable p) sz newsz PTE_W) (\<lambda>sz'.
          if sz' = 0 then kret (- 1)
          else kthen (set_proc i (\<lambda>p. p\<lparr>p_sz := sz'\<rparr>)) (kret 0)))
     else if n < 0 then
       kbind (uvmdealloc (p_pagetable p) sz newsz) (\<lambda>sz'.
       kthen (set_proc i (\<lambda>p. p\<lparr>p_sz := sz'\<rparr>)) (kret 0))
     else kthen (set_proc i (\<lambda>p. p\<lparr>p_sz := sz\<rparr>)) (kret 0)))"

section \<open>Sleeping and waking\<close>

text \<open>A null channel is \<open>None\<close>.\<close>

definition sleep_prepare :: "chan option \<Rightarrow> unit kernel" where
  "sleep_prepare ch =
     kthen (kpanic_if (\<lambda>_. ch = None) ''sleep_prepare: zero chan'')
     (kbind myproc (\<lambda>i. set_proc i (\<lambda>p. p\<lparr>p_chan := ch\<rparr>)))"

text \<open>
  The check of the process state in sched, then the switch to the scheduler; the checks of the
  lock and interrupt state belong to Xv6_Spinlock.
\<close>

definition sched :: "'a kernel" where
  "sched = (\<lambda>s. if p_state (procs s ! cur s) = RUNNING then Panic ''sched RUNNING'' else Sleep s)"

definition yield :: "unit kernel" where
  "yield = kbind myproc (\<lambda>i. kthen (set_proc i (\<lambda>p. p\<lparr>p_state := RUNNABLE\<rparr>)) sched)"

definition sleep :: "unit kernel" where
  "sleep =
     kbind myproc (\<lambda>i.
     kbind (get_proc i) (\<lambda>p.
     if p_chan p \<noteq> None
     then kthen (set_proc i (\<lambda>p. p\<lparr>p_state := SLEEPING\<rparr>)) sched
     else kret ()))"

definition wake_proc :: "chan option \<Rightarrow> proc \<Rightarrow> proc" where
  "wake_proc ch p =
     (if p_chan p = ch
      then p\<lparr>p_chan := None, p_state := (if p_state p = SLEEPING then RUNNABLE else p_state p)\<rparr>
      else p)"

definition wakeup :: "chan option \<Rightarrow> unit kernel" where
  "wakeup ch = kfor [0..<NPROC] (\<lambda>i. set_proc i (wake_proc ch))"

section \<open>Killing\<close>

definition kkill :: "int \<Rightarrow> int kernel" where
  "kkill pid =
     kbind (kgets (\<lambda>s. find_proc (\<lambda>p. p_pid p = pid) (procs s))) (\<lambda>found.
     case found of None \<Rightarrow> kret (- 1)
     | Some i \<Rightarrow>
       kthen (set_proc i (\<lambda>p. p\<lparr>p_killed := True,
         p_state := (if p_state p = SLEEPING then RUNNABLE else p_state p)\<rparr>))
       (kret 0))"

definition setkilled :: "nat \<Rightarrow> unit kernel" where
  "setkilled i = set_proc i (\<lambda>p. p\<lparr>p_killed := True\<rparr>)"

definition killed :: "nat \<Rightarrow> bool kernel" where
  "killed i = kbind (get_proc i) (\<lambda>p. kret (p_killed p))"

section \<open>Exiting and waiting\<close>

definition reparent :: "nat \<Rightarrow> unit kernel" where
  "reparent p = kfor [0..<NPROC] (\<lambda>i.
     kbind (get_proc i) (\<lambda>pp.
     if p_parent pp = Some p
     then kbind (kgets initproc) (\<lambda>ip.
       kthen (set_proc i (\<lambda>p. p\<lparr>p_parent := ip\<rparr>)) (wakeup (map_option ChProc ip)))
     else kret ()))"

text \<open>The scan of kwait over the table.\<close>

datatype wait_scan = Reaped int | Copy_failed | No_zombie bool

fun kwait_scan :: "nat list \<Rightarrow> bool \<Rightarrow> u64 \<Rightarrow> wait_scan kernel" where
  "kwait_scan [] havekids addr = kret (No_zombie havekids)"
| "kwait_scan (i # is) havekids addr =
     kbind myproc (\<lambda>me.
     kbind (get_proc i) (\<lambda>pp.
     if p_parent pp \<noteq> Some me then kwait_scan is havekids addr
     else if p_state pp \<noteq> ZOMBIE then kwait_scan is True addr
     else kbind (get_proc me) (\<lambda>p.
       kbind (if addr \<noteq> 0
              then copyout (p_pagetable p) (p_sz p) addr (le_bytes 4 (word_of_int (p_xstate pp) :: u32))
              else kret 0) (\<lambda>r.
       if addr \<noteq> 0 \<and> r < 0 then kret Copy_failed
       else kthen (set_proc i (\<lambda>p. p\<lparr>p_parent := None\<rparr>))
            (kthen (freeproc i) (kret (Reaped (p_pid pp))))))))"

text \<open>One pass of the loop of kwait; when no child has exited the process goes to sleep.\<close>

definition kwait :: "u64 \<Rightarrow> int kernel" where
  "kwait addr =
     kbind (kwait_scan [0..<NPROC] False addr) (\<lambda>r.
     case r of Reaped pid \<Rightarrow> kret pid
     | Copy_failed \<Rightarrow> kret (- 1)
     | No_zombie havekids \<Rightarrow>
       kbind myproc (\<lambda>me.
       kbind (killed me) (\<lambda>k.
       if \<not> havekids \<or> k then kret (- 1)
       else kthen (sleep_prepare (Some (ChProc me))) (kthen sleep (kret 0)))))"

section \<open>Copying to and from a process\<close>

text \<open>
  The flag user_dst (or user_src) and the pointer, as one value. \<open>Var\<close> is a local variable of the
  calling kernel function: a source holds its bytes, and the bytes stored in a destination are
  part of what readi returns.
\<close>

datatype place = User u64 | Kern u64 | Var "u8 list"

definition either_copyout :: "place \<Rightarrow> u8 list \<Rightarrow> int kernel" where
  "either_copyout dst src =
     kbind myproc (\<lambda>i.
     kbind (get_proc i) (\<lambda>p.
     case dst of User a \<Rightarrow> copyout (p_pagetable p) (p_sz p) a src
     | Kern a \<Rightarrow> kthen (kmodify (\<lambda>s. s\<lparr>mem := mem_write (mem s) a src\<rparr>)) (kret 0)
     | Var _ \<Rightarrow> kret 0))"

definition either_copyin :: "place \<Rightarrow> nat \<Rightarrow> (int \<times> u8 list) kernel" where
  "either_copyin src len =
     kbind myproc (\<lambda>i.
     kbind (get_proc i) (\<lambda>p.
     case src of User a \<Rightarrow> copyin (p_pagetable p) (p_sz p) a len
     | Kern a \<Rightarrow> kgets (\<lambda>s. (0, mem_read (mem s) a len))
     | Var bs \<Rightarrow> kret (0, take len bs)))"

text \<open>dst += m; src += m;\<close>

fun advance :: "place \<Rightarrow> u32 \<Rightarrow> place" where
  "advance (User a) m = User (a + ucast m)"
| "advance (Kern a) m = Kern (a + ucast m)"
| "advance (Var bs) m = Var (drop (unat m) bs)"

section \<open>The scheduler\<close>

text \<open>
  One pass of a CPU's scheduler loop. \<open>run\<close> is what happens from the switch to the process until
  it switches back; the result says whether some process was run.
\<close>

fun scheduler_pass :: "(nat \<Rightarrow> kstate \<Rightarrow> kstate) \<Rightarrow> nat list \<Rightarrow> bool \<Rightarrow> kstate \<Rightarrow> bool \<times> kstate" where
  "scheduler_pass run [] found s = (found, s)"
| "scheduler_pass run (i # is) found s =
     (if p_state (procs s ! i) = RUNNABLE
      then scheduler_pass run is True
        (run i ((upd_proc i (\<lambda>p. p\<lparr>p_state := RUNNING\<rparr>) s)\<lparr>cur := i\<rparr>))
      else scheduler_pass run is found s)"

definition scheduler_round :: "(nat \<Rightarrow> kstate \<Rightarrow> kstate) \<Rightarrow> kstate \<Rightarrow> bool \<times> kstate" where
  "scheduler_round run s = scheduler_pass run [0..<NPROC] False s"

end
