(* ===== verification/Xv6_Bio.thy ===== *)
theory Xv6_Bio
  imports Xv6_Proc
begin

text \<open>
  kernel/sleeplock.c and kernel/bio.c: sleep locks and the buffer cache. The NBUF buffers and
  the list head (index NBUF) form a doubly linked list through \<open>b_next\<close> and \<open>b_prev\<close>, most recently
  used first. The disk is a map from block numbers to blocks; \<open>disk_rw\<close> is the
  effect of a completed call of virtio_disk_rw, and Xv6_Virtio shows that the driver has it.
\<close>

section \<open>Sleep locks\<close>

text \<open>
  A sleep lock lives in a buffer or an inode: the operations take its getter, its updater and
  the channel that stands for its address.
\<close>

definition initsleeplock :: "((sleeplock \<Rightarrow> sleeplock) \<Rightarrow> kstate \<Rightarrow> kstate) \<Rightarrow> unit kernel" where
  "initsleeplock upd = kmodify (upd (\<lambda>_. \<lparr>sl_locked = False, sl_pid = 0\<rparr>))"

text \<open>One test of the loop of acquiresleep; a taken lock puts the process to sleep.\<close>

definition acquiresleep ::
  "(kstate \<Rightarrow> sleeplock) \<Rightarrow> ((sleeplock \<Rightarrow> sleeplock) \<Rightarrow> kstate \<Rightarrow> kstate) \<Rightarrow> chan \<Rightarrow> unit kernel" where
  "acquiresleep get upd ch =
     kbind (kgets get) (\<lambda>lk.
     if sl_locked lk then kthen (sleep_prepare (Some ch)) sleep
     else kbind myproc (\<lambda>i.
       kbind (get_proc i) (\<lambda>p.
       kmodify (upd (\<lambda>_. \<lparr>sl_locked = True, sl_pid = p_pid p\<rparr>)))))"

definition releasesleep ::
  "((sleeplock \<Rightarrow> sleeplock) \<Rightarrow> kstate \<Rightarrow> kstate) \<Rightarrow> chan \<Rightarrow> unit kernel" where
  "releasesleep upd ch =
     kthen (kmodify (upd (\<lambda>_. \<lparr>sl_locked = False, sl_pid = 0\<rparr>))) (wakeup (Some ch))"

definition holdingsleep :: "(kstate \<Rightarrow> sleeplock) \<Rightarrow> kstate \<Rightarrow> bool" where
  "holdingsleep get s \<longleftrightarrow> sl_locked (get s) \<and> sl_pid (get s) = p_pid (procs s ! cur s)"

section \<open>Buffers\<close>

abbreviation (input) HEAD :: nat where "HEAD \<equiv> NBUF"

definition get_buf :: "nat \<Rightarrow> buf kernel" where
  "get_buf b = kgets (\<lambda>s. bufs s ! b)"

definition set_buf :: "nat \<Rightarrow> (buf \<Rightarrow> buf) \<Rightarrow> unit kernel" where
  "set_buf b f = kmodify (upd_buf b f)"

definition buf_lock :: "nat \<Rightarrow> kstate \<Rightarrow> sleeplock" where
  "buf_lock b s = b_lock (bufs s ! b)"

definition upd_buf_lock :: "nat \<Rightarrow> (sleeplock \<Rightarrow> sleeplock) \<Rightarrow> kstate \<Rightarrow> kstate" where
  "upd_buf_lock b f = upd_buf b (\<lambda>k. k\<lparr>b_lock := f (b_lock k)\<rparr>)"

text \<open>b is linked in after the head: the statements of binit and brelse.\<close>

definition link_front :: "nat \<Rightarrow> buf list \<Rightarrow> buf list" where
  "link_front b bs =
     (let bs = upd_nth b (\<lambda>k. k\<lparr>b_next := b_next (bs ! HEAD), b_prev := HEAD\<rparr>) bs;
          bs = upd_nth (b_next (bs ! HEAD)) (\<lambda>k. k\<lparr>b_prev := b\<rparr>) bs
      in upd_nth HEAD (\<lambda>k. k\<lparr>b_next := b\<rparr>) bs)"

definition unlink :: "nat \<Rightarrow> buf list \<Rightarrow> buf list" where
  "unlink b bs =
     (let bs = upd_nth (b_next (bs ! b)) (\<lambda>k. k\<lparr>b_prev := b_prev (bs ! b)\<rparr>) bs
      in upd_nth (b_prev (bs ! b)) (\<lambda>k. k\<lparr>b_next := b_next (bs ! b)\<rparr>) bs)"

definition binit :: "unit kernel" where
  "binit =
     kthen (set_buf HEAD (\<lambda>k. k\<lparr>b_prev := HEAD, b_next := HEAD\<rparr>))
     (kfor [0..<NBUF] (\<lambda>b.
        kthen (kmodify (bufs_update (link_front b))) (initsleeplock (upd_buf_lock b))))"

text \<open>
  The two scans of bget. The list has at most NBUF buffers, so NBUF steps reach the head;
  \<open>None\<close>: the scan came back to the head.
\<close>

fun scan_next :: "nat \<Rightarrow> (buf \<Rightarrow> bool) \<Rightarrow> buf list \<Rightarrow> nat \<Rightarrow> nat option" where
  "scan_next 0 P bs b = None"
| "scan_next (Suc n) P bs b =
     (if b = HEAD then None else if P (bs ! b) then Some b else scan_next n P bs (b_next (bs ! b)))"

fun scan_prev :: "nat \<Rightarrow> (buf \<Rightarrow> bool) \<Rightarrow> buf list \<Rightarrow> nat \<Rightarrow> nat option" where
  "scan_prev 0 P bs b = None"
| "scan_prev (Suc n) P bs b =
     (if b = HEAD then None else if P (bs ! b) then Some b else scan_prev n P bs (b_prev (bs ! b)))"

definition find_cached :: "u32 \<Rightarrow> u32 \<Rightarrow> buf list \<Rightarrow> nat option" where
  "find_cached dev blockno bs =
     scan_next NBUF (\<lambda>k. b_dev k = dev \<and> b_blockno k = blockno) bs (b_next (bs ! HEAD))"

definition find_unused :: "buf list \<Rightarrow> nat option" where
  "find_unused bs = scan_prev NBUF (\<lambda>k. b_refcnt k = 0) bs (b_prev (bs ! HEAD))"

definition bget :: "u32 \<Rightarrow> u32 \<Rightarrow> nat kernel" where
  "bget dev blockno =
     kbind (kgets (\<lambda>s. find_cached dev blockno (bufs s))) (\<lambda>c.
     case c of
       Some b \<Rightarrow>
         kthen (set_buf b (\<lambda>k. k\<lparr>b_refcnt := b_refcnt k + 1\<rparr>))
         (kthen (acquiresleep (buf_lock b) (upd_buf_lock b) (ChBufLock b)) (kret b))
     | None \<Rightarrow>
         kbind (kgets (\<lambda>s. find_unused (bufs s))) (\<lambda>f.
         case f of
           Some b \<Rightarrow>
             kthen (set_buf b (\<lambda>k. k\<lparr>b_dev := dev, b_blockno := blockno, b_valid := False, b_refcnt := 1\<rparr>))
             (kthen (acquiresleep (buf_lock b) (upd_buf_lock b) (ChBufLock b)) (kret b))
         | None \<Rightarrow> kpanic ''bget: no buffers''))"

text \<open>What a completed disk request does: the block goes to the disk or comes from it.\<close>

definition disk_rw :: "nat \<Rightarrow> bool \<Rightarrow> unit kernel" where
  "disk_rw b write =
     kbind (get_buf b) (\<lambda>k.
     if write
     then kmodify (\<lambda>s. s\<lparr>disk := (disk s)(b_blockno k := b_data k),
            disk_writes := (b_blockno k, b_data k) # disk_writes s\<rparr>)
     else kbind (kgets (\<lambda>s. disk s (b_blockno k))) (\<lambda>d. set_buf b (\<lambda>k. k\<lparr>b_data := d\<rparr>)))"

definition bread :: "u32 \<Rightarrow> u32 \<Rightarrow> nat kernel" where
  "bread dev blockno =
     kbind (bget dev blockno) (\<lambda>b.
     kbind (get_buf b) (\<lambda>k.
     if \<not> b_valid k
     then kthen (disk_rw b False) (kthen (set_buf b (\<lambda>k. k\<lparr>b_valid := True\<rparr>)) (kret b))
     else kret b))"

definition bwrite :: "nat \<Rightarrow> unit kernel" where
  "bwrite b =
     kthen (kpanic_if (\<lambda>s. \<not> holdingsleep (buf_lock b) s) ''bwrite'') (disk_rw b True)"

definition brelse :: "nat \<Rightarrow> unit kernel" where
  "brelse b =
     kthen (kpanic_if (\<lambda>s. \<not> holdingsleep (buf_lock b) s) ''brelse'')
     (kthen (releasesleep (upd_buf_lock b) (ChBufLock b))
     (kthen (set_buf b (\<lambda>k. k\<lparr>b_refcnt := b_refcnt k - 1\<rparr>))
     (kbind (get_buf b) (\<lambda>k.
      if b_refcnt k = 0 then kmodify (bufs_update (\<lambda>bs. link_front b (unlink b bs))) else kret ()))))"

definition bpin :: "nat \<Rightarrow> unit kernel" where
  "bpin b = set_buf b (\<lambda>k. k\<lparr>b_refcnt := b_refcnt k + 1\<rparr>)"

definition bunpin :: "nat \<Rightarrow> unit kernel" where
  "bunpin b = set_buf b (\<lambda>k. k\<lparr>b_refcnt := b_refcnt k - 1\<rparr>)"

end
