(* ===== verification/Xv6_Log.thy ===== *)
theory Xv6_Log
  imports Xv6_Bio
begin

text \<open>
  kernel/log.c: the write-ahead log that makes file system calls atomic across crashes. The
  header block holds the number of logged blocks and their home block numbers, as 32-bit
  little-endian integers.
\<close>

section \<open>Header and log\<close>

definition get_log :: "log kernel" where
  "get_log = kgets klog"

definition set_lh_n :: "int \<Rightarrow> unit kernel" where
  "set_lh_n n = kmodify (upd_log (\<lambda>l. l\<lparr>l_lh := (l_lh l)\<lparr>lh_n := n\<rparr>\<rparr>))"

text \<open>bread, an access to the data, brelse: the shape of every read of a block.\<close>

definition buf_data :: "nat \<Rightarrow> block kernel" where
  "buf_data b = kbind (get_buf b) (\<lambda>k. kret (b_data k))"

definition set_buf_data :: "nat \<Rightarrow> (block \<Rightarrow> block) \<Rightarrow> unit kernel" where
  "set_buf_data b f = set_buf b (\<lambda>k. k\<lparr>b_data := f (b_data k)\<rparr>)"

definition log_block :: "log \<Rightarrow> nat \<Rightarrow> u32" where
  "log_block l tail = l_start l + of_nat tail + 1"

definition install_one :: "bool \<Rightarrow> nat \<Rightarrow> unit kernel" where
  "install_one recovering tail =
     kbind get_log (\<lambda>l.
     kthen (kwhen recovering (printk (''recovering tail %d dst %d'' @ [newline])
       [Num (of_nat tail), Num (ucast (lh_block (l_lh l) ! tail))]))
     (kbind (bread (l_dev l) (log_block l tail)) (\<lambda>lbuf.
     kbind (bread (l_dev l) (lh_block (l_lh l) ! tail)) (\<lambda>dbuf.
     kbind (buf_data lbuf) (\<lambda>d.
     kthen (set_buf_data dbuf (\<lambda>_. d))
     (kthen (bwrite dbuf)
     (kthen (kwhen (\<not> recovering) (bunpin dbuf))
     (kthen (brelse lbuf)
     (brelse dbuf)))))))))"

definition install_trans :: "bool \<Rightarrow> unit kernel" where
  "install_trans recovering =
     kbind get_log (\<lambda>l. kfor [0..<nat (lh_n (l_lh l))] (install_one recovering))"

text \<open>
  The header block as integers: \<open>n\<close> at offset 0, block \<open>i\<close> at offset \<open>4 + 4 * i\<close>.
\<close>

definition header_n :: "block \<Rightarrow> int" where
  "header_n d = sint (get32 d 0)"

definition header_block :: "block \<Rightarrow> nat \<Rightarrow> u32" where
  "header_block d i = get32 d (4 + 4 * i)"

definition read_head :: "unit kernel" where
  "read_head =
     kbind get_log (\<lambda>l.
     kbind (bread (l_dev l) (l_start l)) (\<lambda>b.
     kbind (buf_data b) (\<lambda>d.
     kthen (set_lh_n (header_n d))
     (kthen (kfor [0..<nat (header_n d)] (\<lambda>i. kmodify (upd_log (\<lambda>l.
        l\<lparr>l_lh := (l_lh l)\<lparr>lh_block := (lh_block (l_lh l))[i := header_block d i]\<rparr>\<rparr>))))
     (brelse b)))))"

text \<open>The stores of write_head into the header block.\<close>

definition encode_header :: "logheader \<Rightarrow> block \<Rightarrow> block" where
  "encode_header lh d =
     fold (\<lambda>i d. put32 (4 + 4 * i) (lh_block lh ! i) d) [0..<nat (lh_n lh)]
       (put32 0 (word_of_int (lh_n lh)) d)"

definition write_head :: "unit kernel" where
  "write_head =
     kbind get_log (\<lambda>l.
     kbind (bread (l_dev l) (l_start l)) (\<lambda>b.
     kthen (set_buf_data b (encode_header (l_lh l)))
     (kthen (bwrite b) (brelse b))))"

definition recover_from_log :: "unit kernel" where
  "recover_from_log =
     kthen read_head (kthen (install_trans True) (kthen (set_lh_n 0) write_head))"

text \<open>sizeof(struct logheader) is 4 + 4 * LOGBLOCKS, less than BSIZE: the panic is dead code.\<close>

definition initlog :: "u32 \<Rightarrow> superblock \<Rightarrow> unit kernel" where
  "initlog dev su =
     (if 4 + 4 * LOGBLOCKS \<ge> BSIZE then kpanic ''initlog: too big logheader''
      else kthen (kmodify (upd_log (\<lambda>l. l\<lparr>l_start := sb_logstart su, l_dev := dev\<rparr>)))
           recover_from_log)"

section \<open>Transactions\<close>

text \<open>One test of the loop of begin_op.\<close>

definition begin_op :: "unit kernel" where
  "begin_op =
     kbind get_log (\<lambda>l.
     if l_committing l then kthen (sleep_prepare (Some ChLog)) sleep
     else if lh_n (l_lh l) + (l_outstanding l + 1) * int MAXOPBLOCKS > int LOGBLOCKS
     then kthen (sleep_prepare (Some ChLog)) sleep
     else kmodify (upd_log (\<lambda>l. l\<lparr>l_outstanding := l_outstanding l + 1\<rparr>)))"

definition write_log_one :: "nat \<Rightarrow> unit kernel" where
  "write_log_one tail =
     kbind get_log (\<lambda>l.
     kbind (bread (l_dev l) (log_block l tail)) (\<lambda>to.
     kbind (bread (l_dev l) (lh_block (l_lh l) ! tail)) (\<lambda>from.
     kbind (buf_data from) (\<lambda>d.
     kthen (set_buf_data to (\<lambda>_. d))
     (kthen (bwrite to)
     (kthen (brelse from)
     (brelse to)))))))"

definition write_log :: "unit kernel" where
  "write_log = kbind get_log (\<lambda>l. kfor [0..<nat (lh_n (l_lh l))] write_log_one)"

definition commit :: "unit kernel" where
  "commit =
     kbind get_log (\<lambda>l.
     if lh_n (l_lh l) > 0
     then kthen write_log (kthen write_head (kthen (install_trans False) (kthen (set_lh_n 0) write_head)))
     else kret ())"

definition end_op :: "unit kernel" where
  "end_op =
     kthen (kmodify (upd_log (\<lambda>l. l\<lparr>l_outstanding := l_outstanding l - 1\<rparr>)))
     (kbind get_log (\<lambda>l.
      if l_committing l then kpanic ''log.committing''
      else if l_outstanding l = 0
      then kthen (kmodify (upd_log (\<lambda>l. l\<lparr>l_committing := True\<rparr>)))
           (kthen commit
           (kthen (kmodify (upd_log (\<lambda>l. l\<lparr>l_committing := False, l_ncommit := l_ncommit l + 1\<rparr>)))
           (wakeup (Some ChLog))))
      else wakeup (Some ChLog)))"

text \<open>The position of a block number among the first \<open>n\<close> logged ones, \<open>n\<close> if it is not there.\<close>

fun log_index :: "u32 list \<Rightarrow> u32 \<Rightarrow> nat \<Rightarrow> nat \<Rightarrow> nat" where
  "log_index bs blockno i 0 = i"
| "log_index bs blockno i (Suc n) = (if bs ! i = blockno then i else log_index bs blockno (Suc i) n)"

definition log_write :: "nat \<Rightarrow> unit kernel" where
  "log_write b =
     kthen (kpanic_if (\<lambda>s. lh_n (l_lh (klog s)) \<ge> int LOGBLOCKS) ''too big a transaction'')
     (kthen (kpanic_if (\<lambda>s. l_outstanding (klog s) < 1) ''log_write outside of trans'')
     (kbind get_log (\<lambda>l.
      kbind (get_buf b) (\<lambda>k.
      let n = nat (lh_n (l_lh l)); i = log_index (lh_block (l_lh l)) (b_blockno k) 0 n in
      kthen (kmodify (upd_log (\<lambda>l.
        l\<lparr>l_lh := (l_lh l)\<lparr>lh_block := (lh_block (l_lh l))[i := b_blockno k]\<rparr>\<rparr>)))
      (if i = n then kthen (bpin b) (set_lh_n (lh_n (l_lh l) + 1)) else kret ())))))"

text \<open>
  sys_sync waits for one more commit than it has seen when a transaction is under way;
  \<open>sync_wait\<close> is one test of its loop, run again each time the process is woken.
\<close>

definition sync_wait :: "int \<Rightarrow> u64 kernel" where
  "sync_wait n =
     kbind get_log (\<lambda>l.
     if l_ncommit l < n then kthen (sleep_prepare (Some ChLog)) (kthen sleep (kret 0))
     else kret 0)"

definition sys_sync :: "u64 kernel" where
  "sys_sync =
     kbind get_log (\<lambda>l.
     if l_committing l \<or> l_outstanding l > 0 then sync_wait (l_ncommit l + 1) else kret 0)"

end
