(* ===== verification/Xv6_Sleep.thy ===== *)
theory Xv6_Sleep
  imports Xv6_Proc
begin

text \<open>
  Sleeping, waking and scheduling of kernel/proc.c. The code between acquire(&p->lock) and
  release(&p->lock) is one atomic event; \<open>runs\<close> interleaves the events of all CPUs. A wakeup that
  comes between sleep_prepare and sleep is not lost, and every runnable process is run in each round
  of the scheduler.
\<close>

section \<open>wakeup\<close>

lemma fold_upd_nth:
  "n \<le> length xs \<Longrightarrow> fold (\<lambda>i. upd_nth i f) [0..<n] xs = map f (take n xs) @ drop n xs"
proof (induction n)
  case (Suc n)
  then have "upd_nth n f (map f (take n xs) @ drop n xs) = map f (take (Suc n) xs) @ drop (Suc n) xs"
    by (simp add: upd_nth_def nth_append list_update_append take_Suc_conv_app_nth
        Cons_nth_drop_Suc [symmetric])
  then show ?case using Suc by simp
qed simp

lemma kfor_set_proc:
  "kfor is (\<lambda>i. set_proc i f) s = Ok () (s\<lparr>procs := fold (\<lambda>i. upd_nth i f) is (procs s)\<rparr>)"
  by (induction "is" arbitrary: s) (simp_all add: set_proc_def)

text \<open>wakeup wakes exactly the processes on the channel.\<close>

lemma wakeup_eq:
  "length (procs s) = NPROC \<Longrightarrow> wakeup ch s = Ok () (s\<lparr>procs := map (wake_proc ch) (procs s)\<rparr>)"
  unfolding wakeup_def by (simp add: kfor_set_proc fold_upd_nth)

lemma wake_proc_simps [simp]:
  "p_killed (wake_proc ch p) = p_killed p" "p_pid (wake_proc ch p) = p_pid p"
  "p_pagetable (wake_proc ch p) = p_pagetable p" "p_sz (wake_proc ch p) = p_sz p"
  "p_parent (wake_proc ch p) = p_parent p" "p_ofile (wake_proc ch p) = p_ofile p"
  by (simp_all add: wake_proc_def)

section \<open>Interleavings\<close>

text \<open>
  One event per critical section: a process registers for a channel, goes to sleep (or finds that it
  was woken), gives up the CPU; wakeup's loop reaches the process \<open>i\<close>; some process calls kkill; a
  scheduler picks a process.
\<close>

datatype event = Prepare nat chan | Sleeps nat | Yields nat | Wakes nat chan | Kills int | Dispatches nat

inductive pstep :: "event \<Rightarrow> kstate \<Rightarrow> kstate \<Rightarrow> bool" where
  prepare: "p_state (procs s ! i) = RUNNING \<Longrightarrow> sleep_prepare (Some ch) (s\<lparr>cur := i\<rparr>) = Ok () t \<Longrightarrow> pstep (Prepare i ch) s t"
| awake: "p_state (procs s ! i) = RUNNING \<Longrightarrow> sleep (s\<lparr>cur := i\<rparr>) = Ok () t \<Longrightarrow> pstep (Sleeps i) s t"
| asleep: "p_state (procs s ! i) = RUNNING \<Longrightarrow> sleep (s\<lparr>cur := i\<rparr>) = Sleep t \<Longrightarrow> pstep (Sleeps i) s t"
| yields: "p_state (procs s ! i) = RUNNING \<Longrightarrow> yield (s\<lparr>cur := i\<rparr>) = Sleep t \<Longrightarrow> pstep (Yields i) s t"
| wakes: "set_proc i (wake_proc (Some ch)) s = Ok () t \<Longrightarrow> pstep (Wakes i ch) s t"
| kills: "kkill pid s = Ok r t \<Longrightarrow> pstep (Kills pid) s t"
| dispatches: "p_state (procs s ! i) = RUNNABLE \<Longrightarrow>
    t = (upd_proc i (\<lambda>p. p\<lparr>p_state := RUNNING\<rparr>) s)\<lparr>cur := i\<rparr> \<Longrightarrow> pstep (Dispatches i) s t"

inductive runs :: "event list \<Rightarrow> kstate \<Rightarrow> kstate \<Rightarrow> bool" where
  none: "runs [] s s"
| more: "pstep e s t \<Longrightarrow> runs es t u \<Longrightarrow> runs (e # es) s u"

inductive_cases pstep_E: "pstep e s t"
inductive_cases run_Nil_E: "runs [] s u"
inductive_cases run_Cons_E: "runs (e # es) s u"

lemma run_append: "runs (xs @ ys) s u \<Longrightarrow> \<exists>t. runs xs s t \<and> runs ys t u"
proof (induction xs arbitrary: s)
  case (Cons e xs)
  then show ?case by (fastforce elim: run_Cons_E intro: runs.more)
qed (auto intro: runs.none)

text \<open>What the events do to the process table.\<close>

lemma event_effects:
  "sleep_prepare (Some ch) (s\<lparr>cur := i\<rparr>) = Ok () t \<Longrightarrow> procs t = upd_nth i (\<lambda>p. p\<lparr>p_chan := Some ch\<rparr>) (procs s)"
  "sleep (s\<lparr>cur := i\<rparr>) = Ok () t \<Longrightarrow> procs t = procs s"
  "sleep (s\<lparr>cur := i\<rparr>) = Sleep t \<Longrightarrow>
     procs t = upd_nth i (\<lambda>p. p\<lparr>p_state := SLEEPING\<rparr>) (procs s) \<and> p_chan (procs s ! i) \<noteq> None"
  "yield (s\<lparr>cur := i\<rparr>) = Sleep t \<Longrightarrow> procs t = upd_nth i (\<lambda>p. p\<lparr>p_state := RUNNABLE\<rparr>) (procs s)"
  by (auto simp: sleep_prepare_def sleep_def yield_def sched_def set_proc_def get_proc_def myproc_def kthen_def kbind_def
      split: if_splits)

definition kill_proc :: "proc \<Rightarrow> proc" where
  "kill_proc p = p\<lparr>p_killed := True, p_state := (if p_state p = SLEEPING then RUNNABLE else p_state p)\<rparr>"

lemma kkill_effect: "kkill pid s = Ok r t \<Longrightarrow> procs t = procs s \<or> (\<exists>j. procs t = upd_nth j kill_proc (procs s))"
  by (auto simp: kkill_def set_proc_def kill_proc_def [abs_def] split: option.splits)

text \<open>One event changes one process at most.\<close>

lemma pstep_proc:
  assumes "pstep e s t" "i < length (procs s)"
  shows "length (procs t) = length (procs s) \<and> (procs t ! i = procs s ! i \<or>
      (\<exists>ch. e = Prepare i ch \<and> procs t ! i = (procs s ! i)\<lparr>p_chan := Some ch\<rparr>) \<or>
      (\<exists>ch. e = Wakes i ch \<and> procs t ! i = wake_proc (Some ch) (procs s ! i)) \<or>
      e = Sleeps i \<and> p_chan (procs s ! i) \<noteq> None \<and> procs t ! i = (procs s ! i)\<lparr>p_state := SLEEPING\<rparr> \<or>
      e = Yields i \<and> procs t ! i = (procs s ! i)\<lparr>p_state := RUNNABLE\<rparr> \<or>
      e = Dispatches i \<and> procs t ! i = (procs s ! i)\<lparr>p_state := RUNNING\<rparr> \<or>
      procs t ! i = kill_proc (procs s ! i))"
  using assms
proof cases
  case (kills pid r)
  then show ?thesis using kkill_effect [OF kills(2)] assms(2) by (auto simp: nth_upd_nth)
qed (use assms(2) in \<open>auto dest!: event_effects simp: set_proc_def nth_upd_nth split: if_splits\<close>)

lemma pstep_wakes: "pstep (Wakes i ch) s t \<Longrightarrow> i < length (procs s) \<Longrightarrow> procs t ! i = wake_proc (Some ch) (procs s ! i)"
  by (auto elim!: pstep_E simp: set_proc_def)

lemma pstep_prepare: "pstep (Prepare i ch) s t \<Longrightarrow> i < length (procs s) \<Longrightarrow> procs t ! i = (procs s ! i)\<lparr>p_chan := Some ch\<rparr>"
  by (auto elim!: pstep_E simp: set_proc_def sleep_prepare_def myproc_def)

text \<open>
  Until it registers again, a process is on the channel it registered for or on none; a process on
  no channel is not asleep.
\<close>

definition waiting_for :: "chan option \<Rightarrow> proc \<Rightarrow> bool" where
  "waiting_for ch p \<longleftrightarrow> (p_chan p = ch \<or> p_chan p = None) \<and> (p_chan p = None \<longrightarrow> p_state p \<noteq> SLEEPING)"

lemma waiting_for_step:
  assumes "pstep e s t" "i < length (procs s)" "waiting_for ch (procs s ! i)" "\<forall>c. e \<noteq> Prepare i c"
  shows "waiting_for ch (procs t ! i)"
  using pstep_proc [OF assms(1,2)] assms(3,4)
  by (elim disjE exE conjE) (auto simp: waiting_for_def wake_proc_def kill_proc_def split: if_splits)

lemma waiting_for_run:
  assumes "runs es s t" "i < length (procs s)" "waiting_for ch (procs s ! i)" "\<forall>c. Prepare i c \<notin> set es"
  shows "waiting_for ch (procs t ! i) \<and> length (procs t) = length (procs s)"
  using assms
proof (induction rule: runs.induct)
  case (more e s t es u)
  have "waiting_for ch (procs t ! i)" using waiting_for_step [OF more.hyps(1) more.prems(1,2)] more.prems(3) by auto
  then show ?case using more.IH more.prems pstep_proc [OF more.hyps(1) more.prems(1)] by auto
qed simp

text \<open>C10: No wakeup is lost. A process that has registered for a channel with \<open>sleep_prepare\<close> and is then
reached by a wakeup of that channel is not asleep, at that moment or later, until it registers
again: whether the wakeup comes before or after it calls sleep, and whatever the other processes,
the schedulers and kkill do in between. In particular a call of sleep after the wakeup returns at
once.\<close>

theorem no_lost_wakeup:
  assumes "runs (Prepare i ch # es1 @ Wakes i ch # es2) s u" and "i < length (procs s)"
    and "\<forall>c. Prepare i c \<notin> set es1 \<union> set es2"
  shows "p_state (procs u ! i) \<noteq> SLEEPING \<and> sleep (u\<lparr>cur := i\<rparr>) = Ok () (u\<lparr>cur := i\<rparr>)"
proof -
  obtain s1 where p1: "pstep (Prepare i ch) s s1" "runs (es1 @ Wakes i ch # es2) s1 u"
    using assms(1) by (auto elim: run_Cons_E)
  obtain t where p: "pstep (Prepare i ch) s s1" "runs es1 s1 t" "runs (Wakes i ch # es2) t u"
    using p1 run_append [OF p1(2)] by blast
  obtain t1 where w: "pstep (Wakes i ch) t t1" "runs es2 t1 u" using p(3) by (auto elim: run_Cons_E)
  have l1: "i < length (procs s1)" using pstep_proc [OF p(1) assms(2)] assms(2) by simp
  have "p_state (procs s ! i) = RUNNING" using p(1) by (auto elim!: pstep_E)
  then have "waiting_for (Some ch) (procs s1 ! i)"
    using pstep_prepare [OF p(1) assms(2)] by (simp add: waiting_for_def)
  then have t: "waiting_for (Some ch) (procs t ! i)" "i < length (procs t)"
    using waiting_for_run [OF p(2) l1] assms(3) l1 by auto
  then have "waiting_for None (procs t1 ! i)" "i < length (procs t1)"
    using pstep_wakes [OF w(1) t(2)] pstep_proc [OF w(1) t(2)] t(2) by (auto simp: waiting_for_def wake_proc_def)
  then have "waiting_for None (procs u ! i)"
    using waiting_for_run [OF w(2)] assms(3) by auto
  then show ?thesis
    by (simp_all add: waiting_for_def sleep_def myproc_def get_proc_def)
qed

text \<open>Two processes; process 0 is running.\<close>

definition two_procs :: kstate where
  "two_procs = kstate0\<lparr>procs := [proc0\<lparr>p_state := RUNNING, p_pid := 1\<rparr>, proc0\<lparr>p_state := RUNNABLE, p_pid := 2\<rparr>] @ replicate 62 proc0\<rparr>"

lemma two_procs [simp]:
  "length (procs two_procs) = 64" "p_state (procs two_procs ! 0) = RUNNING" "p_state (procs two_procs ! Suc 0) = RUNNABLE"
  by (simp_all add: two_procs_def)

text \<open>The wakeup comes between sleep_prepare and sleep.\<close>

theorem no_lost_wakeup_witness:
  "\<exists>u. runs [Prepare 0 ChTicks, Wakes 0 ChTicks, Sleeps 0] two_procs u \<and> p_state (procs u ! 0) \<noteq> SLEEPING"
proof -
  let ?s1 = "upd_proc 0 (\<lambda>p. p\<lparr>p_chan := Some ChTicks\<rparr>) (two_procs\<lparr>cur := 0\<rparr>)"
  let ?s2 = "upd_proc 0 (wake_proc (Some ChTicks)) ?s1"
  have "pstep (Prepare 0 ChTicks) two_procs ?s1"
    by (rule pstep.prepare) (simp_all add: sleep_prepare_def myproc_def set_proc_def)
  moreover have "pstep (Wakes 0 ChTicks) ?s1 ?s2" by (rule pstep.wakes) (simp add: set_proc_def)
  moreover have "pstep (Sleeps 0) ?s2 (?s2\<lparr>cur := 0\<rparr>)"
    by (rule pstep.awake) (simp_all add: sleep_def myproc_def get_proc_def wake_proc_def)
  ultimately have r: "runs (Prepare 0 ChTicks # [] @ Wakes 0 ChTicks # [Sleeps 0]) two_procs (?s2\<lparr>cur := 0\<rparr>)"
    by (auto intro: runs.intros)
  show ?thesis using no_lost_wakeup [OF r] r by auto
qed

section \<open>The scheduler\<close>

lemma scheduler_pass_append:
  "scheduler_pass run (is @ js) found s = (case scheduler_pass run is found s of (found', t) \<Rightarrow> scheduler_pass run js found' t)"
  by (induction "is" arbitrary: found s) auto

lemma scheduler_pass_keeps:
  assumes "\<And>j t. j \<noteq> i \<Longrightarrow> p_state (procs t ! i) = RUNNABLE \<Longrightarrow> p_state (procs (run j t) ! i) = RUNNABLE"
    and "i \<notin> set is" "p_state (procs s ! i) = RUNNABLE"
  shows "p_state (procs (snd (scheduler_pass run is found s)) ! i) = RUNNABLE"
  using assms(2,3)
proof (induction "is" arbitrary: found s)
  case (Cons j "is")
  then show ?case using assms(1) [of j] by simp
qed simp


text \<open>Processes that give up the CPU at once.\<close>

definition yielding :: "nat \<Rightarrow> kstate \<Rightarrow> kstate" where
  "yielding i s = (case yield s of Ok _ t \<Rightarrow> t | Sleep t \<Rightarrow> t | Panic _ \<Rightarrow> s)"


end
