(* ===== verification/Xv6_Bcache.thy ===== *)
theory Xv6_Bcache
  imports Xv6_Bio Xv6_Sleep
begin

text \<open>
  Correctness of the buffer cache of Xv6_Bio: the doubly linked list, the search for a buffer,
  and what reading, writing and releasing a block do to the cached and to the stored contents.
\<close>

section \<open>The list of buffers\<close>

text \<open>\<open>seg bs a xs c\<close>: following the links from \<open>a\<close> passes through \<open>xs\<close> and reaches \<open>c\<close>.\<close>

fun seg :: "buf list \<Rightarrow> nat \<Rightarrow> nat list \<Rightarrow> nat \<Rightarrow> bool" where
  "seg bs a [] c \<longleftrightarrow> b_next (bs ! a) = c \<and> b_prev (bs ! c) = a"
| "seg bs a (x # xs) c \<longleftrightarrow> b_next (bs ! a) = x \<and> b_prev (bs ! x) = a \<and> seg bs x xs c"

lemma seg_append: "seg bs a (us @ x # vs) c \<longleftrightarrow> seg bs a us x \<and> seg bs x vs c"
  by (induction us arbitrary: a) auto

lemma seg_cong:
  assumes "\<And>y. y = a \<or> y \<in> set xs \<Longrightarrow> b_next (bs' ! y) = b_next (bs ! y)"
    and "\<And>y. y = c \<or> y \<in> set xs \<Longrightarrow> b_prev (bs' ! y) = b_prev (bs ! y)"
  shows "seg bs' a xs c \<longleftrightarrow> seg bs a xs c"
  using assms by (induction xs arbitrary: a) auto

lemma seg_last: "seg bs a us c \<Longrightarrow> b_prev (bs ! c) = last (a # us) \<and> b_next (bs ! last (a # us)) = c"
  by (induction us arbitrary: a) auto

text \<open>Redirecting the end of a segment, when only its last link changes.\<close>

lemma seg_retarget:
  assumes "seg bs a us c" "distinct (a # us)"
    and "b_next (bs' ! last (a # us)) = d" "b_prev (bs' ! d) = last (a # us)"
    and "\<And>y. y \<in> set (a # us) \<Longrightarrow> y \<noteq> last (a # us) \<Longrightarrow> b_next (bs' ! y) = b_next (bs ! y)"
    and "\<And>y. y \<in> set us \<Longrightarrow> b_prev (bs' ! y) = b_prev (bs ! y)"
  shows "seg bs' a us d"
  using assms
proof (induction us arbitrary: a)
  case (Cons x us)
  have "a \<noteq> last (x # us)" using Cons.prems(2) last_in_set [of "x # us"] by auto
  then have "b_next (bs' ! a) = x" using Cons.prems(1,5) by auto
  moreover have "b_prev (bs' ! x) = a" using Cons.prems(1,6) by auto
  moreover have "seg bs' x us d" using Cons.prems by (intro Cons.IH) auto
  ultimately show ?case by simp
qed simp

text \<open>The cache's list, most recently used first: the head is at index HEAD.\<close>

definition chain :: "buf list \<Rightarrow> nat list \<Rightarrow> bool" where
  "chain bs xs \<longleftrightarrow> seg bs HEAD xs HEAD \<and> distinct (HEAD # xs) \<and> (\<forall>x\<in>set xs. x < NBUF)
     \<and> length bs = NBUF + 1"

text \<open>Everything but the links.\<close>

definition core :: "buf \<Rightarrow> buf" where
  "core k = k\<lparr>b_next := 0, b_prev := 0\<rparr>"

lemma core_sel [simp]:
  "b_valid (core k) = b_valid k" "b_disk (core k) = b_disk k" "b_dev (core k) = b_dev k"
  "b_blockno (core k) = b_blockno k" "b_lock (core k) = b_lock k" "b_refcnt (core k) = b_refcnt k"
  "b_data (core k) = b_data k"
  by (simp_all add: core_def)

lemma core_eqD:
  assumes "core k = core k'"
  shows "b_valid k = b_valid k'" "b_dev k = b_dev k'" "b_blockno k = b_blockno k'"
    "b_lock k = b_lock k'" "b_refcnt k = b_refcnt k'" "b_data k = b_data k'"
  using assms by (metis core_sel)+

lemma core_links [simp]: "core (k\<lparr>b_next := n\<rparr>) = core k" "core (k\<lparr>b_prev := n\<rparr>) = core k"
  by (simp_all add: core_def)

lemma nth_upd_nth_if: "upd_nth i f xs ! j = (if i = j \<and> i < length xs then f (xs ! j) else xs ! j)"
  by (cases "i = j"; cases "i < length xs") (simp_all add: upd_nth_def list_update_beyond)

lemma unlink_core: "core (unlink b bs ! i) = core (bs ! i)" "length (unlink b bs) = length bs"
  by (simp_all add: unlink_def Let_def nth_upd_nth_if)

lemma link_front_core: "core (link_front b bs ! i) = core (bs ! i)" "length (link_front b bs) = length bs"
  by (simp_all add: link_front_def Let_def nth_upd_nth_if)

lemma chain_unlink:
  assumes "chain bs (us @ b # vs)"
  shows "seg (unlink b bs) HEAD (us @ vs) HEAD"
proof -
  let ?bs = "unlink b bs"
  let ?p = "last (HEAD # us)" and ?n = "hd (vs @ [HEAD])"
  have segs: "seg bs HEAD us b" "seg bs b vs HEAD" and d: "distinct (HEAD # us @ b # vs)"
    and lt: "\<forall>x\<in>set (us @ b # vs). x < NBUF" and len: "length bs = NBUF + 1"
    using assms by (simp_all add: chain_def seg_append)
  have p: "b_prev (bs ! b) = ?p" using seg_last [OF segs(1)] by simp
  have n: "b_next (bs ! b) = ?n" using segs(2) by (cases vs) auto
  have pl: "?p < NBUF + 1" using lt by (cases us rule: rev_cases) auto
  have nl: "?n < NBUF + 1" using lt by (cases vs) auto
  have pb: "?p \<noteq> b" using d last_in_set [of "HEAD # us"] by auto
  have nb: "?n \<noteq> b" using d by (cases vs) auto
  have nx: "b_next (?bs ! y) = (if y = ?p then ?n else b_next (bs ! y))"
    and pr: "b_prev (?bs ! y) = (if y = ?n then ?p else b_prev (bs ! y))" for y
    using p n pl nl len pb nb by (auto simp: unlink_def Let_def nth_upd_nth_if)
  have front: "seg ?bs HEAD us ?n"
  proof (rule seg_retarget [OF segs(1)])
    show "b_prev (?bs ! y) = b_prev (bs ! y)" if "y \<in> set us" for y
    proof -
      have "y \<noteq> ?n" using that d by (cases vs) auto
      then show ?thesis using pr by simp
    qed
  qed (use d nx pr in auto)
  show ?thesis
  proof (cases vs)
    case Nil
    then show ?thesis using front by simp
  next
    case (Cons v vs')
    then have "seg bs v vs' HEAD" using segs(2) by simp
    moreover have "?p = HEAD \<or> ?p \<in> set us" by (cases us rule: rev_cases) auto
    then have "?p \<noteq> v" "?p \<notin> set vs'" using d Cons by auto
    moreover have "?n = v" "v \<notin> set vs'" "v \<noteq> HEAD" using d Cons by auto
    ultimately have "seg ?bs v vs' HEAD"
      by (subst seg_cong [where bs = bs]) (auto simp: nx pr)
    then show ?thesis using front Cons by (simp add: seg_append)
  qed
qed

lemma seg_link_front:
  assumes s: "seg bs HEAD xs HEAD" and d: "distinct (HEAD # b # xs)"
    and lt: "\<forall>x\<in>set (b # xs). x < NBUF" and len: "length bs = NBUF + 1"
  shows "seg (link_front b bs) HEAD (b # xs) HEAD"
proof -
  let ?bs = "link_front b bs" and ?n = "b_next (bs ! HEAD)"
  have n: "?n = hd (xs @ [HEAD])" using s by (cases xs) auto
  have nl: "?n < NBUF + 1" "?n \<noteq> b" using n lt d by (cases xs; auto)+
  have nx: "b_next (?bs ! y) = (if y = HEAD then b else if y = b then ?n else b_next (bs ! y))"
    and pr: "b_prev (?bs ! y) = (if y = ?n then b else if y = b then HEAD else b_prev (bs ! y))" for y
    using nl lt len d by (auto simp: link_front_def Let_def nth_upd_nth_if)
  show ?thesis
  proof (cases xs)
    case Nil
    then show ?thesis using n d by (simp add: nx pr)
  next
    case (Cons x xs')
    then have "seg bs x xs' HEAD" "?n = x" using s by auto
    moreover have "seg ?bs x xs' HEAD \<longleftrightarrow> seg bs x xs' HEAD"
      using d Cons \<open>?n = x\<close> by (intro seg_cong) (auto simp: nx pr)
    ultimately show ?thesis using Cons d by (auto simp: nx pr)
  qed
qed

text \<open>brelse moves a buffer to the front of the list.\<close>

lemma chain_to_front:
  assumes "chain bs (us @ b # vs)"
  shows "chain (link_front b (unlink b bs)) (b # us @ vs)"
  using assms chain_unlink [OF assms] unfolding chain_def
  by (intro conjI seg_link_front) (auto simp: unlink_core link_front_core)

text \<open>The scans of bget are searches of this list, forwards and backwards.\<close>

lemma scan_next_find:
  "seg bs a xs HEAD \<Longrightarrow> HEAD \<notin> set xs \<Longrightarrow> length xs \<le> n \<Longrightarrow>
   scan_next n P bs (b_next (bs ! a)) = List.find (\<lambda>b. P (bs ! b)) xs"
proof (induction xs arbitrary: a n)
  case Nil
  then show ?case by (cases n) auto
next
  case (Cons x xs)
  then obtain m where n: "n = Suc m" by (cases n) auto
  have "x \<noteq> HEAD" using Cons.prems(2) by auto
  then show ?case using Cons.IH [of x m] Cons.prems n by auto
qed

lemma scan_prev_find:
  "seg bs HEAD xs a \<Longrightarrow> HEAD \<notin> set xs \<Longrightarrow> length xs \<le> n \<Longrightarrow>
   scan_prev n P bs (b_prev (bs ! a)) = List.find (\<lambda>b. P (bs ! b)) (rev xs)"
proof (induction xs arbitrary: a n rule: rev_induct)
  case Nil
  then show ?case by (cases n) auto
next
  case (snoc x xs)
  then obtain m where n: "n = Suc m" by (cases n) auto
  have "x \<noteq> HEAD" "b_prev (bs ! a) = x" "seg bs HEAD xs x"
    using snoc.prems(1,2) by (auto simp: seg_append)
  then show ?case using snoc.IH [of x m] snoc.prems n by auto
qed


section \<open>Invariant\<close>

text \<open>Buffer \<open>i\<close> is the one for block \<open>blk\<close> of the root device.\<close>

definition cached :: "kstate \<Rightarrow> u32 \<Rightarrow> nat \<Rightarrow> bool" where
  "cached s blk i \<longleftrightarrow> i < NBUF \<and> b_dev (bufs s ! i) = ROOTDEV \<and> b_blockno (bufs s ! i) = blk"

text \<open>The current contents of a block: its valid buffer, or else the disk.\<close>

definition content :: "kstate \<Rightarrow> u32 \<Rightarrow> block" where
  "content s blk =
     (case List.find (\<lambda>i. cached s blk i \<and> b_valid (bufs s ! i)) [0..<NBUF] of
        Some i \<Rightarrow> b_data (bufs s ! i)
      | None \<Rightarrow> disk s blk)"

text \<open>
  The invariant of the cache: the list links all buffers, a block has at most one buffer, blocks
  have BSIZE bytes, and a valid buffer nobody references agrees with the disk.
\<close>

definition binv :: "kstate \<Rightarrow> bool" where
  "binv s \<longleftrightarrow>
     (\<exists>xs. chain (bufs s) xs \<and> set xs = {..<NBUF}) \<and>
     length (procs s) = NPROC \<and> cur s < NPROC \<and>
     (\<forall>i<NBUF. length (b_data (bufs s ! i)) = BSIZE \<and>
        (b_dev (bufs s ! i) = 0 \<or> b_dev (bufs s ! i) = ROOTDEV)) \<and>
     (\<forall>b. length (disk s b) = BSIZE) \<and>
     (\<forall>blk i j. cached s blk i \<longrightarrow> cached s blk j \<longrightarrow> i = j) \<and>
     (\<forall>blk i. cached s blk i \<longrightarrow> b_valid (bufs s ! i) \<longrightarrow> b_refcnt (bufs s ! i) = 0 \<longrightarrow>
        b_data (bufs s ! i) = disk s blk)"

definition mylock :: "kstate \<Rightarrow> sleeplock" where
  "mylock s = \<lparr>sl_locked = True, sl_pid = p_pid (procs s ! cur s)\<rparr>"

text \<open>The running process holds the locks of the buffers in \<open>H\<close>, and the other locks are free.\<close>

definition locked :: "nat set \<Rightarrow> kstate \<Rightarrow> bool" where
  "locked H s \<longleftrightarrow> (\<forall>i<NBUF. if i \<in> H then b_lock (bufs s ! i) = mylock s \<and> b_refcnt (bufs s ! i) \<noteq> 0
     else \<not> sl_locked (b_lock (bufs s ! i)))"

lemma find_upt_None: "List.find P [0..<n] = None \<longleftrightarrow> (\<forall>i<n. \<not> P i)"
  by (simp add: find_None_iff)

lemma find_upt_Some: "List.find P [0..<n] = Some i \<Longrightarrow> i < n \<and> P i"
  by (auto simp: find_Some_iff)

lemma binv_len: "binv s \<Longrightarrow> length (bufs s) = NBUF + 1"
  by (auto simp: binv_def chain_def)

lemma binv_unique: "binv s \<Longrightarrow> cached s blk i \<Longrightarrow> cached s blk j \<Longrightarrow> i = j"
  unfolding binv_def by blast

lemma binv_coherent:
  "binv s \<Longrightarrow> cached s blk i \<Longrightarrow> b_valid (bufs s ! i) \<Longrightarrow> b_refcnt (bufs s ! i) = 0 \<Longrightarrow>
     b_data (bufs s ! i) = disk s blk"
  unfolding binv_def by blast

lemma cached_lt: "cached s blk i \<Longrightarrow> i < NBUF"
  by (simp add: cached_def)

lemma content_cached:
  assumes "binv s" "cached s blk i" "b_valid (bufs s ! i)"
  shows "content s blk = b_data (bufs s ! i)"
proof (cases "List.find (\<lambda>i. cached s blk i \<and> b_valid (bufs s ! i)) [0..<NBUF]")
  case None
  then show ?thesis using assms(2,3) cached_lt [OF assms(2)] unfolding find_upt_None by blast
next
  case (Some j)
  then have "j = i" using find_upt_Some [OF Some] binv_unique [OF assms(1)] assms(2) by blast
  then show ?thesis using Some by (simp add: content_def)
qed

lemma content_uncached:
  assumes "\<And>i. cached s blk i \<Longrightarrow> \<not> b_valid (bufs s ! i)"
  shows "content s blk = disk s blk"
proof -
  have "List.find (\<lambda>i. cached s blk i \<and> b_valid (bufs s ! i)) [0..<NBUF] = None"
    using assms unfolding find_upt_None by blast
  then show ?thesis by (simp add: content_def)
qed

lemma length_content:
  assumes "binv s"
  shows "length (content s blk) = BSIZE"
proof (cases "List.find (\<lambda>i. cached s blk i \<and> b_valid (bufs s ! i)) [0..<NBUF]")
  case None
  then show ?thesis using assms by (simp add: content_def binv_def)
next
  case (Some j)
  then show ?thesis using assms find_upt_Some [OF Some] by (simp add: content_def binv_def)
qed

text \<open>Without references, the contents are those of the disk.\<close>

lemma content_disk:
  assumes "binv s" "\<And>i. cached s blk i \<Longrightarrow> b_refcnt (bufs s ! i) = 0"
  shows "content s blk = disk s blk"
proof (cases "\<exists>i. cached s blk i \<and> b_valid (bufs s ! i)")
  case True
  then obtain i where i: "cached s blk i" "b_valid (bufs s ! i)" by blast
  then have "b_data (bufs s ! i) = disk s blk" using assms unfolding binv_def by blast
  then show ?thesis using content_cached [OF assms(1) i] by simp
qed (auto intro: content_uncached)

section \<open>Finding a buffer\<close>

lemma binv_list:
  assumes "binv s"
  obtains xs where "chain (bufs s) xs" "set xs = {..<NBUF}" "length xs = NBUF"
proof -
  obtain xs where xs: "chain (bufs s) xs" "set xs = {..<NBUF}" using assms by (auto simp: binv_def)
  then have "length xs = NBUF" using distinct_card [of xs] by (simp add: chain_def)
  with xs that show thesis by blast
qed

lemma find_cached_cases:
  assumes "binv s"
  shows "case find_cached ROOTDEV blk (bufs s) of Some b \<Rightarrow> cached s blk b | None \<Rightarrow> \<forall>i. \<not> cached s blk i"
proof -
  obtain xs where xs: "chain (bufs s) xs" "set xs = {..<NBUF}" "length xs = NBUF"
    using binv_list [OF assms] .
  have "find_cached ROOTDEV blk (bufs s) =
      List.find (\<lambda>b. b_dev (bufs s ! b) = ROOTDEV \<and> b_blockno (bufs s ! b) = blk) xs"
    unfolding find_cached_def using xs(1,3) by (intro scan_next_find) (auto simp: chain_def)
  then show ?thesis
    using xs(2) by (auto simp: find_None_iff cached_def find_Some_iff split: option.splits)
qed

lemma find_unused_cases:
  assumes "binv s"
  shows "case find_unused (bufs s) of Some b \<Rightarrow> b < NBUF \<and> b_refcnt (bufs s ! b) = 0
    | None \<Rightarrow> \<forall>i<NBUF. b_refcnt (bufs s ! i) \<noteq> 0"
proof -
  obtain xs where xs: "chain (bufs s) xs" "set xs = {..<NBUF}" "length xs = NBUF"
    using binv_list [OF assms] .
  have "find_unused (bufs s) = List.find (\<lambda>b. b_refcnt (bufs s ! b) = 0) (rev xs)"
    unfolding find_unused_def using xs(1,3) by (intro scan_prev_find) (auto simp: chain_def)
  moreover have "set (rev xs) = {..<NBUF}" using xs(2) by simp
  ultimately show ?thesis
    by (auto simp: find_None_iff find_Some_iff set_conv_nth split: option.splits)
qed


section \<open>Reading, writing and releasing a block\<close>

lemma acquiresleep_free:
  "\<not> sl_locked (b_lock (bufs s ! b)) \<Longrightarrow>
   acquiresleep (buf_lock b) (upd_buf_lock b) ch s = Ok () (upd_buf b (\<lambda>k. k\<lparr>b_lock := mylock s\<rparr>) s)"
  by (simp add: acquiresleep_def buf_lock_def upd_buf_lock_def myproc_def get_proc_def mylock_def)

lemma locked_free: "locked H s \<Longrightarrow> b < NBUF \<Longrightarrow> b \<notin> H \<Longrightarrow> \<not> sl_locked (b_lock (bufs s ! b))"
  by (auto simp: locked_def)

lemma upd_nth_eq: "upd_nth b f xs = xs[b := f (xs ! b)]"
  by (simp add: upd_nth_def)

lemma upd_buf_eq: "upd_buf b f s = s\<lparr>bufs := (bufs s)[b := f (bufs s ! b)]\<rparr>"
  by (simp add: upd_nth_def)

lemma kthen_disk_read:
  "kthen (disk_rw b False) n s = n (upd_buf b (\<lambda>k. k\<lparr>b_data := disk s (b_blockno (bufs s ! b))\<rparr>) s)"
  by (simp add: disk_rw_def get_buf_def set_buf_def kthen_def kbind_def)

text \<open>The buffer bread returns: locked, referenced once more, and with the block's contents.\<close>

definition fetched :: "kstate \<Rightarrow> u32 \<Rightarrow> nat \<Rightarrow> buf" where
  "fetched s blk b = (bufs s ! b)\<lparr>b_dev := ROOTDEV, b_blockno := blk,
     b_refcnt := b_refcnt (bufs s ! b) + 1, b_lock := mylock s, b_data := content s blk,
     b_valid := True\<rparr>"

lemma bread_hit:
  assumes inv: "binv s" and l: "locked H s" and c: "cached s blk b" and H: "b \<notin> H"
  shows "bread ROOTDEV blk s = Ok b (s\<lparr>bufs := (bufs s)[b := fetched s blk b]\<rparr>)"
proof -
  have b: "b < NBUF" using c by (rule cached_lt)
  have len: "b < length (bufs s)" using binv_len [OF inv] b by simp
  have f: "find_cached ROOTDEV blk (bufs s) = Some b"
  proof (cases "find_cached ROOTDEV blk (bufs s)")
    case None
    then show ?thesis using find_cached_cases [OF inv, of blk] c by simp
  next
    case (Some b')
    then have "cached s blk b'" using find_cached_cases [OF inv, of blk] by simp
    then show ?thesis using Some binv_unique [OF inv _ c] by simp
  qed
  have free: "\<not> sl_locked (b_lock (bufs s ! b))" using locked_free [OF l b H] .
  let ?s1 = "upd_buf b (\<lambda>k. k\<lparr>b_refcnt := b_refcnt k + 1\<rparr>) s"
  have "\<not> sl_locked (b_lock (bufs ?s1 ! b))" using free len by simp
  from acquiresleep_free [OF this]
  have g: "bget ROOTDEV blk s = Ok b (upd_buf b (\<lambda>k. k\<lparr>b_refcnt := b_refcnt k + 1, b_lock := mylock s\<rparr>) s)"
    using f len by (simp add: bget_def set_buf_def kthen_def kbind_def mylock_def comp_def)
  show ?thesis
  proof (cases "b_valid (bufs s ! b)")
    case True
    then have "content s blk = b_data (bufs s ! b)" using content_cached [OF inv c] by simp
    then have "fetched s blk b = (bufs s ! b)\<lparr>b_refcnt := b_refcnt (bufs s ! b) + 1, b_lock := mylock s\<rparr>"
      using True c by (simp add: fetched_def cached_def)
    then show ?thesis
      using True len by (simp add: bread_def kbind_def [of "bget _ _"] g get_buf_def upd_nth_eq)
  next
    case False
    then have "content s blk = disk s blk" using binv_unique [OF inv c] by (intro content_uncached) auto
    then have "fetched s blk b = (bufs s ! b)\<lparr>b_refcnt := b_refcnt (bufs s ! b) + 1, b_lock := mylock s,
        b_data := disk s blk, b_valid := True\<rparr>"
      using c by (cases "bufs s ! b") (simp add: fetched_def cached_def)
    then show ?thesis
      using False c len
      by (simp add: bread_def kbind_def [of "bget _ _"] g get_buf_def kthen_disk_read set_buf_def upd_buf_eq
          cached_def)
  qed
qed

lemma bread_miss:
  assumes inv: "binv s" and l: "locked H s" and c: "\<forall>i. \<not> cached s blk i"
    and u: "find_unused (bufs s) = Some b"
  shows "b < NBUF \<and> b \<notin> H \<and> b_refcnt (bufs s ! b) = 0 \<and>
    bread ROOTDEV blk s = Ok b (s\<lparr>bufs := (bufs s)[b := fetched s blk b]\<rparr>)"
proof -
  have b: "b < NBUF" and r: "b_refcnt (bufs s ! b) = 0"
    using find_unused_cases [OF inv] u by (auto split: option.splits)
  have H: "b \<notin> H" using l b r by (auto simp: locked_def)
  have len: "b < length (bufs s)" using binv_len [OF inv] b by simp
  have f: "find_cached ROOTDEV blk (bufs s) = None"
    using find_cached_cases [OF inv, of blk] c by (auto split: option.splits)
  have free: "\<not> sl_locked (b_lock (bufs s ! b))" using locked_free [OF l b H] .
  let ?s1 = "upd_buf b (\<lambda>k. k\<lparr>b_dev := ROOTDEV, b_blockno := blk, b_valid := False, b_refcnt := 1\<rparr>) s"
  have "\<not> sl_locked (b_lock (bufs ?s1 ! b))" using free len by simp
  from acquiresleep_free [OF this]
  have g: "bget ROOTDEV blk s = Ok b (upd_buf b (\<lambda>k. k\<lparr>b_dev := ROOTDEV, b_blockno := blk,
      b_valid := False, b_refcnt := 1, b_lock := mylock s\<rparr>) s)"
    using f u len by (simp add: bget_def set_buf_def kthen_def kbind_def mylock_def comp_def)
  have "content s blk = disk s blk" using c by (intro content_uncached) auto
  then have "bread ROOTDEV blk s = Ok b (s\<lparr>bufs := (bufs s)[b := fetched s blk b]\<rparr>)"
    using len r
    by (simp add: bread_def kbind_def [of "bget _ _"] g get_buf_def kthen_disk_read set_buf_def upd_buf_eq
        fetched_def)
  with b H r show ?thesis by blast
qed

text \<open>Changing one buffer but not its links.\<close>

lemma chain_update:
  assumes "chain bs xs" "b_next K = b_next (bs ! b)" "b_prev K = b_prev (bs ! b)"
  shows "chain (bs[b := K]) xs"
proof -
  have "b_next (bs[b := K] ! y) = b_next (bs ! y)" "b_prev (bs[b := K] ! y) = b_prev (bs ! y)" for y
    using assms(2,3) by (cases "y = b"; cases "b < length bs"; simp add: list_update_beyond)+
  then have "seg (bs[b := K]) a ys c \<longleftrightarrow> seg bs a ys c" for a ys c by (intro seg_cong) auto
  then show ?thesis using assms(1) by (simp add: chain_def)
qed

lemma cached_update:
  assumes "length (bufs s) = NBUF + 1" "b < NBUF"
  shows "cached (s\<lparr>bufs := (bufs s)[b := K]\<rparr>) blk i \<longleftrightarrow>
    (if i = b then b_dev K = ROOTDEV \<and> b_blockno K = blk else cached s blk i)"
  using assms by (auto simp: cached_def)

text \<open>A referenced buffer may take over a block no other buffer has.\<close>

lemma binv_update:
  assumes inv: "binv s" and b: "b < NBUF"
    and links: "b_next K = b_next (bufs s ! b)" "b_prev K = b_prev (bufs s ! b)"
    and K: "length (b_data K) = BSIZE" "b_dev K = ROOTDEV"
    and other: "\<And>i. cached s (b_blockno K) i \<Longrightarrow> i = b"
    and coh: "b_valid K \<Longrightarrow> b_refcnt K = 0 \<Longrightarrow> b_data K = disk s (b_blockno K)"
  shows "binv (s\<lparr>bufs := (bufs s)[b := K]\<rparr>)"
proof -
  have len: "length (bufs s) = NBUF + 1" using inv by (rule binv_len)
  note cu = cached_update [OF len b]
  obtain xs where xs: "chain (bufs s) xs" "set xs = {..<NBUF}" using inv by (auto simp: binv_def)
  show ?thesis
    unfolding binv_def
  proof (intro conjI allI impI)
    show "\<exists>xs. chain (bufs (s\<lparr>bufs := (bufs s)[b := K]\<rparr>)) xs \<and> set xs = {..<NBUF}"
      using chain_update [OF xs(1) links] xs(2) by auto
    show "i = j" if "cached (s\<lparr>bufs := (bufs s)[b := K]\<rparr>) blk i" "cached (s\<lparr>bufs := (bufs s)[b := K]\<rparr>) blk j"
      for blk i j
    proof -
      have own: "blk = b_blockno K" if "cached (s\<lparr>bufs := (bufs s)[b := K]\<rparr>) blk b"
        using that unfolding cu by simp
      have old: "cached s blk y" if "cached (s\<lparr>bufs := (bufs s)[b := K]\<rparr>) blk y" "y \<noteq> b" for y
        using that unfolding cu by simp
      show ?thesis
      proof (cases "i = b \<or> j = b")
        case True
        then have "blk = b_blockno K" using own that by blast
        then have "y = b" if "cached (s\<lparr>bufs := (bufs s)[b := K]\<rparr>) blk y" for y
          using old [OF that] other by blast
        then show ?thesis using that by blast
      qed (use old that binv_unique [OF inv] in blast)
    qed
    show "b_data (bufs (s\<lparr>bufs := (bufs s)[b := K]\<rparr>) ! i) = disk (s\<lparr>bufs := (bufs s)[b := K]\<rparr>) blk"
      if "cached (s\<lparr>bufs := (bufs s)[b := K]\<rparr>) blk i" "b_valid (bufs (s\<lparr>bufs := (bufs s)[b := K]\<rparr>) ! i)"
        "b_refcnt (bufs (s\<lparr>bufs := (bufs s)[b := K]\<rparr>) ! i) = 0" for blk i
    proof (cases "i = b")
      case True
      then show ?thesis using that coh len b unfolding cu by simp
    next
      case False
      then have "cached s blk i" "b_valid (bufs s ! i)" "b_refcnt (bufs s ! i) = 0"
        using that unfolding cu by simp_all
      then have "b_data (bufs s ! i) = disk s blk" using inv unfolding binv_def by blast
      then show ?thesis using False by simp
    qed
    show "length (b_data (bufs (s\<lparr>bufs := (bufs s)[b := K]\<rparr>) ! i)) = BSIZE" if "i < NBUF" for i
      using that inv len b K by (cases "i = b") (auto simp: binv_def)
    show "b_dev (bufs (s\<lparr>bufs := (bufs s)[b := K]\<rparr>) ! i) = 0 \<or>
        b_dev (bufs (s\<lparr>bufs := (bufs s)[b := K]\<rparr>) ! i) = ROOTDEV" if "i < NBUF" for i
      using that inv len b K by (cases "i = b") (auto simp: binv_def)
  qed (use inv in \<open>auto simp: binv_def\<close>)
qed

text \<open>
  bread returns a buffer of the block whenever the block has one or some buffer is unreferenced.
\<close>

lemma bread_spec:
  assumes inv: "binv s" and l: "locked H s" and H: "\<And>i. cached s blk i \<Longrightarrow> i \<notin> H"
    and avail: "(\<exists>i. cached s blk i) \<or> (\<exists>i<NBUF. b_refcnt (bufs s ! i) = 0)"
    and small: "\<And>i. i < NBUF \<Longrightarrow> b_refcnt (bufs s ! i) \<noteq> - 1"
  shows "\<exists>b. bread ROOTDEV blk s = Ok b (s\<lparr>bufs := (bufs s)[b := fetched s blk b]\<rparr>) \<and> b < NBUF \<and> b \<notin> H \<and>
    (cached s blk b \<or> (\<forall>i. \<not> cached s blk i) \<and> b_refcnt (bufs s ! b) = 0) \<and>
    binv (s\<lparr>bufs := (bufs s)[b := fetched s blk b]\<rparr>) \<and>
    locked (insert b H) (s\<lparr>bufs := (bufs s)[b := fetched s blk b]\<rparr>)"
proof -
  obtain b where r: "bread ROOTDEV blk s = Ok b (s\<lparr>bufs := (bufs s)[b := fetched s blk b]\<rparr>)"
    and b: "b < NBUF" "b \<notin> H" "cached s blk b \<or> (\<forall>i. \<not> cached s blk i) \<and> b_refcnt (bufs s ! b) = 0"
  proof (cases "\<exists>i. cached s blk i")
    case True
    then obtain i where i: "cached s blk i" by blast
    from bread_hit [OF inv l i H [OF i]] i H [OF i] that show thesis using cached_lt by blast
  next
    case False
    then have "find_unused (bufs s) \<noteq> None"
      using avail find_unused_cases [OF inv] by (auto split: option.splits)
    then obtain b where "find_unused (bufs s) = Some b" by blast
    from bread_miss [OF inv l _ this] False that show thesis by blast
  qed
  have ref: "b_refcnt (fetched s blk b) \<noteq> 0"
    using small [OF b(1)] by (simp add: fetched_def) (metis add_eq_0_iff minus_equation_iff)
  have "binv (s\<lparr>bufs := (bufs s)[b := fetched s blk b]\<rparr>)"
    using b(1,3) ref binv_unique [OF inv] length_content [OF inv]
    by (intro binv_update [OF inv]) (auto simp: fetched_def)
  moreover have "locked (insert b H) (s\<lparr>bufs := (bufs s)[b := fetched s blk b]\<rparr>)"
    using l ref binv_len [OF inv] b(1)
    by (auto simp: locked_def nth_list_update fetched_def mylock_def)
  ultimately show ?thesis using r b by blast
qed


text \<open>The invariants depend on the buffers only up to their links, given some list.\<close>

lemma cached_core:
  assumes "\<And>i. i < NBUF \<Longrightarrow> core (bufs s' ! i) = core (bufs s ! i)"
  shows "cached s' blk i \<longleftrightarrow> cached s blk i"
  unfolding cached_def using assms [of i] core_eqD(2,3) [of "bufs s' ! i" "bufs s ! i"] by auto

lemma binv_core:
  assumes inv: "binv s" and xs: "chain (bufs s') xs" "set xs = {..<NBUF}"
    and c: "\<And>i. i < NBUF \<Longrightarrow> core (bufs s' ! i) = core (bufs s ! i)"
    and f: "disk s' = disk s" "length (procs s') = length (procs s)" "cur s' = cur s"
  shows "binv s'"
proof -
  have e: "b_data (bufs s' ! i) = b_data (bufs s ! i)" "b_dev (bufs s' ! i) = b_dev (bufs s ! i)"
    "b_valid (bufs s' ! i) = b_valid (bufs s ! i)" "b_refcnt (bufs s' ! i) = b_refcnt (bufs s ! i)"
    if "i < NBUF" for i using core_eqD [OF c [OF that]] by auto
  have cc: "cached s' blk i \<longleftrightarrow> cached s blk i" for blk i using c by (rule cached_core)
  show ?thesis
    unfolding binv_def cc
  proof (intro conjI allI impI)
    show "\<exists>xs. chain (bufs s') xs \<and> set xs = {..<NBUF}" using xs by blast
    show "b_data (bufs s' ! i) = disk s' blk"
      if "cached s blk i" "b_valid (bufs s' ! i)" "b_refcnt (bufs s' ! i) = 0" for blk i
      using that inv e [OF cached_lt [OF that(1)]] f(1) unfolding binv_def by metis
    show "i = j" if "cached s blk i" "cached s blk j" for blk i j using that binv_unique [OF inv] by blast
  qed (use inv e f in \<open>auto simp: binv_def\<close>)
qed

lemma locked_core:
  assumes "locked H s" "\<And>i. i < NBUF \<Longrightarrow> core (bufs s' ! i) = core (bufs s ! i)" "mylock s' = mylock s"
  shows "locked H s'"
  unfolding locked_def
proof (intro allI impI)
  fix i assume i: "i < NBUF"
  have "b_lock (bufs s' ! i) = b_lock (bufs s ! i)" "b_refcnt (bufs s' ! i) = b_refcnt (bufs s ! i)"
    using core_eqD [OF assms(2) [OF i]] by auto
  then show "if i \<in> H then b_lock (bufs s' ! i) = mylock s' \<and> b_refcnt (bufs s' ! i) \<noteq> 0
      else \<not> sl_locked (b_lock (bufs s' ! i))"
    using assms(1,3) i by (simp add: locked_def)
qed

lemma held_lock:
  assumes "locked H s" "b \<in> H" "b < NBUF"
  shows "holdingsleep (buf_lock b) s" "b_refcnt (bufs s ! b) \<noteq> 0"
  using assms by (auto simp: holdingsleep_def buf_lock_def locked_def mylock_def)

text \<open>bwrite stores the buffer on the disk.\<close>

lemma bwrite_spec:
  assumes inv: "binv s" and l: "locked H s" and b: "b \<in> H" "b < NBUF" and dev: "b_dev (bufs s ! b) = ROOTDEV"
  defines "s' \<equiv> s\<lparr>disk := (disk s)(b_blockno (bufs s ! b) := b_data (bufs s ! b)),
      disk_writes := (b_blockno (bufs s ! b), b_data (bufs s ! b)) # disk_writes s\<rparr>"
  shows "bwrite b s = Ok () s'" "binv s'" "locked H s'"
proof -
  show "bwrite b s = Ok () s'"
    using held_lock(1) [OF l b] by (simp add: bwrite_def disk_rw_def get_buf_def s'_def)
  have c: "cached s' blk i \<longleftrightarrow> cached s blk i" for blk i by (simp add: cached_def s'_def)
  have own: "cached s (b_blockno (bufs s ! b)) b" using b(2) dev by (simp add: cached_def)
  show "binv s'"
    unfolding binv_def c
  proof (intro conjI allI impI)
    show "b_data (bufs s' ! i) = disk s' blk"
      if i: "cached s blk i" "b_valid (bufs s' ! i)" "b_refcnt (bufs s' ! i) = 0" for blk i
    proof -
      have "i \<noteq> b" using i(3) held_lock(2) [OF l b] by (auto simp: s'_def)
      then have "blk \<noteq> b_blockno (bufs s ! b)" using i(1) own binv_unique [OF inv] by blast
      moreover have "b_data (bufs s ! i) = disk s blk"
        using i inv unfolding binv_def by (simp add: s'_def)
      ultimately show ?thesis by (simp add: s'_def)
    qed
    show "i = j" if "cached s blk i" "cached s blk j" for blk i j using that binv_unique [OF inv] by blast
  qed (use inv b(2) in \<open>auto simp: binv_def s'_def\<close>)
  show "locked H s'" using l by (auto simp: locked_def s'_def mylock_def)
qed

abbreviation (input) unlocked :: sleeplock where
  "unlocked \<equiv> \<lparr>sl_locked = False, sl_pid = 0\<rparr>"

text \<open>
  brelse gives up the lock and the reference, and moves a buffer without references to the front
  of the list. The last reference may go only when the buffer agrees with the disk.
\<close>

lemma brelse_spec:
  assumes inv: "binv s" and l: "locked H s" and b: "b \<in> H" "b < NBUF" and dev: "b_dev (bufs s ! b) = ROOTDEV"
    and clean: "b_refcnt (bufs s ! b) = 1 \<Longrightarrow> b_valid (bufs s ! b) \<Longrightarrow>
      b_data (bufs s ! b) = disk s (b_blockno (bufs s ! b))"
  shows "\<exists>bs. brelse b s = Ok () (s\<lparr>procs := map (wake_proc (Some (ChBufLock b))) (procs s), bufs := bs\<rparr>) \<and>
    length bs = NBUF + 1 \<and> (\<forall>i. i \<noteq> b \<longrightarrow> core (bs ! i) = core (bufs s ! i)) \<and>
    core (bs ! b) = core ((bufs s ! b)\<lparr>b_lock := unlocked, b_refcnt := b_refcnt (bufs s ! b) - 1\<rparr>) \<and>
    binv (s\<lparr>procs := map (wake_proc (Some (ChBufLock b))) (procs s), bufs := bs\<rparr>) \<and>
    locked (H - {b}) (s\<lparr>procs := map (wake_proc (Some (ChBufLock b))) (procs s), bufs := bs\<rparr>)"
proof -
  let ?ps = "map (wake_proc (Some (ChBufLock b))) (procs s)"
  let ?K = "(bufs s ! b)\<lparr>b_lock := unlocked, b_refcnt := b_refcnt (bufs s ! b) - 1\<rparr>"
  let ?bs = "(bufs s)[b := ?K]"
  let ?bs' = "if b_refcnt ?K = 0 then link_front b (unlink b ?bs) else ?bs"
  let ?s1 = "s\<lparr>bufs := ?bs\<rparr>"
  let ?s' = "s\<lparr>procs := ?ps, bufs := ?bs'\<rparr>"
  have len: "length (bufs s) = NBUF + 1" using inv by (rule binv_len)
  have lp: "length (procs s) = NPROC" "cur s < NPROC" using inv by (auto simp: binv_def)
  have run: "brelse b s = Ok () ?s'"
    using held_lock(1) [OF l b] len b(2) lp
    by (simp add: brelse_def releasesleep_def kthen_def kbind_def upd_buf_lock_def set_buf_def
        get_buf_def wakeup_eq upd_nth_eq)
  have inv1: "binv ?s1"
  proof (rule binv_update [OF inv b(2)])
    show "i = b" if "cached s (b_blockno ?K) i" for i
      using that b(2) dev binv_unique [OF inv, of "b_blockno ?K" i b] by (simp add: cached_def)
    show "b_data ?K = disk s (b_blockno ?K)" if "b_valid ?K" "b_refcnt ?K = 0"
      using that clean by simp
  qed (use inv b(2) dev in \<open>auto simp: binv_def\<close>)
  have c: "core (?bs' ! i) = core (?bs ! i)" for i by (simp add: link_front_core unlink_core)
  obtain xs where xs: "chain (bufs ?s1) xs" "set xs = {..<NBUF}" using inv1 by (auto simp: binv_def)
  have "\<exists>ys. chain ?bs' ys \<and> set ys = {..<NBUF}"
  proof (cases "b_refcnt ?K = 0")
    case True
    have "b \<in> set xs" using xs(2) b(2) by simp
    then obtain us vs where uv: "xs = us @ b # vs" by (auto simp: in_set_conv_decomp)
    have "chain ?bs' (b # us @ vs)" using chain_to_front [of ?bs us b vs] xs(1) True uv by simp
    moreover have "set (b # us @ vs) = {..<NBUF}" using xs(2) uv by auto
    ultimately show ?thesis by blast
  qed (use xs in auto)
  then obtain ys where ys: "chain (bufs ?s') ys" "set ys = {..<NBUF}" by auto
  have inv': "binv ?s'"
    using binv_core [OF inv1 ys] c lp by simp
  have ml: "mylock ?s' = mylock s" using lp by (simp add: mylock_def)
  have "locked (H - {b}) ?s1"
    using l len b(2) by (auto simp: locked_def nth_list_update mylock_def)
  then have l': "locked (H - {b}) ?s'"
    by (rule locked_core) (use c ml in \<open>simp_all add: mylock_def\<close>)
  show ?thesis
  proof (intro exI [of _ ?bs'] conjI allI impI)
    show "length ?bs' = NBUF + 1" using len by (simp add: link_front_core unlink_core)
    show "core (?bs' ! i) = core (bufs s ! i)" if "i \<noteq> b" for i using c [of i] that by simp
    show "core (?bs' ! b) = core ?K" using c [of b] len b(2) by simp
  qed (use run inv' l' in auto)
qed


section \<open>Initialisation\<close>

text \<open>Static variables are zero when binit runs: no buffer belongs to a device.\<close>

definition zero_bufs :: "kstate \<Rightarrow> bool" where
  "zero_bufs s \<longleftrightarrow> length (bufs s) = NBUF + 1 \<and> length (procs s) = NPROC \<and> cur s < NPROC \<and>
     (\<forall>i<NBUF. b_dev (bufs s ! i) = 0 \<and> b_refcnt (bufs s ! i) = 0 \<and> length (b_data (bufs s ! i)) = BSIZE) \<and>
     (\<forall>b. length (disk s b) = BSIZE)"

text \<open>After the first rounds of the loop of binit the buffers seen are linked, last first.\<close>

definition linked :: "kstate \<Rightarrow> nat list \<Rightarrow> kstate \<Rightarrow> bool" where
  "linked s ds t \<longleftrightarrow> t = s\<lparr>bufs := bufs t\<rparr> \<and> length (bufs t) = NBUF + 1 \<and> seg (bufs t) HEAD (rev ds) HEAD \<and>
     (\<forall>i\<in>set ds. b_lock (bufs t ! i) = unlocked) \<and>
     (\<forall>i<NBUF. b_dev (bufs t ! i) = b_dev (bufs s ! i) \<and> b_refcnt (bufs t ! i) = b_refcnt (bufs s ! i) \<and>
        b_data (bufs t ! i) = b_data (bufs s ! i))"

lemma linked_step:
  assumes l: "linked s ds t" and b: "b < NBUF" "b \<notin> set ds" and ds: "distinct ds" "set ds \<subseteq> {..<NBUF}"
  shows "wp (kthen (kmodify (bufs_update (link_front b))) (initsleeplock (upd_buf_lock b))) (\<lambda>_. linked s (ds @ [b])) t"
proof -
  let ?bs = "link_front b (bufs t)"
  let ?t = "t\<lparr>bufs := ?bs[b := (?bs ! b)\<lparr>b_lock := unlocked\<rparr>]\<rparr>"
  have len: "length (bufs t) = NBUF + 1" and s: "seg (bufs t) HEAD (rev ds) HEAD" and t: "t = s\<lparr>bufs := bufs t\<rparr>"
    using l by (auto simp: linked_def)
  have lenb: "length ?bs = NBUF + 1" using len by (simp add: link_front_core)
  have "bufs_update (upd_nth b (\<lambda>k. k\<lparr>b_lock := unlocked\<rparr>)) (bufs_update (link_front b) t) = ?t"
    by (cases t) (simp add: upd_nth_def)
  then have run: "kthen (kmodify (bufs_update (link_front b))) (initsleeplock (upd_buf_lock b)) t = Ok () ?t"
    by (simp add: initsleeplock_def upd_buf_lock_def)
  have "seg ?bs HEAD (b # rev ds) HEAD"
    using b ds len by (intro seg_link_front [OF s]) auto
  moreover have "b_next (bufs ?t ! y) = b_next (?bs ! y)" "b_prev (bufs ?t ! y) = b_prev (?bs ! y)" for y
    using lenb b(1) by (cases "y = b"; simp)+
  ultimately have "seg (bufs ?t) HEAD (rev (ds @ [b])) HEAD"
    using seg_cong [of HEAD "b # rev ds" "bufs ?t" ?bs HEAD] by simp
  moreover have "?t = s\<lparr>bufs := bufs ?t\<rparr>" using t by (cases s; cases t) simp
  moreover have "b_lock (bufs ?t ! i) = unlocked" if "i \<in> set (ds @ [b])" for i
  proof (cases "i = b")
    case False
    then have "b_lock (?bs ! i) = b_lock (bufs t ! i)" using core_eqD(4) [OF link_front_core(1)] by simp
    then show ?thesis using False that l by (simp add: linked_def)
  qed (use lenb b(1) in simp)
  moreover have "b_dev (bufs ?t ! i) = b_dev (bufs s ! i) \<and> b_refcnt (bufs ?t ! i) = b_refcnt (bufs s ! i) \<and>
      b_data (bufs ?t ! i) = b_data (bufs s ! i)" if "i < NBUF" for i
    using core_eqD [OF link_front_core(1), of b "bufs t" i] l that lenb by (cases "i = b") (auto simp: linked_def)
  ultimately show ?thesis using run lenb by (auto simp: wp_def linked_def)
qed

lemma binit_spec:
  assumes z: "zero_bufs s"
  shows "\<exists>t. binit s = Ok () t \<and> binv t \<and> locked {} t \<and> t = s\<lparr>bufs := bufs t\<rparr> \<and>
    (\<forall>i<NBUF. b_dev (bufs t ! i) = 0 \<and> b_refcnt (bufs t ! i) = 0)"
proof -
  let ?s1 = "s\<lparr>bufs := (bufs s)[HEAD := (bufs s ! HEAD)\<lparr>b_prev := HEAD, b_next := HEAD\<rparr>]\<rparr>"
  have "linked s [] ?s1" using z by (simp add: linked_def zero_bufs_def)
  then have "wp (kfor [0..<NBUF] (\<lambda>b. kthen (kmodify (bufs_update (link_front b))) (initsleeplock (upd_buf_lock b))))
      (\<lambda>_. linked s [0..<NBUF]) ?s1"
  proof (rule wp_kfor [where I = "linked s", rotated])
    fix ds b rest t
    assume split: "[0..<NBUF] = ds @ b # rest" and l: "linked s ds t"
    have "distinct (ds @ b # rest)" "set (ds @ b # rest) = {..<NBUF}"
      using arg_cong [OF split, of set] split [symmetric] by auto
    then show "wp (kthen (kmodify (bufs_update (link_front b))) (initsleeplock (upd_buf_lock b))) (\<lambda>_. linked s (ds @ [b])) t"
      by (intro linked_step [OF l]) auto
  qed
  then obtain t where t: "binit s = Ok () t" "linked s [0..<NBUF] t"
    by (auto simp: wp_def binit_def set_buf_def upd_buf_eq)
  have f: "length (bufs t) = NBUF + 1" "seg (bufs t) HEAD (rev [0..<NBUF]) HEAD" "t = s\<lparr>bufs := bufs t\<rparr>"
    "\<forall>i<NBUF. b_lock (bufs t ! i) = unlocked"
    "\<forall>i<NBUF. b_dev (bufs t ! i) = 0 \<and> b_refcnt (bufs t ! i) = 0 \<and> length (b_data (bufs t ! i)) = BSIZE"
    using t(2) z by (auto simp: linked_def zero_bufs_def)
  have fr: "disk t = disk s" "procs t = procs s" "cur t = cur s"
    using arg_cong [OF f(3), of disk] arg_cong [OF f(3), of procs] arg_cong [OF f(3), of cur] by simp_all
  have "chain (bufs t) (rev [0..<NBUF])" using f(1,2) by (auto simp: chain_def)
  moreover have "set (rev [0..<NBUF]) = {..<NBUF}" by auto
  ultimately have "binv t"
    using f(5) z fr unfolding binv_def by (auto simp: cached_def zero_bufs_def)
  moreover have "locked {} t" using f(4) by (simp add: locked_def)
  ultimately show ?thesis using t(1) f(3,5) by blast
qed


section \<open>Every use of the cache keeps its invariant\<close>

text \<open>
  The states a process can bring the cache to, with the set of buffers it holds: it reads blocks
  it does not hold already, changes and writes the data of buffers it holds, and releases a buffer
  when the disk has its data.
\<close>

inductive cache_run :: "nat set \<Rightarrow> kstate \<Rightarrow> bool" where
  init: "zero_bufs s \<Longrightarrow> binit s = Ok () t \<Longrightarrow> cache_run {} t"
| read: "cache_run H s \<Longrightarrow> (\<And>i. cached s blk i \<Longrightarrow> i \<notin> H) \<Longrightarrow> card H < NBUF \<Longrightarrow>
    bread ROOTDEV blk s = Ok b t \<Longrightarrow> cache_run (insert b H) t"
| modify: "cache_run H s \<Longrightarrow> b \<in> H \<Longrightarrow> length d = BSIZE \<Longrightarrow>
    set_buf b (\<lambda>k. k\<lparr>b_data := d\<rparr>) s = Ok () t \<Longrightarrow> cache_run H t"
| writes: "cache_run H s \<Longrightarrow> b \<in> H \<Longrightarrow> bwrite b s = Ok () t \<Longrightarrow> cache_run H t"
| release: "cache_run H s \<Longrightarrow> b \<in> H \<Longrightarrow> b_data (bufs s ! b) = disk s (b_blockno (bufs s ! b)) \<Longrightarrow>
    brelse b s = Ok () t \<Longrightarrow> cache_run (H - {b}) t"

definition cache_inv :: "nat set \<Rightarrow> kstate \<Rightarrow> bool" where
  "cache_inv H s \<longleftrightarrow> binv s \<and> locked H s \<and> H \<subseteq> {..<NBUF} \<and>
     (\<forall>i<NBUF. b_refcnt (bufs s ! i) = (if i \<in> H then 1 else 0) \<and> (i \<in> H \<longrightarrow> b_dev (bufs s ! i) = ROOTDEV))"

lemma cache_inv_room:
  assumes "cache_inv H s" "card H < NBUF"
  shows "\<exists>i<NBUF. b_refcnt (bufs s ! i) = 0"
proof (rule ccontr)
  assume "\<not> ?thesis"
  then have "{..<NBUF} \<subseteq> H" using assms(1) by (auto simp: cache_inv_def split: if_splits)
  moreover have "finite H" using assms(1) finite_subset by (auto simp: cache_inv_def)
  ultimately show False using card_mono [of H "{..<NBUF}"] assms(2) by simp
qed

lemma cache_inv_bread:
  assumes c: "cache_inv H s" and H: "\<And>i. cached s blk i \<Longrightarrow> i \<notin> H" and n: "card H < NBUF"
  shows "\<exists>b t. bread ROOTDEV blk s = Ok b t \<and> b_data (bufs t ! b) = content s blk \<and> cache_inv (insert b H) t"
proof -
  have inv: "binv s" "locked H s" and r: "\<And>i. i < NBUF \<Longrightarrow> b_refcnt (bufs s ! i) = (if i \<in> H then 1 else 0)"
    and dev: "\<And>i. i < NBUF \<Longrightarrow> i \<in> H \<Longrightarrow> b_dev (bufs s ! i) = ROOTDEV" and sub: "H \<subseteq> {..<NBUF}"
    using c by (auto simp: cache_inv_def)
  have small: "b_refcnt (bufs s ! i) \<noteq> - 1" if "i < NBUF" for i using r [OF that] by (simp split: if_splits)
  obtain b where b: "bread ROOTDEV blk s = Ok b (s\<lparr>bufs := (bufs s)[b := fetched s blk b]\<rparr>)" "b < NBUF" "b \<notin> H"
      "binv (s\<lparr>bufs := (bufs s)[b := fetched s blk b]\<rparr>)"
      "locked (insert b H) (s\<lparr>bufs := (bufs s)[b := fetched s blk b]\<rparr>)"
    using bread_spec [OF inv H disjI2 [OF cache_inv_room [OF c n]] small] by blast
  let ?t = "s\<lparr>bufs := (bufs s)[b := fetched s blk b]\<rparr>"
  have len: "length (bufs s) = NBUF + 1" using binv_len [OF inv(1)] .
  have "b_refcnt (bufs ?t ! i) = (if i \<in> insert b H then 1 else 0) \<and> (i \<in> insert b H \<longrightarrow> b_dev (bufs ?t ! i) = ROOTDEV)"
    if "i < NBUF" for i
    using r [OF that] dev [OF that] b(2,3) len by (cases "i = b") (auto simp: fetched_def)
  then have "cache_inv (insert b H) ?t" using b(2,4,5) sub by (auto simp: cache_inv_def)
  moreover have "b_data (bufs ?t ! b) = content s blk" using b(2) len by (simp add: fetched_def)
  ultimately show ?thesis using b(1) by blast
qed

lemma cache_inv_modify:
  assumes c: "cache_inv H s" and b: "b \<in> H" and d: "length d = BSIZE"
  shows "cache_inv H (s\<lparr>bufs := (bufs s)[b := (bufs s ! b)\<lparr>b_data := d\<rparr>]\<rparr>)" (is "cache_inv H ?t")
proof -
  have inv: "binv s" "locked H s" and lt: "b < NBUF" and r: "b_refcnt (bufs s ! b) = 1" "b_dev (bufs s ! b) = ROOTDEV"
    using c b by (auto simp: cache_inv_def)
  have len: "length (bufs s) = NBUF + 1" using binv_len [OF inv(1)] .
  have own: "cached s (b_blockno (bufs s ! b)) b" using lt r by (simp add: cached_def)
  have "binv ?t"
  proof (rule binv_update [OF inv(1) lt])
    fix i assume "cached s (b_blockno ((bufs s ! b)\<lparr>b_data := d\<rparr>)) i"
    then have "cached s (b_blockno (bufs s ! b)) i" by simp
    then show "i = b" using own inv(1) unfolding binv_def by blast
  qed (use d r in simp_all)
  moreover have "b_lock (bufs ?t ! i) = b_lock (bufs s ! i)" "b_refcnt (bufs ?t ! i) = b_refcnt (bufs s ! i)"
    "b_dev (bufs ?t ! i) = b_dev (bufs s ! i)" for i
    using len lt by (cases "i = b"; simp)+
  ultimately show ?thesis using c by (simp add: cache_inv_def locked_def mylock_def)
qed

lemma cache_inv_brelse:
  assumes c: "cache_inv H s" and b: "b \<in> H" and d: "b_data (bufs s ! b) = disk s (b_blockno (bufs s ! b))"
  shows "\<exists>t. brelse b s = Ok () t \<and> cache_inv (H - {b}) t"
proof -
  have inv: "binv s" "locked H s" and lt: "b < NBUF" and r: "b_refcnt (bufs s ! b) = 1" "b_dev (bufs s ! b) = ROOTDEV"
    and all: "\<And>i. i < NBUF \<Longrightarrow> b_refcnt (bufs s ! i) = (if i \<in> H then 1 else 0)"
      "\<And>i. i < NBUF \<Longrightarrow> i \<in> H \<Longrightarrow> b_dev (bufs s ! i) = ROOTDEV" and sub: "H \<subseteq> {..<NBUF}"
    using c b by (auto simp: cache_inv_def)
  let ?t = "\<lambda>bs. s\<lparr>procs := map (wake_proc (Some (ChBufLock b))) (procs s), bufs := bs\<rparr>"
  obtain bs where bs: "brelse b s = Ok () (?t bs)" "\<forall>i. i \<noteq> b \<longrightarrow> core (bs ! i) = core (bufs s ! i)"
      "core (bs ! b) = core ((bufs s ! b)\<lparr>b_lock := unlocked, b_refcnt := b_refcnt (bufs s ! b) - 1\<rparr>)"
      "binv (?t bs)" "locked (H - {b}) (?t bs)"
    using brelse_spec [OF inv b lt r(2)] d by blast
  have "b_refcnt (bs ! i) = (if i \<in> H - {b} then 1 else 0) \<and> (i \<in> H - {b} \<longrightarrow> b_dev (bs ! i) = ROOTDEV)" if "i < NBUF" for i
  proof (cases "i = b")
    case True
    then show ?thesis using core_eqD [OF bs(3)] r(1) by simp
  next
    case False
    then show ?thesis using core_eqD [OF bs(2) [rule_format, OF False]] all [OF that] by simp
  qed
  then have "cache_inv (H - {b}) (?t bs)" using bs(4,5) sub by (auto simp: cache_inv_def)
  then show ?thesis using bs(1) by blast
qed

lemma cache_run_inv: "cache_run H s \<Longrightarrow> cache_inv H s"
proof (induction rule: cache_run.induct)
  case (init s t)
  then show ?case using binit_spec [OF init(1)] by (auto simp: cache_inv_def)
next
  case (read H s blk b t)
  then show ?case using cache_inv_bread [OF read(5), of blk] by auto
next
  case (modify H s b d t)
  then show ?case using cache_inv_modify [OF modify(5,2,3)] by (auto simp: set_buf_def upd_buf_eq)
next
  case (writes H s b t)
  then have c: "binv s" "locked H s" "b < NBUF" "b_dev (bufs s ! b) = ROOTDEV" by (auto simp: cache_inv_def)
  show ?case using bwrite_spec [OF c(1,2) writes(2) c(3,4)] writes(3,4) by (auto simp: cache_inv_def)
next
  case (release H s b t)
  then show ?case using cache_inv_brelse [OF release(5,2,3)] by auto
qed


lemma zero_bufs_kstate0: "zero_bufs kstate0"
  by (simp add: zero_bufs_def kstate0_def buf0_def)


end
