(* ===== verification/Xv6_Crash.thy ===== *)
theory Xv6_Crash
  imports Xv6_Log Xv6_Bcache
begin

text \<open>
  Crash safety of the log of Xv6_Log. Commit is characterised by the sequence of blocks it
  writes to the disk; a crash leaves the disk after some prefix of that sequence; recovery from
  any such disk installs either the whole transaction or none of it.
\<close>

section \<open>The cache between operations\<close>

text \<open>A block is pinned when its buffer is referenced while nobody uses it: log_write did it.\<close>

definition pinned :: "kstate \<Rightarrow> u32 \<Rightarrow> bool" where
  "pinned s blk \<longleftrightarrow> (\<exists>i<NBUF. cached s blk i \<and> b_refcnt (bufs s ! i) = 1)"

definition pins :: "kstate \<Rightarrow> u32 \<Rightarrow> block option" where
  "pins s blk = (if pinned s blk then Some (content s blk) else None)"

definition quiet :: "kstate \<Rightarrow> bool" where
  "quiet s \<longleftrightarrow> binv s \<and> locked {} s \<and>
     (\<forall>i<NBUF. b_refcnt (bufs s ! i) = 0 \<or>
        b_refcnt (bufs s ! i) = 1 \<and> b_dev (bufs s ! i) = ROOTDEV \<and> b_valid (bufs s ! i))"

definition room :: "kstate \<Rightarrow> bool" where
  "room s \<longleftrightarrow> (\<exists>i<NBUF. b_refcnt (bufs s ! i) = 0)"

lemma quiet_binv: "quiet s \<Longrightarrow> binv s"
  and quiet_locked: "quiet s \<Longrightarrow> locked {} s"
  by (simp_all add: quiet_def)

lemma quiet_refcnt: "quiet s \<Longrightarrow> i < NBUF \<Longrightarrow> b_refcnt (bufs s ! i) = 0 \<or> b_refcnt (bufs s ! i) = 1"
  unfolding quiet_def by blast

lemma quiet_valid:
  "quiet s \<Longrightarrow> i < NBUF \<Longrightarrow> b_refcnt (bufs s ! i) \<noteq> 0 \<Longrightarrow>
     b_dev (bufs s ! i) = ROOTDEV \<and> b_valid (bufs s ! i)"
  unfolding quiet_def by blast

lemma pinnedI: "cached s blk i \<Longrightarrow> b_refcnt (bufs s ! i) = 1 \<Longrightarrow> pinned s blk"
  using cached_lt by (auto simp: pinned_def)

lemma pins_cached:
  "binv s \<Longrightarrow> cached s blk i \<Longrightarrow> b_refcnt (bufs s ! i) = 1 \<Longrightarrow> b_valid (bufs s ! i) \<Longrightarrow>
     pins s blk = Some (b_data (bufs s ! i))"
  by (simp add: pins_def pinnedI content_cached)

lemma unpinned_refcnt:
  "quiet s \<Longrightarrow> pins s blk = None \<Longrightarrow> cached s blk i \<Longrightarrow> b_refcnt (bufs s ! i) = 0"
  using quiet_refcnt [of s i] pinnedI [of s blk i] cached_lt [of s blk i]
  by (auto simp: pins_def split: if_splits)

lemma unpinned_content: "quiet s \<Longrightarrow> pins s blk = None \<Longrightarrow> content s blk = disk s blk"
  using unpinned_refcnt [of s blk] quiet_binv [of s] by (intro content_disk) auto

lemma pinsE:
  assumes "quiet s" "pins s blk = Some d"
  obtains i where "cached s blk i" "b_refcnt (bufs s ! i) = 1" "b_valid (bufs s ! i)"
    "b_data (bufs s ! i) = d" "content s blk = d"
proof -
  have p: "pinned s blk" and d: "content s blk = d" using assms(2) by (auto simp: pins_def split: if_splits)
  then obtain i where i: "cached s blk i" "b_refcnt (bufs s ! i) = 1" by (auto simp: pinned_def)
  moreover have "b_valid (bufs s ! i)" using quiet_valid [OF assms(1) cached_lt [OF i(1)]] i(2) by simp
  ultimately show thesis using that d content_cached [OF quiet_binv [OF assms(1)] i(1)] by simp
qed

lemma quiet_small: "quiet s \<Longrightarrow> i < NBUF \<Longrightarrow> b_refcnt (bufs s ! i) \<noteq> - 1"
  using quiet_refcnt [of s i] by auto

text \<open>
  After an operation that used the buffers in \<open>B\<close> and may have pinned or unpinned block \<open>h\<close>, the
  cache is at rest again and every other block is pinned as before.
\<close>

lemma settle:
  assumes q: "quiet s" and inv: "binv s'" "locked {} s'"
    and same: "\<And>i. i < NBUF \<Longrightarrow> i \<notin> B \<Longrightarrow> core (bufs s' ! i) = core (bufs s ! i)"
    and before: "\<And>i. i < NBUF \<Longrightarrow> i \<in> B \<Longrightarrow> b_refcnt (bufs s ! i) = 0 \<or> cached s h i"
    and after: "\<And>i. i < NBUF \<Longrightarrow> i \<in> B \<Longrightarrow> b_refcnt (bufs s' ! i) = 0 \<or>
      b_refcnt (bufs s' ! i) = 1 \<and> cached s' h i \<and> b_valid (bufs s' ! i)"
  shows "quiet s'" "\<And>x. x \<noteq> h \<Longrightarrow> pins s' x = pins s x"
proof -
  have e: "b_refcnt (bufs s' ! i) = b_refcnt (bufs s ! i)" "b_valid (bufs s' ! i) = b_valid (bufs s ! i)"
    "b_dev (bufs s' ! i) = b_dev (bufs s ! i)" "b_data (bufs s' ! i) = b_data (bufs s ! i)"
    "cached s' blk i \<longleftrightarrow> cached s blk i" if "i < NBUF" "i \<notin> B" for i blk
    using core_eqD [OF same [OF that]] that by (auto simp: cached_def)
  show "quiet s'"
    unfolding quiet_def
  proof (intro conjI allI impI)
    fix i assume i: "i < NBUF"
    show "b_refcnt (bufs s' ! i) = 0 \<or>
        b_refcnt (bufs s' ! i) = 1 \<and> b_dev (bufs s' ! i) = ROOTDEV \<and> b_valid (bufs s' ! i)"
    proof (cases "i \<in> B")
      case True
      then show ?thesis using after [OF i True] by (auto simp: cached_def)
    next
      case False
      then show ?thesis using e [OF i False] quiet_refcnt [OF q i] quiet_valid [OF q i] by auto
    qed
  qed (use inv in auto)
  fix x assume x: "x \<noteq> h"
  have "cached s' x i \<and> b_refcnt (bufs s' ! i) = 1 \<longleftrightarrow> cached s x i \<and> b_refcnt (bufs s ! i) = 1"
    if i: "i < NBUF" for i
  proof (cases "i \<in> B")
    case True
    have "\<not> (cached s x i \<and> cached s h i)" "\<not> (cached s' x i \<and> cached s' h i)" using x by (auto simp: cached_def)
    then show ?thesis using before [OF i True] after [OF i True] by auto
  qed (use e [OF i] in auto)
  then have p: "pinned s' x \<longleftrightarrow> pinned s x" unfolding pinned_def by blast
  show "pins s' x = pins s x"
  proof (cases "pinned s x")
    case True
    then obtain i where i: "i < NBUF" "cached s x i" "b_refcnt (bufs s ! i) = 1" by (auto simp: pinned_def)
    have nB: "i \<notin> B" using before [OF i(1)] i x by (auto simp: cached_def)
    have v: "b_valid (bufs s ! i)" using quiet_valid [OF q i(1)] i(3) by simp
    have "pins s x = Some (b_data (bufs s ! i))" using pins_cached [OF quiet_binv [OF q] i(2,3) v] .
    moreover have "pins s' x = Some (b_data (bufs s' ! i))"
      using e [OF i(1) nB] i v by (intro pins_cached [OF inv(1)]) auto
    ultimately show ?thesis using e [OF i(1) nB] by simp
  qed (simp add: pins_def p)
qed


section \<open>Working on one or two blocks\<close>

text \<open>A held buffer: its block and what is in it.\<close>

definition holds :: "kstate \<Rightarrow> nat \<Rightarrow> u32 \<Rightarrow> block \<Rightarrow> u32 \<Rightarrow> bool" where
  "holds s b blk d r \<longleftrightarrow> b < NBUF \<and> b_dev (bufs s ! b) = ROOTDEV \<and> b_blockno (bufs s ! b) = blk \<and>
     b_valid (bufs s ! b) \<and> b_data (bufs s ! b) = d \<and> b_refcnt (bufs s ! b) = r"

lemma holds_cached: "holds s b blk d r \<Longrightarrow> cached s blk b"
  by (simp add: holds_def cached_def)

lemma holds_core: "core (bufs s' ! b) = core (bufs s ! b) \<Longrightarrow> holds s' b blk d r \<longleftrightarrow> holds s b blk d r"
  using core_eqD [of "bufs s' ! b" "bufs s ! b"] by (auto simp: holds_def)

lemma holds_fetched:
  assumes "binv s" "b < NBUF"
  shows "holds (s\<lparr>bufs := (bufs s)[b := fetched s blk b]\<rparr>) b blk (content s blk) (b_refcnt (bufs s ! b) + 1)"
  using assms binv_len [OF assms(1)] by (simp add: holds_def fetched_def)

lemma buf_data_apply [simp]: "buf_data b s = Ok (b_data (bufs s ! b)) s"
  by (simp add: buf_data_def get_buf_def)

text \<open>Opening one block at rest.\<close>

lemma open_block:
  assumes q: "quiet s" and r: "room s" and l: "pins s l = None"
  shows "\<exists>b s1. bread ROOTDEV l s = Ok b s1 \<and> s1 = s\<lparr>bufs := bufs s1\<rparr> \<and> binv s1 \<and> locked {b} s1 \<and>
    holds s1 b l (disk s l) 1 \<and> b_refcnt (bufs s ! b) = 0 \<and>
    (\<forall>i. i \<noteq> b \<longrightarrow> bufs s1 ! i = bufs s ! i) \<and> (\<forall>x. x \<noteq> l \<longrightarrow> content s1 x = content s x)"
proof -
  have inv: "binv s" using q by (rule quiet_binv)
  have avail: "(\<exists>i. cached s l i) \<or> (\<exists>i<NBUF. b_refcnt (bufs s ! i) = 0)" using r by (simp add: room_def)
  obtain b where b: "bread ROOTDEV l s = Ok b (s\<lparr>bufs := (bufs s)[b := fetched s l b]\<rparr>)" "b < NBUF"
      "cached s l b \<or> (\<forall>i. \<not> cached s l i) \<and> b_refcnt (bufs s ! b) = 0"
      "binv (s\<lparr>bufs := (bufs s)[b := fetched s l b]\<rparr>)"
      "locked (insert b {}) (s\<lparr>bufs := (bufs s)[b := fetched s l b]\<rparr>)"
    using bread_spec [OF inv quiet_locked [OF q] _ avail quiet_small [OF q]] by blast
  let ?s1 = "s\<lparr>bufs := (bufs s)[b := fetched s l b]\<rparr>"
  have z: "b_refcnt (bufs s ! b) = 0" using b(3) unpinned_refcnt [OF q l] by blast
  have len: "length (bufs s) = NBUF + 1" using inv by (rule binv_len)
  have "content ?s1 x = content s x" if x: "x \<noteq> l" for x
  proof -
    note cu = cached_update [OF len b(2), where K = "fetched s l b"]
    have c: "cached ?s1 x i \<longleftrightarrow> cached s x i \<and> i \<noteq> b" for i
      using x unfolding cu by (auto simp: fetched_def)
    show ?thesis
    proof (cases "\<exists>i. cached s x i \<and> b_valid (bufs s ! i)")
      case True
      then obtain i where i: "cached s x i" "b_valid (bufs s ! i)" by blast
      show ?thesis
      proof (cases "i = b")
        case False
        then show ?thesis
          using content_cached [OF inv i] content_cached [OF b(4), of x i] i c by simp
      next
        case True
        then have "content s x = disk s x"
          using content_cached [OF inv i] binv_coherent [OF inv i] z by simp
        moreover have "content ?s1 x = disk ?s1 x"
          using c True binv_unique [OF inv i(1)] by (intro content_uncached) metis
        ultimately show ?thesis by simp
      qed
    next
      case False
      then have "content s x = disk s x" by (auto intro: content_uncached)
      moreover have "content ?s1 x = disk ?s1 x"
      proof (rule content_uncached)
        fix i assume "cached ?s1 x i"
        then have "cached s x i" "i \<noteq> b" using c by auto
        then show "\<not> b_valid (bufs ?s1 ! i)" using False by simp
      qed
      ultimately show ?thesis by simp
    qed
  qed
  moreover have "holds ?s1 b l (disk s l) 1"
    using holds_fetched [OF inv b(2), of l] unpinned_content [OF q l] z by simp
  ultimately show ?thesis using b z by (intro exI [of _ b] exI [of _ ?s1]) simp
qed

lemma set_buf_data_spec:
  assumes inv: "binv s" and l: "locked H s" and b: "b \<in> H" and h: "holds s b blk d r"
    and len: "length (f d) = BSIZE"
  defines "s' \<equiv> s\<lparr>bufs := (bufs s)[b := (bufs s ! b)\<lparr>b_data := f d\<rparr>]\<rparr>"
  shows "set_buf_data b f s = Ok () s'" "binv s'" "locked H s'" "holds s' b blk (f d) r"
proof -
  have bl: "b < NBUF" and L: "length (bufs s) = NBUF + 1" using h binv_len [OF inv] by (auto simp: holds_def)
  show "set_buf_data b f s = Ok () s'"
    using h by (simp add: set_buf_data_def set_buf_def upd_buf_eq s'_def holds_def)
  have "b_refcnt (bufs s ! b) \<noteq> 0" using held_lock(2) [OF l b bl] .
  then show "binv s'"
    unfolding s'_def using h len bl binv_unique [OF inv holds_cached [OF h]]
    by (intro binv_update [OF inv]) (auto simp: holds_def)
  show "locked H s'" using l L bl by (auto simp: locked_def s'_def nth_list_update mylock_def)
  show "holds s' b blk (f d) r" using h L bl by (simp add: holds_def s'_def)
qed

text \<open>Writing a held buffer out.\<close>

lemma bwrite_held:
  assumes inv: "binv s" and l: "locked H s" and b: "b \<in> H" and h: "holds s b blk d r"
  defines "s' \<equiv> s\<lparr>disk := (disk s)(blk := d), disk_writes := (blk, d) # disk_writes s\<rparr>"
  shows "bwrite b s = Ok () s'" "binv s'" "locked H s'" "holds s' c blk' d' r' \<longleftrightarrow> holds s c blk' d' r'"
proof -
  have bl: "b < NBUF" "b_dev (bufs s ! b) = ROOTDEV" "b_blockno (bufs s ! b) = blk" "b_data (bufs s ! b) = d"
    using h by (auto simp: holds_def)
  show "bwrite b s = Ok () s'" "binv s'" "locked H s'"
    using bwrite_spec [OF inv l b bl(1,2)] bl(3,4) by (simp_all add: s'_def)
  show "holds s' c blk' d' r' \<longleftrightarrow> holds s c blk' d' r'" by (simp add: holds_def s'_def)
qed

text \<open>Releasing a held buffer.\<close>

lemma brelse_held:
  assumes inv: "binv s" and l: "locked H s" and b: "b \<in> H" and h: "holds s b blk d r"
    and clean: "r = 1 \<Longrightarrow> d = disk s blk"
  shows "\<exists>s'. brelse b s = Ok () s' \<and> s' = s\<lparr>procs := procs s', bufs := bufs s'\<rparr> \<and> binv s' \<and>
    locked (H - {b}) s' \<and> holds s' b blk d (r - 1) \<and>
    (\<forall>i. i \<noteq> b \<longrightarrow> core (bufs s' ! i) = core (bufs s ! i))"
proof -
  have bl: "b < NBUF" "b_dev (bufs s ! b) = ROOTDEV" using h by (auto simp: holds_def)
  have cl: "b_data (bufs s ! b) = disk s (b_blockno (bufs s ! b))" if "b_refcnt (bufs s ! b) = 1"
    using that clean h by (simp add: holds_def)
  obtain bs where bs: "brelse b s = Ok () (s\<lparr>procs := map (wake_proc (Some (ChBufLock b))) (procs s), bufs := bs\<rparr>)"
    "length bs = NBUF + 1" "\<forall>i. i \<noteq> b \<longrightarrow> core (bs ! i) = core (bufs s ! i)"
    "core (bs ! b) = core ((bufs s ! b)\<lparr>b_lock := unlocked, b_refcnt := b_refcnt (bufs s ! b) - 1\<rparr>)"
    "binv (s\<lparr>procs := map (wake_proc (Some (ChBufLock b))) (procs s), bufs := bs\<rparr>)"
    "locked (H - {b}) (s\<lparr>procs := map (wake_proc (Some (ChBufLock b))) (procs s), bufs := bs\<rparr>)"
    using brelse_spec [OF inv l b bl] cl by blast
  let ?s' = "s\<lparr>procs := map (wake_proc (Some (ChBufLock b))) (procs s), bufs := bs\<rparr>"
  have "holds ?s' b blk d (r - 1)" using core_eqD [OF bs(4)] h by (simp add: holds_def)
  then show ?thesis using bs by (intro exI [of _ ?s']) simp
qed


section \<open>Sequences of disk writes\<close>

type_synonym writes = "(u32 \<times> block) list"

definition apply_writes :: "writes \<Rightarrow> (u32 \<Rightarrow> block) \<Rightarrow> u32 \<Rightarrow> block" where
  "apply_writes w d = fold (\<lambda>(b, v) d. d(b := v)) w d"

lemma apply_writes_simps [simp]:
  "apply_writes [] d = d" "apply_writes ((b, v) # w) d = apply_writes w (d(b := v))"
  "apply_writes (w @ w') d = apply_writes w' (apply_writes w d)"
  by (simp_all add: apply_writes_def)

lemma apply_writes_other: "x \<notin> fst ` set w \<Longrightarrow> apply_writes w d x = d x"
  by (induction w arbitrary: d) auto

lemma apply_writes_take: "x \<notin> fst ` set w \<Longrightarrow> apply_writes (take k w) d x = d x"
  by (rule apply_writes_other) (auto dest: in_set_takeD)

lemma apply_writes_nth:
  "distinct (map fst w) \<Longrightarrow> i < length w \<Longrightarrow> apply_writes w d (fst (w ! i)) = snd (w ! i)"
proof (induction w arbitrary: d i)
  case (Cons bv w)
  obtain b v where bv: "bv = (b, v)" by force
  show ?case
  proof (cases i)
    case 0
    have "b \<notin> fst ` set w" using Cons.prems(1) bv by simp
    then show ?thesis using 0 bv by (simp add: apply_writes_other)
  qed (use Cons bv in simp)
qed simp

text \<open>What operations on blocks may change besides the buffers and the disk.\<close>

definition io_frame :: "kstate \<Rightarrow> kstate \<Rightarrow> bool" where
  "io_frame s s' \<longleftrightarrow> s' = s\<lparr>procs := procs s', bufs := bufs s', disk := disk s',
     disk_writes := disk_writes s', console_out := console_out s'\<rparr>"

lemma io_frame_refl: "io_frame s s"
  by (simp add: io_frame_def)

lemma io_frame_trans: "io_frame s t \<Longrightarrow> io_frame t u \<Longrightarrow> io_frame s u"
  unfolding io_frame_def by (cases s; cases t; cases u) simp

lemma io_frame_klog: "io_frame s s' \<Longrightarrow> klog s' = klog s"
  unfolding io_frame_def by (drule arg_cong [of _ _ klog]) simp

text \<open>From \<open>s\<close>, the blocks \<open>w\<close> were written in this order and the blocks of \<open>P\<close> are pinned.\<close>

definition wrote :: "kstate \<Rightarrow> writes \<Rightarrow> (u32 \<Rightarrow> block option) \<Rightarrow> kstate \<Rightarrow> bool" where
  "wrote s w P s' \<longleftrightarrow> quiet s' \<and> room s' \<and> pins s' = P \<and> disk s' = apply_writes w (disk s) \<and>
     disk_writes s' = rev w @ disk_writes s \<and> io_frame s s'"

lemma wrote_refl: "quiet s \<Longrightarrow> room s \<Longrightarrow> wrote s [] (pins s) s"
  by (simp add: wrote_def io_frame_refl)

lemma wrote_trans: "wrote s w P t \<Longrightarrow> wrote t w' Q u \<Longrightarrow> wrote s (w @ w') Q u"
  by (auto simp: wrote_def intro: io_frame_trans)

lemma wroteD:
  assumes "wrote s w P s'"
  shows "quiet s'" "room s'" "pins s' = P" "disk s' = apply_writes w (disk s)" "klog s' = klog s"
  using assms by (auto simp: wrote_def io_frame_klog)

text \<open>bread, a change of the data, bwrite, brelse.\<close>

lemma write_block_spec:
  assumes q: "quiet s" and r: "room s" and l: "pins s l = None" and len: "length (f (disk s l)) = BSIZE"
  shows "\<exists>s'. kbind (bread ROOTDEV l) (\<lambda>b. kthen (set_buf_data b f) (kthen (bwrite b) (brelse b))) s = Ok () s' \<and>
    wrote s [(l, f (disk s l))] (pins s) s'"
proof -
  obtain b s1 where b: "bread ROOTDEV l s = Ok b s1" "s1 = s\<lparr>bufs := bufs s1\<rparr>" "binv s1" "locked {b} s1"
    "holds s1 b l (disk s l) 1" "b_refcnt (bufs s ! b) = 0"
    "\<forall>i. i \<noteq> b \<longrightarrow> bufs s1 ! i = bufs s ! i"
    using open_block [OF q r l] by blast
  let ?d = "f (disk s l)"
  let ?s2 = "s1\<lparr>bufs := (bufs s1)[b := (bufs s1 ! b)\<lparr>b_data := ?d\<rparr>]\<rparr>"
  note s2 = set_buf_data_spec [OF b(3,4) insertI1 b(5), of f, OF len]
  let ?s3 = "?s2\<lparr>disk := (disk ?s2)(l := ?d), disk_writes := (l, ?d) # disk_writes ?s2\<rparr>"
  note s3 = bwrite_held [OF s2(2,3) insertI1 s2(4)]
  have h3: "holds ?s3 b l ?d 1" using s3(4) [of b l ?d 1] s2(4) by blast
  have "?d = disk ?s3 l" by simp
  then obtain s4 where s4: "brelse b ?s3 = Ok () s4" "s4 = ?s3\<lparr>procs := procs s4, bufs := bufs s4\<rparr>" "binv s4"
    "locked ({b} - {b}) s4" "holds s4 b l ?d (1 - 1)"
    "\<forall>i. i \<noteq> b \<longrightarrow> core (bufs s4 ! i) = core (bufs ?s3 ! i)"
    using brelse_held [OF s3(2,3) insertI1 h3] by blast
  have run: "kbind (bread ROOTDEV l) (\<lambda>b. kthen (set_buf_data b f) (kthen (bwrite b) (brelse b))) s = Ok () s4"
    using b(1) s2(1) s3(1) s4(1) by (simp add: kbind_def kthen_def)
  have same: "core (bufs s4 ! i) = core (bufs s ! i)" if "i \<noteq> b" for i
    using that s4(6) b(7) by simp
  have z: "b_refcnt (bufs s4 ! b) = 0" "b < NBUF" using s4(5) by (auto simp: holds_def)
  have l4: "locked {} s4" using s4(4) by simp
  note st = settle [OF q s4(3) l4, where B = "{b}" and h = l]
  have quiet4: "quiet s4" by (rule st(1)) (use same z b(6) in auto)
  have "pins s4 x = pins s x" if "x \<noteq> l" for x by (rule st(2)) (use same z b(6) that in auto)
  moreover have "pins s4 l = None"
    using binv_unique [OF s4(3) holds_cached [OF s4(5)]] z(1) by (auto simp: pins_def pinned_def)
  ultimately have "pins s4 = pins s" using l by (metis ext)
  moreover have "room s4" using z by (auto simp: room_def)
  moreover have d4: "disk s4 = (disk s)(l := ?d)" "disk_writes s4 = (l, ?d) # disk_writes s"
    using arg_cong [OF s4(2), of disk] arg_cong [OF s4(2), of disk_writes]
      arg_cong [OF b(2), of disk] arg_cong [OF b(2), of disk_writes] by simp_all
  moreover have "io_frame s s4"
    unfolding io_frame_def using s4(2) b(2) by (cases s; cases s1; cases s4) simp
  ultimately show ?thesis using run quiet4 by (auto simp: wrote_def)
qed


section \<open>Copying between a log block and its home\<close>

text \<open>
  The two reads of write_log and install_trans: block \<open>l\<close> of the log, then its home block \<open>h\<close>,
  which is pinned while a transaction commits; at recovery no buffer is referenced.
\<close>

lemma open_two:
  assumes q: "quiet s" and r: "room s" and l: "pins s l = None" and lh: "l \<noteq> h"
    and h: "pins s h \<noteq> None \<or> (\<forall>i<NBUF. b_refcnt (bufs s ! i) = 0)"
  shows "\<exists>b1 b2 s1 s2. bread ROOTDEV l s = Ok b1 s1 \<and> bread ROOTDEV h s1 = Ok b2 s2 \<and>
    s2 = s\<lparr>bufs := bufs s2\<rparr> \<and> binv s2 \<and> locked {b1, b2} s2 \<and> b1 \<noteq> b2 \<and>
    holds s2 b1 l (disk s l) 1 \<and> holds s2 b2 h (content s h) (if pins s h = None then 1 else 2) \<and>
    b_refcnt (bufs s ! b1) = 0 \<and> (if pins s h = None then b_refcnt (bufs s ! b2) = 0 else cached s h b2) \<and>
    (\<forall>i. i \<noteq> b1 \<longrightarrow> i \<noteq> b2 \<longrightarrow> bufs s2 ! i = bufs s ! i)"
proof -
  have inv: "binv s" using q by (rule quiet_binv)
  obtain b1 s1 where b: "bread ROOTDEV l s = Ok b1 s1" "s1 = s\<lparr>bufs := bufs s1\<rparr>" "binv s1" "locked {b1} s1"
    "holds s1 b1 l (disk s l) 1" "b_refcnt (bufs s ! b1) = 0"
    "\<forall>i. i \<noteq> b1 \<longrightarrow> bufs s1 ! i = bufs s ! i" "\<forall>x. x \<noteq> l \<longrightarrow> content s1 x = content s x"
    using open_block [OF q r l] by blast
  have b1: "b1 < NBUF" "b_refcnt (bufs s1 ! b1) = 1" using b(5) by (auto simp: holds_def)
  have other: "i \<noteq> b1" if "cached s1 h i" for i using that b(5) lh by (auto simp: cached_def holds_def)
  have old: "cached s h i" if "cached s1 h i" for i
    using that other [OF that] b(7) by (simp add: cached_def)
  have pin: "cached s1 h i \<and> i \<noteq> b1" if "cached s h i" "b_refcnt (bufs s ! i) = 1" for i
  proof -
    have "i \<noteq> b1" using that(2) b(6) by auto
    then show ?thesis using that(1) b(7) by (simp add: cached_def)
  qed
  have avail: "(\<exists>i. cached s1 h i) \<or> (\<exists>i<NBUF. b_refcnt (bufs s1 ! i) = 0)"
  proof (cases "pins s h")
    case None
    then have z: "\<forall>i<NBUF. b_refcnt (bufs s ! i) = 0" using h by simp
    let ?i = "if b1 = 0 then 1 else 0 :: nat"
    have "?i < NBUF" "?i \<noteq> b1" by auto
    then have "b_refcnt (bufs s1 ! ?i) = 0" using z b(7) by metis
    then show ?thesis using \<open>?i < NBUF\<close> by blast
  next
    case (Some d)
    then show ?thesis using pin pinsE [OF q Some] by metis
  qed
  have small: "b_refcnt (bufs s1 ! i) \<noteq> - 1" if "i < NBUF" for i
    using quiet_small [OF q that] b(7) b1(2) by (cases "i = b1") auto
  obtain b2 where b2: "bread ROOTDEV h s1 = Ok b2 (s1\<lparr>bufs := (bufs s1)[b2 := fetched s1 h b2]\<rparr>)" "b2 < NBUF"
    "b2 \<notin> {b1}" "cached s1 h b2 \<or> (\<forall>i. \<not> cached s1 h i) \<and> b_refcnt (bufs s1 ! b2) = 0"
    "binv (s1\<lparr>bufs := (bufs s1)[b2 := fetched s1 h b2]\<rparr>)"
    "locked (insert b2 {b1}) (s1\<lparr>bufs := (bufs s1)[b2 := fetched s1 h b2]\<rparr>)"
    using bread_spec [OF b(3,4) _ avail small] other by blast
  let ?s2 = "s1\<lparr>bufs := (bufs s1)[b2 := fetched s1 h b2]\<rparr>"
  have b12: "b2 \<noteq> b1" "bufs s1 ! b2 = bufs s ! b2" using b2(3) b(7) by auto
  have ref: "if pins s h = None then b_refcnt (bufs s ! b2) = 0 else b_refcnt (bufs s ! b2) = 1 \<and> cached s h b2"
  proof (cases "pins s h")
    case None
    then show ?thesis using h b2(2) by simp
  next
    case (Some d)
    then obtain i where i: "cached s h i" "b_refcnt (bufs s ! i) = 1" using pinsE [OF q Some] by metis
    then have "cached s1 h i" using pin by blast
    then have "cached s1 h b2" using b2(4) by blast
    then have "cached s h b2" by (rule old)
    then show ?thesis using i binv_unique [OF inv] Some by auto
  qed
  have "holds ?s2 b2 h (content s h) (if pins s h = None then 1 else 2)"
    using holds_fetched [OF b(3) b2(2), of h] b(8) lh ref b12(2) by (auto split: if_splits)
  moreover have "holds ?s2 b1 l (disk s l) 1" using b(5) b12(1) by (simp add: holds_def)
  moreover have "?s2 = s\<lparr>bufs := bufs ?s2\<rparr>" using b(2) by (cases s; cases s1) simp
  moreover have "\<forall>i. i \<noteq> b1 \<longrightarrow> i \<noteq> b2 \<longrightarrow> bufs ?s2 ! i = bufs s ! i" using b(7) by simp
  moreover have "locked {b1, b2} ?s2" using b2(6) by (simp add: insert_commute)
  moreover have "if pins s h = None then b_refcnt (bufs s ! b2) = 0 else cached s h b2"
    using ref by (auto split: if_splits)
  ultimately show ?thesis using b(1,6) b2(1,5) b12(1) by (intro exI [of _ b1] exI [of _ b2] exI [of _ s1] exI [of _ ?s2]) simp
qed

lemma close_two:
  assumes inv: "binv s" and l: "locked {b, c} s" and bc: "b \<noteq> c"
    and hb: "holds s b kb db rb" and hc: "holds s c kc dc rc"
    and cb: "rb = 1 \<Longrightarrow> db = disk s kb" and cc: "rc = 1 \<Longrightarrow> dc = disk s kc"
  shows "\<exists>s'. kthen (brelse b) (brelse c) s = Ok () s' \<and> s' = s\<lparr>procs := procs s', bufs := bufs s'\<rparr> \<and> binv s' \<and>
    locked {} s' \<and> holds s' b kb db (rb - 1) \<and> holds s' c kc dc (rc - 1) \<and>
    (\<forall>i. i \<noteq> b \<longrightarrow> i \<noteq> c \<longrightarrow> core (bufs s' ! i) = core (bufs s ! i))"
proof -
  obtain s1 where s1: "brelse b s = Ok () s1" "s1 = s\<lparr>procs := procs s1, bufs := bufs s1\<rparr>" "binv s1"
    "locked ({b, c} - {b}) s1" "holds s1 b kb db (rb - 1)"
    "\<forall>i. i \<noteq> b \<longrightarrow> core (bufs s1 ! i) = core (bufs s ! i)"
    using brelse_held [OF inv l _ hb] cb by blast
  have d1: "disk s1 = disk s" using arg_cong [OF s1(2), of disk] by simp
  have l1: "locked {c} s1" using s1(4) bc by (simp add: insert_Diff_if)
  have hc1: "holds s1 c kc dc rc" using holds_core [of s1 c s] s1(6) bc hc by simp
  obtain s2 where s2: "brelse c s1 = Ok () s2" "s2 = s1\<lparr>procs := procs s2, bufs := bufs s2\<rparr>" "binv s2"
    "locked ({c} - {c}) s2" "holds s2 c kc dc (rc - 1)"
    "\<forall>i. i \<noteq> c \<longrightarrow> core (bufs s2 ! i) = core (bufs s1 ! i)"
    using brelse_held [OF s1(3) l1 insertI1 hc1] cc [folded d1] by blast
  have "holds s2 b kb db (rb - 1)" using holds_core [of s2 b s1] s2(6) bc s1(5) by simp
  moreover have "s2 = s\<lparr>procs := procs s2, bufs := bufs s2\<rparr>"
    using s2(2) s1(2) by (cases s; cases s1; cases s2) simp
  ultimately show ?thesis
    using s1 s2 by (intro exI [of _ s2]) (simp add: kthen_def kbind_def)
qed

lemma two_done:
  assumes q: "quiet s" and l: "pins s l = None" and lh: "l \<noteq> h"
    and z1: "b_refcnt (bufs s ! b1) = 0"
    and z2: "if pins s h = None then b_refcnt (bufs s ! b2) = 0 else cached s h b2"
    and inv: "binv s'" "locked {} s'" and h1: "holds s' b1 l d1 0" and h2: "holds s' b2 h d2 r2"
    and r2: "r2 = 0 \<or> r2 = 1"
    and same: "\<And>i. i \<noteq> b1 \<Longrightarrow> i \<noteq> b2 \<Longrightarrow> core (bufs s' ! i) = core (bufs s ! i)"
  shows "quiet s'" "room s'" "pins s' = (pins s)(h := if r2 = 1 then Some d2 else None)"
proof -
  have before: "b_refcnt (bufs s ! i) = 0 \<or> cached s h i" if "i \<in> {b1, b2}" for i
    using that z1 z2 by (auto split: if_splits)
  have after: "b_refcnt (bufs s' ! i) = 0 \<or> b_refcnt (bufs s' ! i) = 1 \<and> cached s' h i \<and> b_valid (bufs s' ! i)"
    if "i \<in> {b1, b2}" for i
    using that h1 h2 r2 by (auto simp: holds_def cached_def)
  note st = settle [OF q inv, where B = "{b1, b2}" and h = h]
  show q': "quiet s'" by (rule st(1)) (use same before after in auto)
  show "room s'" using h1 by (auto simp: room_def holds_def)
  have other: "pins s' x = pins s x" if "x \<noteq> h" for x by (rule st(2)) (use same before after that in auto)
  have "pins s' h = (if r2 = 1 then Some d2 else None)"
  proof (cases "r2 = 1")
    case True
    then show ?thesis using pins_cached [OF inv(1) holds_cached [OF h2]] h2 by (simp add: holds_def)
  next
    case False
    then have "b_refcnt (bufs s' ! b2) = 0" using h2 r2 by (simp add: holds_def)
    then show ?thesis
      using binv_unique [OF inv(1) holds_cached [OF h2]] False by (auto simp: pins_def pinned_def)
  qed
  with other show "pins s' = (pins s)(h := if r2 = 1 then Some d2 else None)" by auto
qed


lemma write_log_one_spec:
  assumes q: "quiet s" and r: "room s" and dev: "l_dev (klog s) = ROOTDEV"
    and l: "pins s (log_block (klog s) tail) = None" and h: "pins s (lh_block (l_lh (klog s)) ! tail) = Some d"
  shows "\<exists>s'. write_log_one tail s = Ok () s' \<and> wrote s [(log_block (klog s) tail, d)] (pins s) s'"
proof -
  let ?l = "log_block (klog s) tail" and ?h = "lh_block (l_lh (klog s)) ! tail"
  have lh: "?l \<noteq> ?h" using l h by auto
  have ch: "content s ?h = d" using h by (auto simp: pins_def split: if_splits)
  have hn: "pins s ?h \<noteq> None" using h by simp
  obtain b1 b2 s1 s2 where o: "bread ROOTDEV ?l s = Ok b1 s1" "bread ROOTDEV ?h s1 = Ok b2 s2"
    "s2 = s\<lparr>bufs := bufs s2\<rparr>" "binv s2" "locked {b1, b2} s2" "b1 \<noteq> b2"
    "holds s2 b1 ?l (disk s ?l) 1" "holds s2 b2 ?h (content s ?h) (if pins s ?h = None then 1 else 2)"
    "b_refcnt (bufs s ! b1) = 0" "if pins s ?h = None then b_refcnt (bufs s ! b2) = 0 else cached s ?h b2"
    "\<forall>i. i \<noteq> b1 \<longrightarrow> i \<noteq> b2 \<longrightarrow> bufs s2 ! i = bufs s ! i"
    using open_two [OF q r l lh] hn by blast
  have h2: "holds s2 b2 ?h d 2" using o(8) ch hn by simp
  have ld: "length d = BSIZE" using length_content [OF quiet_binv [OF q], of ?h] ch by simp
  note s3 = set_buf_data_spec [OF o(4,5) insertI1 o(7), of "\<lambda>_. d", OF ld]
  let ?s3 = "s2\<lparr>bufs := (bufs s2)[b1 := (bufs s2 ! b1)\<lparr>b_data := d\<rparr>]\<rparr>"
  have h3: "holds ?s3 b2 ?h d 2" using h2 o(6) by (simp add: holds_def)
  note s4 = bwrite_held [OF s3(2,3) insertI1 s3(4)]
  let ?s4 = "?s3\<lparr>disk := (disk ?s3)(?l := d), disk_writes := (?l, d) # disk_writes ?s3\<rparr>"
  have h4: "holds ?s4 b2 ?h d 2" "holds ?s4 b1 ?l d 1" using s4(4) h3 s3(4) by blast+
  have l4: "locked {b2, b1} ?s4" using s4(3) by (simp add: insert_commute)
  obtain s5 where s5: "kthen (brelse b2) (brelse b1) ?s4 = Ok () s5"
    "s5 = ?s4\<lparr>procs := procs s5, bufs := bufs s5\<rparr>" "binv s5" "locked {} s5"
    "holds s5 b2 ?h d (2 - 1)" "holds s5 b1 ?l d (1 - 1)"
    "\<forall>i. i \<noteq> b2 \<longrightarrow> i \<noteq> b1 \<longrightarrow> core (bufs s5 ! i) = core (bufs ?s4 ! i)"
    using close_two [OF s4(2) l4 o(6) [symmetric] h4] by auto
  have run: "write_log_one tail s = Ok () s5"
    using o(1,2) h2 s3(1) s4(1) s5(1) dev
    by (simp add: write_log_one_def get_log_def kbind_def kthen_def holds_def)
  have same: "core (bufs s5 ! i) = core (bufs s ! i)" if "i \<noteq> b1" "i \<noteq> b2" for i
    using that s5(7) o(11) by simp
  have h5: "holds s5 b1 ?l d 0" "holds s5 b2 ?h d 1" using s5(5,6) by simp_all
  have fin: "quiet s5" "room s5" "pins s5 = (pins s)(?h := if (1 :: u32) = 1 then Some d else None)"
    using two_done [OF q l lh o(9,10) s5(3,4) h5 _ same] by simp_all
  have "pins s5 = pins s" using fin(3) h by auto
  moreover have "disk s5 = (disk s)(?l := d)" "disk_writes s5 = (?l, d) # disk_writes s"
    using arg_cong [OF s5(2), of disk] arg_cong [OF s5(2), of disk_writes]
      arg_cong [OF o(3), of disk] arg_cong [OF o(3), of disk_writes] by simp_all
  moreover have "io_frame s s5"
    unfolding io_frame_def using s5(2) o(3) by (cases s; cases s2; cases s5) simp
  ultimately show ?thesis using run fin(1,2) by (auto simp: wrote_def)
qed

lemma bunpin_held:
  assumes inv: "binv s" and l: "locked H s" and b: "b \<in> H" and h: "holds s b blk d r" and r: "r \<noteq> 1"
  defines "s' \<equiv> s\<lparr>bufs := (bufs s)[b := (bufs s ! b)\<lparr>b_refcnt := r - 1\<rparr>]\<rparr>"
  shows "bunpin b s = Ok () s'" "binv s'" "locked H s'" "holds s' b blk d (r - 1)"
proof -
  have bl: "b < NBUF" and L: "length (bufs s) = NBUF + 1" using h binv_len [OF inv] by (auto simp: holds_def)
  show "bunpin b s = Ok () s'"
    using h by (simp add: bunpin_def set_buf_def upd_buf_eq s'_def holds_def)
  have "length (b_data (bufs s ! b)) = BSIZE" using inv bl by (simp add: binv_def)
  then show "binv s'"
    unfolding s'_def using h r bl binv_unique [OF inv holds_cached [OF h]]
    by (intro binv_update [OF inv]) (auto simp: holds_def)
  show "locked H s'" using l L bl r by (auto simp: locked_def s'_def nth_list_update mylock_def)
  show "holds s' b blk d (r - 1)" using h L bl by (simp add: holds_def s'_def)
qed

lemma console_out_irrelevant [simp]:
  "quiet (s\<lparr>console_out := x\<rparr>) = quiet s" "room (s\<lparr>console_out := x\<rparr>) = room s"
  "pins (s\<lparr>console_out := x\<rparr>) = pins s"
proof -
  have c: "cached (s\<lparr>console_out := x\<rparr>) = cached s" by (auto simp: cached_def fun_eq_iff)
  have "content (s\<lparr>console_out := x\<rparr>) = content s" by (auto simp: content_def c fun_eq_iff split: option.split)
  then show "pins (s\<lparr>console_out := x\<rparr>) = pins s"
    by (auto simp: pins_def pinned_def c fun_eq_iff)
  show "quiet (s\<lparr>console_out := x\<rparr>) = quiet s"
    by (simp add: quiet_def binv_def locked_def c mylock_def)
  show "room (s\<lparr>console_out := x\<rparr>) = room s" by (simp add: room_def)
qed

text \<open>Installing one block, while committing and while recovering.\<close>

lemma install_one_spec:
  assumes q: "quiet s" and r: "room s" and dev: "l_dev (klog s) = ROOTDEV"
    and l: "pins s (log_block (klog s) tail) = None"
    and lh: "log_block (klog s) tail \<noteq> lh_block (l_lh (klog s)) ! tail"
    and h: "if rec then \<forall>i<NBUF. b_refcnt (bufs s ! i) = 0 else pins s (lh_block (l_lh (klog s)) ! tail) \<noteq> None"
    and p: "rec \<Longrightarrow> pins s (lh_block (l_lh (klog s)) ! tail) = None"
  shows "\<exists>s'. install_one rec tail s = Ok () s' \<and>
    wrote s [(lh_block (l_lh (klog s)) ! tail, disk s (log_block (klog s) tail))]
      ((pins s)(lh_block (l_lh (klog s)) ! tail := None)) s'"
proof -
  let ?l = "log_block (klog s) tail" and ?h = "lh_block (l_lh (klog s)) ! tail"
  let ?msg = "printk (''recovering tail %d dst %d'' @ [newline]) [Num (of_nat tail), Num (ucast ?h)]"
  obtain s0 where s0: "kwhen rec ?msg s = Ok () s0" "quiet s0" "room s0" "pins s0 = pins s"
    "s0 = s\<lparr>console_out := console_out s0\<rparr>"
    using q r by (cases rec) auto
  have f0: "klog s0 = klog s" "bufs s0 = bufs s" "disk s0 = disk s" "disk_writes s0 = disk_writes s"
    using arg_cong [OF s0(5), of klog] arg_cong [OF s0(5), of bufs] arg_cong [OF s0(5), of disk]
      arg_cong [OF s0(5), of disk_writes] by simp_all
  have l0: "pins s0 ?l = None" using l s0(4) by simp
  have h0: "pins s0 ?h \<noteq> None \<or> (\<forall>i<NBUF. b_refcnt (bufs s0 ! i) = 0)" using h f0 s0(4) by (auto split: if_splits)
  let ?d = "disk s ?l" and ?r = "if rec then 1 else 2 :: u32"
  obtain b1 b2 s1 s2 where o: "bread ROOTDEV ?l s0 = Ok b1 s1" "bread ROOTDEV ?h s1 = Ok b2 s2"
    "s2 = s0\<lparr>bufs := bufs s2\<rparr>" "binv s2" "locked {b1, b2} s2" "b1 \<noteq> b2"
    "holds s2 b1 ?l (disk s0 ?l) 1" "holds s2 b2 ?h (content s0 ?h) (if pins s0 ?h = None then 1 else 2)"
    "b_refcnt (bufs s0 ! b1) = 0"
    "if pins s0 ?h = None then b_refcnt (bufs s0 ! b2) = 0 else cached s0 ?h b2"
    "\<forall>i. i \<noteq> b1 \<longrightarrow> i \<noteq> b2 \<longrightarrow> bufs s2 ! i = bufs s0 ! i"
    using open_two [OF s0(2,3) l0 lh h0] by blast
  have h1: "holds s2 b1 ?l ?d 1" using o(7) f0 by simp
  obtain c where h2: "holds s2 b2 ?h c ?r" using o(8) h p s0(4) by (auto split: if_splits)
  have ld: "length ?d = BSIZE" using quiet_binv [OF q] by (simp add: binv_def)
  have in2: "b2 \<in> {b1, b2}" by simp
  define s3 where "s3 = s2\<lparr>bufs := (bufs s2)[b2 := (bufs s2 ! b2)\<lparr>b_data := ?d\<rparr>]\<rparr>"
  note s3 = set_buf_data_spec [OF o(4,5) in2 h2, of "\<lambda>_. ?d", OF ld, folded s3_def]
  have h3: "holds s3 b1 ?l ?d 1" using h1 o(6) by (simp add: holds_def s3_def)
  define s4 where "s4 = s3\<lparr>disk := (disk s3)(?h := ?d), disk_writes := (?h, ?d) # disk_writes s3\<rparr>"
  note s4 = bwrite_held [OF s3(2,3) in2 s3(4), folded s4_def]
  have h4: "holds s4 b1 ?l ?d 1" "holds s4 b2 ?h ?d ?r" using s4(4) h3 s3(4) by blast+
  define s5 where "s5 = (if rec then s4 else s4\<lparr>bufs := (bufs s4)[b2 := (bufs s4 ! b2)\<lparr>b_refcnt := ?r - 1\<rparr>]\<rparr>)"
  have s5: "kwhen (\<not> rec) (bunpin b2) s4 = Ok () s5" "binv s5" "locked {b1, b2} s5" "holds s5 b2 ?h ?d 1"
    "holds s5 b1 ?l ?d 1"
    using bunpin_held [OF s4(2,3) in2 h4(2)] s4(2,3) h4 o(6) by (auto simp: holds_def s5_def)
  have f5: "s5 = s\<lparr>console_out := console_out s5, bufs := bufs s5, disk := (disk s)(?h := ?d),
      disk_writes := (?h, ?d) # disk_writes s\<rparr>"
    using s0(5) o(3) by (cases s; cases s0; cases s2) (simp add: s5_def s4_def s3_def)
  have "disk s5 = (disk s)(?h := ?d)" using arg_cong [OF f5, of disk] by simp
  then have d5: "?d = disk s5 ?l" "?d = disk s5 ?h" using lh by simp_all
  obtain s6 where s6: "kthen (brelse b1) (brelse b2) s5 = Ok () s6"
    "s6 = s5\<lparr>procs := procs s6, bufs := bufs s6\<rparr>" "binv s6" "locked {} s6"
    "holds s6 b1 ?l ?d (1 - 1)" "holds s6 b2 ?h ?d (1 - 1)"
    "\<forall>i. i \<noteq> b1 \<longrightarrow> i \<noteq> b2 \<longrightarrow> core (bufs s6 ! i) = core (bufs s5 ! i)"
    using close_two [OF s5(2,3) o(6) s5(5,4) d5] by blast
  have run: "install_one rec tail s = Ok () s6"
    using s0(1) o(1,2) h1 s3(1) s4(1) s5(1) s6(1) dev
    by (simp add: install_one_def get_log_def kbind_def kthen_def holds_def)
  have same: "core (bufs s6 ! i) = core (bufs s0 ! i)" if "i \<noteq> b1" "i \<noteq> b2" for i
    using that s6(7) o(11) by (simp add: s5_def s4_def s3_def)
  have h6: "holds s6 b1 ?l ?d 0" "holds s6 b2 ?h ?d 0" using s6(5,6) by simp_all
  have fin: "quiet s6" "room s6" "pins s6 = (pins s0)(?h := if (0 :: u32) = 1 then Some ?d else None)"
    using two_done [OF s0(2) l0 lh o(9,10) s6(3,4) h6 _ same] by simp_all
  have "pins s6 = (pins s)(?h := None)" using fin(3) s0(4) by simp
  moreover have "disk s6 = (disk s)(?h := ?d)" "disk_writes s6 = (?h, ?d) # disk_writes s"
    using arg_cong [OF s6(2), of disk] arg_cong [OF s6(2), of disk_writes]
      arg_cong [OF f5, of disk] arg_cong [OF f5, of disk_writes] by simp_all
  moreover have "io_frame s s6"
    unfolding io_frame_def using s6(2) f5 by (cases s; cases s5; cases s6) simp
  ultimately show ?thesis using run fin(1,2) by (auto simp: wrote_def)
qed


section \<open>The header block\<close>

lemma encode_header_aux:
  assumes "4 + 4 * n \<le> length d"
  shows "length (fold (\<lambda>i d. put32 (4 + 4 * i) (bl ! i) d) [0..<n] d) = length d"
    and "get32 (fold (\<lambda>i d. put32 (4 + 4 * i) (bl ! i) d) [0..<n] d) 0 = get32 d 0"
    and "i < n \<Longrightarrow> get32 (fold (\<lambda>i d. put32 (4 + 4 * i) (bl ! i) d) [0..<n] d) (4 + 4 * i) = bl ! i"
  using assms
proof (induction n)
  case (Suc n)
  {
    case 1
    then show ?case using Suc.IH(1) by simp
  next
    case 2
    then show ?case using Suc.IH(1,2) by (simp add: get_put_other)
  next
    case 3
    then show ?case using Suc.IH(1,3) by (cases "i = n") (simp_all add: get_put_other)
  }
qed simp_all

lemma encode_header:
  assumes "lh_n lh = int n" "n \<le> LOGBLOCKS" "length d = BSIZE"
  shows "length (encode_header lh d) = BSIZE" "header_n (encode_header lh d) = int n"
    "i < n \<Longrightarrow> header_block (encode_header lh d) i = lh_block lh ! i"
proof -
  let ?d = "put32 0 (word_of_int (lh_n lh)) d"
  have len: "length ?d = BSIZE" using assms(3) by simp
  have n: "4 + 4 * n \<le> length ?d" using assms(2) len by simp
  have e: "encode_header lh d = fold (\<lambda>i d. put32 (4 + 4 * i) (lh_block lh ! i) d) [0..<n] ?d"
    using assms(1) by (simp add: encode_header_def)
  show "length (encode_header lh d) = BSIZE" using encode_header_aux(1) [OF n] len e by simp
  have "sint (word_of_int (int n) :: u32) = int n"
    using assms(2) by (simp add: signed_of_nat signed_take_bit_int_eq_self)
  then show "header_n (encode_header lh d) = int n"
    using encode_header_aux(2) [OF n] e assms(1,3) by (simp add: header_n_def)
  show "header_block (encode_header lh d) i = lh_block lh ! i" if "i < n"
    using encode_header_aux(3) [OF n that] e by (simp add: header_block_def)
qed

section \<open>The writes of a commit\<close>

lemma klog_irrelevant [simp]:
  "quiet (s\<lparr>klog := x\<rparr>) = quiet s" "room (s\<lparr>klog := x\<rparr>) = room s" "pins (s\<lparr>klog := x\<rparr>) = pins s"
proof -
  have c: "cached (s\<lparr>klog := x\<rparr>) = cached s" by (auto simp: cached_def fun_eq_iff)
  have "content (s\<lparr>klog := x\<rparr>) = content s" by (auto simp: content_def c fun_eq_iff split: option.split)
  then show "pins (s\<lparr>klog := x\<rparr>) = pins s" by (auto simp: pins_def pinned_def c fun_eq_iff)
  show "quiet (s\<lparr>klog := x\<rparr>) = quiet s" by (simp add: quiet_def binv_def locked_def c mylock_def)
  show "room (s\<lparr>klog := x\<rparr>) = room s" by (simp add: room_def)
qed

lemma write_log_spec:
  assumes q: "quiet s" and r: "room s" and dev: "l_dev (klog s) = ROOTDEV"
    and l: "\<And>i. i < nat (lh_n (l_lh (klog s))) \<Longrightarrow> pins s (log_block (klog s) i) = None"
    and h: "\<And>i. i < nat (lh_n (l_lh (klog s))) \<Longrightarrow> pins s (lh_block (l_lh (klog s)) ! i) = Some (dt i)"
  shows "\<exists>s'. write_log s = Ok () s' \<and>
    wrote s (map (\<lambda>i. (log_block (klog s) i, dt i)) [0..<nat (lh_n (l_lh (klog s)))]) (pins s) s'"
proof -
  let ?n = "nat (lh_n (l_lh (klog s)))"
  let ?I = "\<lambda>ds t. wrote s (map (\<lambda>i. (log_block (klog s) i, dt i)) ds) (pins s) t"
  have "wp (kfor [0..<?n] write_log_one) (\<lambda>_. ?I [0..<?n]) s"
  proof (rule wp_kfor [where I = ?I])
    show "?I [] s" using wrote_refl [OF q r] by simp
    fix ds i rest t
    assume "[0..<?n] = ds @ i # rest" and t: "?I ds t"
    then have i: "i < ?n" by (metis atLeastLessThan_iff in_set_conv_decomp set_upt)
    note w = wroteD [OF t]
    obtain t' where "write_log_one i t = Ok () t'" "wrote t [(log_block (klog t) i, dt i)] (pins t) t'"
      using write_log_one_spec [OF w(1,2), of i "dt i"] w(3,5) dev l [OF i] h [OF i] by auto
    then show "wp (write_log_one i) (\<lambda>_. ?I (ds @ [i])) t"
      using wrote_trans [OF t] w(3,5) by (auto simp: wp_def)
  qed
  then show ?thesis by (auto simp: write_log_def get_log_def wp_def)
qed

lemma write_head_spec:
  assumes q: "quiet s" and r: "room s" and dev: "l_dev (klog s) = ROOTDEV"
    and l: "pins s (l_start (klog s)) = None" and n: "lh_n (l_lh (klog s)) = int n" "n \<le> LOGBLOCKS"
  shows "\<exists>s'. write_head s = Ok () s' \<and>
    wrote s [(l_start (klog s), encode_header (l_lh (klog s)) (disk s (l_start (klog s))))] (pins s) s'"
proof -
  have "length (disk s (l_start (klog s))) = BSIZE" using quiet_binv [OF q] by (simp add: binv_def)
  from write_block_spec [OF q r l, of "encode_header (l_lh (klog s))"] encode_header(1) [OF n this]
  show ?thesis using dev by (simp add: write_head_def get_log_def)
qed

text \<open>Installing: the loop of install_trans, while committing (\<open>rec\<close> false) and recovering.\<close>

lemma no_pins_refcnt:
  assumes "quiet s" "pins s = (\<lambda>_. None)"
  shows "\<forall>i<NBUF. b_refcnt (bufs s ! i) = 0"
proof (intro allI impI)
  fix i assume i: "i < NBUF"
  have "pins s (b_blockno (bufs s ! i)) = None" using assms(2) by simp
  from unpinned_refcnt [OF assms(1) this, of i] quiet_valid [OF assms(1) i] i
  show "b_refcnt (bufs s ! i) = 0" by (auto simp: cached_def)
qed

lemma install_trans_spec:
  fixes s rec
  defines "n \<equiv> nat (lh_n (l_lh (klog s)))" and "hb \<equiv> \<lambda>i. lh_block (l_lh (klog s)) ! i"
    and "lb \<equiv> log_block (klog s)"
  assumes q: "quiet s" and r: "room s" and dev: "l_dev (klog s) = ROOTDEV"
    and l: "\<And>i. i < n \<Longrightarrow> pins s (lb i) = None" and lh: "\<And>i j. i < n \<Longrightarrow> j < n \<Longrightarrow> lb i \<noteq> hb j"
    and d: "distinct (map hb [0..<n])"
    and h: "if rec then pins s = (\<lambda>_. None) else \<forall>i<n. pins s (hb i) \<noteq> None"
  shows "\<exists>s'. install_trans rec s = Ok () s' \<and> wrote s (map (\<lambda>i. (hb i, disk s (lb i))) [0..<n])
    (\<lambda>x. if x \<in> hb ` {..<n} then None else pins s x) s'"
proof -
  let ?I = "\<lambda>ds t. wrote s (map (\<lambda>i. (hb i, disk s (lb i))) ds) (\<lambda>x. if x \<in> hb ` set ds then None else pins s x) t"
  have "wp (kfor [0..<n] (install_one rec)) (\<lambda>_. ?I [0..<n]) s"
  proof (rule wp_kfor [where I = ?I])
    show "?I [] s" using wrote_refl [OF q r] by simp
    fix ds i rest t
    assume split: "[0..<n] = ds @ i # rest" and t: "?I ds t"
    have set: "set ds \<subseteq> {..<n}" "i < n"
      using arg_cong [OF split, of set] by auto
    have "hb i \<notin> hb ` set ds" using d unfolding split by auto
    note w = wroteD [OF t]
    have lbh: "lb i \<notin> hb ` set ds" using lh set by blast
    have "disk t (lb i) = disk s (lb i)" using w(4) lbh by (simp add: apply_writes_other image_image)
    moreover have p: "pins t (lb i) = None" using w(3) l set by simp
    moreover have "if rec then \<forall>i<NBUF. b_refcnt (bufs t ! i) = 0 else pins t (hb i) \<noteq> None"
    proof (cases rec)
      case True
      then have "pins t = (\<lambda>_. None)" using h w(3) by auto
      then show ?thesis using no_pins_refcnt [OF w(1)] True by simp
    next
      case False
      then show ?thesis using h w(3) \<open>hb i \<notin> hb ` set ds\<close> set by simp
    qed
    moreover have "rec \<Longrightarrow> pins t (hb i) = None" using h w(3) by auto
    ultimately obtain t' where t': "install_one rec i t = Ok () t'"
      "wrote t [(hb i, disk s (lb i))] ((pins t)(hb i := None)) t'"
      using install_one_spec [OF w(1,2), of i rec, unfolded w(5), OF dev] lh [OF set(2) set(2)]
      unfolding hb_def lb_def by auto
    have "(pins t)(hb i := None) = (\<lambda>x. if x \<in> hb ` set (ds @ [i]) then None else pins s x)"
      using w(3) by auto
    then show "wp (install_one rec i) (\<lambda>_. ?I (ds @ [i])) t"
      using wrote_trans [OF t t'(2)] t'(1) by (auto simp: wp_def)
  qed
  moreover have "set [0..<n] = {..<n}" by auto
  ultimately show ?thesis by (auto simp: install_trans_def get_log_def wp_def n_def [symmetric])
qed


text \<open>The blocks of the log: the header and one block for each logged block.\<close>

definition log_area :: "log \<Rightarrow> u32 list" where
  "log_area l = l_start l # map (log_block l) [0..<nat (lh_n (l_lh l))]"

text \<open>
  The state in which end_op calls commit: a transaction of at least one block, every logged
  block pinned and nothing else in use, and a header on the disk that says the log is empty.
\<close>

definition log_ready :: "kstate \<Rightarrow> bool" where
  "log_ready s \<longleftrightarrow> quiet s \<and> room s \<and> l_dev (klog s) = ROOTDEV \<and>
     0 < lh_n (l_lh (klog s)) \<and> lh_n (l_lh (klog s)) \<le> int LOGBLOCKS \<and>
     length (lh_block (l_lh (klog s))) = LOGBLOCKS \<and>
     (let bl = take (nat (lh_n (l_lh (klog s)))) (lh_block (l_lh (klog s))) in
        distinct bl \<and> (\<forall>blk. pinned s blk \<longleftrightarrow> blk \<in> set bl) \<and> set bl \<inter> set (log_area (klog s)) = {}) \<and>
     header_n (disk s (l_start (klog s))) = 0"

text \<open>Home block number \<open>i\<close> of the transaction.\<close>

abbreviation (input) home :: "kstate \<Rightarrow> nat \<Rightarrow> u32" where
  "home s i \<equiv> lh_block (l_lh (klog s)) ! i"

abbreviation (input) nlogged :: "kstate \<Rightarrow> nat" where
  "nlogged s \<equiv> nat (lh_n (l_lh (klog s)))"

lemma log_block_inj: "i < 2 ^ 31 \<Longrightarrow> j < 2 ^ 31 \<Longrightarrow> log_block l i = log_block l j \<longleftrightarrow> i = j"
  and log_block_start: "i < 2 ^ 31 \<Longrightarrow> log_block l i \<noteq> l_start l"
proof -
  show "log_block l i = log_block l j \<longleftrightarrow> i = j" if "i < 2 ^ 31" "j < 2 ^ 31"
    using that by (auto simp: log_block_def word_of_nat_eq_iff take_bit_nat_eq_self)
  assume i: "i < 2 ^ 31"
  have "(of_nat (Suc i) :: u32) \<noteq> 0"
    using i by (simp only: word_of_nat_eq_0_iff) (auto dest: dvd_imp_le)
  then show "log_block l i \<noteq> l_start l"
    by (auto simp: log_block_def add.assoc add.commute [of _ 1])
qed

lemma log_readyD:
  assumes "log_ready s"
  shows "quiet s" "room s" "l_dev (klog s) = ROOTDEV" "0 < nlogged s" "nlogged s \<le> LOGBLOCKS"
    "lh_n (l_lh (klog s)) = int (nlogged s)" "length (lh_block (l_lh (klog s))) = LOGBLOCKS"
    "header_n (disk s (l_start (klog s))) = 0"
  using assms by (auto simp: log_ready_def)

lemma log_ready_home:
  assumes r: "log_ready s"
  shows "distinct (map (home s) [0..<nlogged s])" "i < nlogged s \<Longrightarrow> pins s (home s i) = Some (content s (home s i))"
    "i < nlogged s \<Longrightarrow> home s i \<notin> set (log_area (klog s))" "x \<in> set (log_area (klog s)) \<Longrightarrow> pins s x = None"
    "x \<notin> home s ` {..<nlogged s} \<Longrightarrow> pins s x = None"
proof -
  let ?bl = "take (nlogged s) (lh_block (l_lh (klog s)))"
  have len: "length ?bl = nlogged s" using log_readyD(5,7) [OF r] by simp
  have m: "map (home s) [0..<nlogged s] = ?bl" using len by (intro nth_equalityI) auto
  have b: "distinct ?bl" "\<forall>blk. pinned s blk \<longleftrightarrow> blk \<in> set ?bl" "set ?bl \<inter> set (log_area (klog s)) = {}"
    using r unfolding log_ready_def Let_def by blast+
  show "distinct (map (home s) [0..<nlogged s])" using m b(1) by simp
  have set: "set ?bl = home s ` {..<nlogged s}" using arg_cong [OF m, of set] by (simp add: atLeast0LessThan)
  show "pins s (home s i) = Some (content s (home s i))" "home s i \<notin> set (log_area (klog s))" if "i < nlogged s"
    using that b(2,3) set by (auto simp: pins_def)
  show "pins s x = None" if "x \<in> set (log_area (klog s))" using that b(2,3) by (auto simp: pins_def)
  show "pins s x = None" if "x \<notin> home s ` {..<nlogged s}" using that b(2) set by (auto simp: pins_def)
qed

lemma log_area_mem:
  "l_start l \<in> set (log_area l)" "i < nat (lh_n (l_lh l)) \<Longrightarrow> log_block l i \<in> set (log_area l)"
  by (auto simp: log_area_def)

text \<open>The writes of a commit: the log, the header, the home blocks, the header again.\<close>

definition log_writes :: "kstate \<Rightarrow> writes" where
  "log_writes s = map (\<lambda>i. (log_block (klog s) i, content s (home s i))) [0..<nlogged s]"

definition home_writes :: "kstate \<Rightarrow> writes" where
  "home_writes s = map (\<lambda>i. (home s i, content s (home s i))) [0..<nlogged s]"

definition header1 :: "kstate \<Rightarrow> block" where
  "header1 s = encode_header (l_lh (klog s)) (disk s (l_start (klog s)))"

definition header2 :: "kstate \<Rightarrow> block" where
  "header2 s = encode_header ((l_lh (klog s))\<lparr>lh_n := 0\<rparr>) (header1 s)"

definition journal :: "kstate \<Rightarrow> writes" where
  "journal s = log_writes s @ [(l_start (klog s), header1 s)] @ home_writes s @ [(l_start (klog s), header2 s)]"

lemma after_log_writes:
  assumes r: "log_ready s"
  shows "x \<notin> log_block (klog s) ` {..<nlogged s} \<Longrightarrow> apply_writes (log_writes s) d x = d x"
    "i < nlogged s \<Longrightarrow> apply_writes (log_writes s) d (log_block (klog s) i) = content s (home s i)"
proof -
  show "apply_writes (log_writes s) d x = d x" if "x \<notin> log_block (klog s) ` {..<nlogged s}"
    using that by (intro apply_writes_other) (auto simp: log_writes_def)
  have "nlogged s \<le> 30" using log_readyD(5) [OF r] by simp
  then have "inj_on (log_block (klog s)) {..<nlogged s}"
    by (intro inj_onI) (simp add: log_block_inj)
  then have "distinct (map fst (log_writes s))"
    by (simp add: log_writes_def comp_def distinct_map atLeast0LessThan)
  then show "apply_writes (log_writes s) d (log_block (klog s) i) = content s (home s i)" if "i < nlogged s"
    using apply_writes_nth [of "log_writes s" i d] that by (simp add: log_writes_def)
qed

lemma start_not_log:
  assumes "log_ready s"
  shows "l_start (klog s) \<notin> log_block (klog s) ` {..<nlogged s}"
proof
  assume "l_start (klog s) \<in> log_block (klog s) ` {..<nlogged s}"
  then obtain i where i: "i < nlogged s" "log_block (klog s) i = l_start (klog s)" by auto
  have "i < 2 ^ 31" using i(1) log_readyD(5) [OF assms] by simp
  from log_block_start [OF this] i(2) show False by blast
qed

lemma home_not_area: "log_ready s \<Longrightarrow> x \<in> set (log_area (klog s)) \<Longrightarrow> x \<notin> fst ` set (home_writes s)"
  using log_ready_home(3) [of s] by (auto simp: home_writes_def)


lemma commit_spec:
  assumes r: "log_ready s"
  shows "\<exists>s'. commit s = Ok () s' \<and> disk_writes s' = rev (journal s) @ disk_writes s \<and>
    disk s' = apply_writes (journal s) (disk s) \<and> quiet s' \<and> room s' \<and> pins s' = (\<lambda>_. None) \<and>
    klog s' = (klog s)\<lparr>l_lh := (l_lh (klog s))\<lparr>lh_n := 0\<rparr>\<rparr>"
proof -
  note D = log_readyD [OF r] and H = log_ready_home [OF r]
  let ?start = "l_start (klog s)"
  obtain s1 where s1: "write_log s = Ok () s1" "wrote s (log_writes s) (pins s) s1"
    using write_log_spec [OF D(1,2,3), of "\<lambda>i. content s (home s i)"] H(2) H(4) [OF log_area_mem(2)]
    unfolding log_writes_def by blast
  note w1 = wroteD [OF s1(2)]
  have "disk s1 ?start = disk s ?start" using w1(4) after_log_writes(1) [OF r start_not_log [OF r]] by simp
  then obtain s2 where s2: "write_head s1 = Ok () s2" "wrote s1 [(?start, header1 s)] (pins s) s2"
    using write_head_spec [OF w1(1,2), of "nlogged s"] w1(3,5) D(3,5,6) H(4) [OF log_area_mem(1)]
    unfolding header1_def by auto
  have s12: "wrote s (log_writes s @ [(?start, header1 s)]) (pins s) s2" using wrote_trans [OF s1(2) s2(2)] .
  note w2 = wroteD [OF s12]
  have lb2: "disk s2 (log_block (klog s) i) = content s (home s i)" if "i < nlogged s" for i
  proof -
    have "log_block (klog s) i \<noteq> ?start" using start_not_log [OF r] that by (metis imageI lessThan_iff)
    then show ?thesis using w2(4) after_log_writes(2) [OF r that] by simp
  qed
  have ne: "log_block (klog s) i \<noteq> home s j" if "i < nlogged s" "j < nlogged s" for i j
    using H(3) [OF that(2)] log_area_mem(2) [of i "klog s"] that(1) by metis
  obtain s3 where s3: "install_trans False s2 = Ok () s3"
    "wrote s2 (map (\<lambda>i. (home s i, disk s2 (log_block (klog s) i))) [0..<nlogged s])
       (\<lambda>x. if x \<in> home s ` {..<nlogged s} then None else pins s x) s3"
    using install_trans_spec [OF w2(1,2), of False, unfolded w2(3,5), OF D(3) H(4) [OF log_area_mem(2)] ne H(1)] H(2)
    by auto
  have hw: "map (\<lambda>i. (home s i, disk s2 (log_block (klog s) i))) [0..<nlogged s] = home_writes s"
    using lb2 by (simp add: home_writes_def)
  have np: "(\<lambda>x. if x \<in> home s ` {..<nlogged s} then None else pins s x) = (\<lambda>_. None)"
    using H(5) by auto
  have s13: "wrote s ((log_writes s @ [(?start, header1 s)]) @ home_writes s) (\<lambda>_. None) s3"
    using wrote_trans [OF s12 s3(2) [unfolded hw np]] .
  note w3 = wroteD [OF s13]
  define s4 where "s4 = s3\<lparr>klog := (klog s)\<lparr>l_lh := (l_lh (klog s))\<lparr>lh_n := 0\<rparr>\<rparr>\<rparr>"
  have k4: "klog s4 = (klog s)\<lparr>l_lh := (l_lh (klog s))\<lparr>lh_n := 0\<rparr>\<rparr>" "disk s4 = disk s3"
    "disk_writes s4 = disk_writes s3" by (simp_all add: s4_def)
  have q4: "quiet s4" "room s4" "pins s4 = (\<lambda>_. None)" using w3 by (simp_all add: s4_def)
  have set4: "set_lh_n 0 s3 = Ok () s4" using w3(5) by (simp add: set_lh_n_def s4_def)
  have "disk s4 ?start = header1 s"
    using w3(4) k4(2) home_not_area [OF r log_area_mem(1)] by (simp add: apply_writes_other)
  then obtain s5 where s5: "write_head s4 = Ok () s5" "wrote s4 [(?start, header2 s)] (\<lambda>_. None) s5"
    using write_head_spec [OF q4(1,2), of 0] q4(3) k4(1) D(3) unfolding header2_def by auto
  note w5 = wroteD [OF s5(2)]
  have "commit s = Ok () s5"
    using s1(1) s2(1) s3(1) set4 s5(1) D(4) by (simp add: commit_def get_log_def kthen_def kbind_def)
  moreover have "disk_writes s5 = rev (journal s) @ disk_writes s"
    using s5(2) s13 k4(3) by (simp add: wrote_def journal_def)
  moreover have "disk s5 = apply_writes (journal s) (disk s)" using w5(4) w3(4) k4(2) by (simp add: journal_def)
  ultimately show ?thesis using w5 k4(1) by auto
qed


section \<open>Recovery\<close>

text \<open>bread, a change of the in-memory log that depends on the data, brelse.\<close>

lemma read_block_spec:
  assumes q: "quiet s" and r: "room s" and l: "pins s l = None"
    and g: "\<And>t. g (disk s l) t = Ok () (t\<lparr>klog := f (klog t)\<rparr>)"
  shows "\<exists>s'. kbind (bread ROOTDEV l) (\<lambda>b. kbind (buf_data b) (\<lambda>d. kthen (g d) (brelse b))) s = Ok () s' \<and>
    wrote (s\<lparr>klog := f (klog s)\<rparr>) [] (pins s) s'"
proof -
  obtain b s1 where b: "bread ROOTDEV l s = Ok b s1" "s1 = s\<lparr>bufs := bufs s1\<rparr>" "binv s1" "locked {b} s1"
    "holds s1 b l (disk s l) 1" "b_refcnt (bufs s ! b) = 0"
    "\<forall>i. i \<noteq> b \<longrightarrow> bufs s1 ! i = bufs s ! i"
    using open_block [OF q r l] by blast
  define s2 where "s2 = s1\<lparr>klog := f (klog s1)\<rparr>"
  have c: "cached s2 = cached s1" by (auto simp: cached_def fun_eq_iff s2_def)
  have s2: "binv s2" "locked {b} s2" "holds s2 b l (disk s l) 1"
    using b(3,4,5) by (simp_all add: s2_def binv_def locked_def holds_def mylock_def c [unfolded s2_def])
  have "disk s l = disk s2 l" using arg_cong [OF b(2), of disk] by (simp add: s2_def)
  then obtain s3 where s3: "brelse b s2 = Ok () s3" "s3 = s2\<lparr>procs := procs s3, bufs := bufs s3\<rparr>" "binv s3"
    "locked ({b} - {b}) s3" "holds s3 b l (disk s l) (1 - 1)"
    "\<forall>i. i \<noteq> b \<longrightarrow> core (bufs s3 ! i) = core (bufs s2 ! i)"
    using brelse_held [OF s2(1,2) insertI1 s2(3)] by blast
  have "b_data (bufs s1 ! b) = disk s l" using b(5) by (simp add: holds_def)
  then have run: "kbind (bread ROOTDEV l) (\<lambda>b. kbind (buf_data b) (\<lambda>d. kthen (g d) (brelse b))) s = Ok () s3"
    using b(1) s3(1) g [of s1] by (simp add: kbind_def kthen_def s2_def)
  have same: "core (bufs s3 ! i) = core (bufs s ! i)" if "i \<noteq> b" for i
    using that s3(6) b(7) by (simp add: s2_def)
  have z: "b_refcnt (bufs s3 ! b) = 0" "b < NBUF" using s3(5) by (auto simp: holds_def)
  have l3: "locked {} s3" using s3(4) by simp
  note st = settle [OF q s3(3) l3, where B = "{b}" and h = l]
  have quiet3: "quiet s3" by (rule st(1)) (use same z b(6) in auto)
  have "pins s3 x = pins s x" if "x \<noteq> l" for x by (rule st(2)) (use same z b(6) that in auto)
  moreover have "pins s3 l = None"
    using binv_unique [OF s3(3) holds_cached [OF s3(5)]] z(1) by (auto simp: pins_def pinned_def)
  ultimately have "pins s3 = pins s" using l by (metis ext)
  moreover have "room s3" using z by (auto simp: room_def)
  moreover have d3: "disk s3 = disk s" "disk_writes s3 = disk_writes s"
    using arg_cong [OF s3(2), of disk] arg_cong [OF s3(2), of disk_writes]
      arg_cong [OF b(2), of disk] arg_cong [OF b(2), of disk_writes] by (simp_all add: s2_def)
  moreover have "io_frame (s\<lparr>klog := f (klog s)\<rparr>) s3"
    unfolding io_frame_def using s3(2) b(2) by (cases s; cases s1; cases s3) (simp add: s2_def)
  ultimately show ?thesis using run quiet3 by (auto simp: wrote_def)
qed

text \<open>The in-memory log after read_head, from the header block \<open>d\<close>.\<close>

definition load_header :: "block \<Rightarrow> log \<Rightarrow> log" where
  "load_header d l = l\<lparr>l_lh := \<lparr>lh_n = header_n d,
     lh_block = fold (\<lambda>i bl. bl[i := header_block d i]) [0..<nat (header_n d)] (lh_block (l_lh l))\<rparr>\<rparr>"

lemma kfor_upd_log: "kfor is (\<lambda>i. kmodify (upd_log (f i))) s = Ok () (s\<lparr>klog := fold f is (klog s)\<rparr>)"
  by (induction "is" arbitrary: s) simp_all

lemma fold_lh_block:
  "fold (\<lambda>i l. l\<lparr>l_lh := (l_lh l)\<lparr>lh_block := (lh_block (l_lh l))[i := f i]\<rparr>\<rparr>) is l =
   l\<lparr>l_lh := (l_lh l)\<lparr>lh_block := fold (\<lambda>i bl. bl[i := f i]) is (lh_block (l_lh l))\<rparr>\<rparr>"
  by (induction "is" arbitrary: l) simp_all

lemma nth_fold_update:
  "n \<le> length xs \<Longrightarrow> i < n \<Longrightarrow> fold (\<lambda>i bl. bl[i := f i]) [0..<n] xs ! i = f i"
  "length (fold (\<lambda>i bl. bl[i := f i]) is xs) = length xs"
proof -
  show len: "length (fold (\<lambda>i bl. bl[i := f i]) is xs) = length xs" for "is" xs
    by (induction "is" arbitrary: xs) simp_all
  show "n \<le> length xs \<Longrightarrow> i < n \<Longrightarrow> fold (\<lambda>i bl. bl[i := f i]) [0..<n] xs ! i = f i"
  proof (induction n)
    case (Suc n)
    then show ?case using len [of "[0..<n]" xs] by (cases "i = n") simp_all
  qed simp
qed

lemma read_head_spec:
  assumes q: "quiet s" and r: "room s" and dev: "l_dev (klog s) = ROOTDEV" and l: "pins s (l_start (klog s)) = None"
  shows "\<exists>s'. read_head s = Ok () s' \<and>
    wrote (s\<lparr>klog := load_header (disk s (l_start (klog s))) (klog s)\<rparr>) [] (pins s) s'"
proof -
  let ?g = "\<lambda>d. kthen (set_lh_n (header_n d)) (kfor [0..<nat (header_n d)] (\<lambda>i. kmodify (upd_log (\<lambda>l.
        l\<lparr>l_lh := (l_lh l)\<lparr>lh_block := (lh_block (l_lh l))[i := header_block d i]\<rparr>\<rparr>))))"
  have "?g d t = Ok () (t\<lparr>klog := load_header d (klog t)\<rparr>)" for d t
    by (simp add: set_lh_n_def kfor_upd_log fold_lh_block load_header_def)
  from read_block_spec [where g = ?g and f = "load_header (disk s (l_start (klog s)))", OF q r l this] show ?thesis
    using dev by (simp add: read_head_def get_log_def kthen_assoc)
qed

text \<open>
  Recovery on a quiet cache: the blocks the header lists are copied from the log to their homes,
  and the header is cleared.
\<close>

lemma initlog_spec:
  fixes s su
  defines "d \<equiv> disk s (sb_logstart su)"
  defines "l \<equiv> load_header d ((klog s)\<lparr>l_start := sb_logstart su, l_dev := ROOTDEV\<rparr>)"
  assumes q: "quiet s" and np: "pins s = (\<lambda>_. None)" and len: "length (lh_block (l_lh (klog s))) = LOGBLOCKS"
    and n: "header_n d = int n" "n \<le> LOGBLOCKS"
    and ne: "\<And>i j. i < n \<Longrightarrow> j < n \<Longrightarrow> log_block l i \<noteq> header_block d j"
    and dist: "distinct (map (header_block d) [0..<n])"
  shows "\<exists>r h w. initlog ROOTDEV su s = Ok () r \<and> header_n h = 0 \<and>
    w = map (\<lambda>i. (header_block d i, disk s (log_block l i))) [0..<n] @ [(sb_logstart su, h)] \<and>
    disk_writes r = rev w @ disk_writes s \<and> disk r = apply_writes w (disk s)"
proof -
  define s1 where "s1 = s\<lparr>klog := (klog s)\<lparr>l_start := sb_logstart su, l_dev := ROOTDEV\<rparr>\<rparr>"
  have k1: "klog s1 = (klog s)\<lparr>l_start := sb_logstart su, l_dev := ROOTDEV\<rparr>" "disk s1 = disk s"
    by (simp_all add: s1_def)
  have q1: "quiet s1" "pins s1 = (\<lambda>_. None)" using q np by (simp_all add: s1_def)
  have "b_refcnt (bufs s1 ! 0) = 0" using no_pins_refcnt [OF q1] by simp
  then have r1: "room s1" unfolding room_def by (intro exI [of _ "0 :: nat"]) simp
  have "load_header (disk s1 (l_start (klog s1))) (klog s1) = l" by (simp add: k1 l_def d_def)
  then obtain s2 where s2: "read_head s1 = Ok () s2" "wrote (s1\<lparr>klog := l\<rparr>) [] (\<lambda>_. None) s2"
    using read_head_spec [OF q1(1) r1] q1(2) k1 by auto
  note w2 = wroteD [OF s2(2)]
  have k2: "klog s2 = l" "disk s2 = disk s" using w2(4,5) k1 by simp_all
  have l: "l_dev l = ROOTDEV" "l_start l = sb_logstart su" "nat (lh_n (l_lh l)) = n" "lh_n (l_lh l) = int n"
    using n by (simp_all add: l_def load_header_def)
  have hb: "lh_block (l_lh l) ! i = header_block d i" if "i < n" for i
    using that n len by (simp add: l_def load_header_def nth_fold_update)
  have m: "map (\<lambda>i. lh_block (l_lh l) ! i) [0..<n] = map (header_block d) [0..<n]" using hb by simp
  obtain s3 where s3: "install_trans True s2 = Ok () s3"
    "wrote s2 (map (\<lambda>i. (lh_block (l_lh l) ! i, disk s (log_block l i))) [0..<n])
       (\<lambda>x. if x \<in> (\<lambda>i. lh_block (l_lh l) ! i) ` {..<n} then None else None) s3"
    using install_trans_spec [OF w2(1,2), of True, unfolded k2 w2(3) l(3)] l(1) ne hb dist m by auto
  have s23: "wrote s2 (map (\<lambda>i. (header_block d i, disk s (log_block l i))) [0..<n]) (\<lambda>_. None) s3"
  proof -
    have "map (\<lambda>i. (lh_block (l_lh l) ! i, disk s (log_block l i))) [0..<n] =
        map (\<lambda>i. (header_block d i, disk s (log_block l i))) [0..<n]" using hb by simp
    then show ?thesis using s3(2) by (simp only: if_cancel)
  qed
  note w3 = wroteD [OF s23]
  define s4 where "s4 = s3\<lparr>klog := l\<lparr>l_lh := (l_lh l)\<lparr>lh_n := 0\<rparr>\<rparr>\<rparr>"
  have set4: "set_lh_n 0 s3 = Ok () s4" using w3(5) k2 by (simp add: set_lh_n_def s4_def)
  have q4: "quiet s4" "room s4" "pins s4 = (\<lambda>_. None)" using w3 by (simp_all add: s4_def)
  define h where "h = encode_header (l_lh (klog s4)) (disk s4 (sb_logstart su))"
  have k4: "lh_n (l_lh (klog s4)) = int 0" "l_start (klog s4) = sb_logstart su" "l_dev (klog s4) = ROOTDEV"
    using l by (simp_all add: s4_def)
  have "length (disk s4 (sb_logstart su)) = BSIZE" using quiet_binv [OF q4(1)] by (simp add: binv_def)
  from encode_header(2) [OF k4(1) _ this] have h: "header_n h = 0" by (simp add: h_def)
  obtain s5 where s5: "write_head s4 = Ok () s5" "wrote s4 [(sb_logstart su, h)] (\<lambda>_. None) s5"
    using write_head_spec [OF q4(1,2) k4(3) _ k4(1)] q4(3) k4(2) by (auto simp: h_def)
  have "upd_log (\<lambda>l. l\<lparr>l_start := sb_logstart su, l_dev := ROOTDEV\<rparr>) s = s1"
    unfolding s1_def by (cases s) simp
  then have "initlog ROOTDEV su s = Ok () s5"
    using s2(1) s3(1) set4 s5(1)
    by (simp add: initlog_def recover_from_log_def kthen_def kbind_def)
  moreover have "disk_writes s2 = disk_writes s"
    using s2(2) by (simp add: wrote_def s1_def)
  then have "disk_writes s5 = rev (map (\<lambda>i. (header_block d i, disk s (log_block l i))) [0..<n] @ [(sb_logstart su, h)]) @ disk_writes s"
    using s5(2) s23 by (simp add: wrote_def s4_def)
  moreover have "disk s5 = apply_writes (map (\<lambda>i. (header_block d i, disk s (log_block l i))) [0..<n] @ [(sb_logstart su, h)]) (disk s)"
    using wroteD(4) [OF s5(2)] w3(4) k2(2) by (simp add: s4_def)
  ultimately show ?thesis using h by blast
qed


section \<open>Atomicity\<close>

text \<open>The disk after the transaction is installed: the contents the cache had at the commit.\<close>

lemma install_view:
  assumes r: "log_ready s" and d: "\<And>x. x \<notin> home s ` {..<nlogged s} \<Longrightarrow> x \<notin> set (log_area (klog s)) \<Longrightarrow> d x = disk s x"
    and x: "x \<notin> set (log_area (klog s))"
  shows "apply_writes (home_writes s) d x = content s x"
proof (cases "x \<in> home s ` {..<nlogged s}")
  case True
  then obtain i where i: "i < nlogged s" "x = home s i" by auto
  have "distinct (map fst (home_writes s))"
    using log_ready_home(1) [OF r] by (simp add: home_writes_def comp_def)
  from apply_writes_nth [OF this, of i d] i show ?thesis by (simp add: home_writes_def)
next
  case False
  then have "x \<notin> fst ` set (home_writes s)" by (auto simp: home_writes_def)
  then have "apply_writes (home_writes s) d x = disk s x" using d [OF False x] by (simp add: apply_writes_other)
  also have "\<dots> = content s x"
    using unpinned_content [OF log_readyD(1) [OF r] log_ready_home(5) [OF r False]] by simp
  finally show ?thesis .
qed

lemma header_facts:
  assumes r: "log_ready s"
  shows "header_n (header1 s) = int (nlogged s)" "i < nlogged s \<Longrightarrow> header_block (header1 s) i = home s i"
    "header_n (header2 s) = 0"
proof -
  note D = log_readyD [OF r]
  have len: "length (disk s (l_start (klog s))) = BSIZE" using quiet_binv [OF D(1)] by (simp add: binv_def)
  note e = encode_header [OF D(6,5) len]
  show "header_n (header1 s) = int (nlogged s)" using e(2) by (simp add: header1_def)
  show "header_block (header1 s) i = home s i" if "i < nlogged s" using e(3) [OF that] by (simp add: header1_def)
  have "header_n (header2 s) = int 0"
    unfolding header2_def using e(1) by (intro encode_header(2)) (simp_all add: header1_def)
  then show "header_n (header2 s) = 0" by simp
qed

lemma log_block_cong: "l_start l = l_start l' \<Longrightarrow> log_block l i = log_block l' i"
  by (simp add: log_block_def)

text \<open>
  The disks a crash can leave. At rest the header says the log is empty and the other blocks are
  those of \<open>f\<close>; once the header is written the log holds the transaction, and the home
  blocks are those of before or after it.
\<close>

definition at_rest :: "kstate \<Rightarrow> (u32 \<Rightarrow> block) \<Rightarrow> (u32 \<Rightarrow> block) \<Rightarrow> bool" where
  "at_rest s f d \<longleftrightarrow> header_n (d (l_start (klog s))) = 0 \<and> (\<forall>x. x \<notin> set (log_area (klog s)) \<longrightarrow> d x = f x)"

definition logged :: "kstate \<Rightarrow> (u32 \<Rightarrow> block) \<Rightarrow> bool" where
  "logged s d \<longleftrightarrow> d (l_start (klog s)) = header1 s \<and>
     (\<forall>i<nlogged s. d (log_block (klog s) i) = content s (home s i)) \<and>
     (\<forall>x. x \<notin> home s ` {..<nlogged s} \<longrightarrow> x \<notin> set (log_area (klog s)) \<longrightarrow> d x = disk s x)"

definition recoverable :: "kstate \<Rightarrow> bool \<Rightarrow> (u32 \<Rightarrow> block) \<Rightarrow> bool" where
  "recoverable s c d \<longleftrightarrow> (if c then logged s d \<or> at_rest s (content s) d else at_rest s (disk s) d)"

lemma home_writes_mem: "x \<notin> home s ` {..<nlogged s} \<Longrightarrow> x \<notin> fst ` set (home_writes s)"
  by (auto simp: home_writes_def)

lemma log_writes_mem: "x \<notin> set (log_area (klog s)) \<Longrightarrow> x \<notin> fst ` set (log_writes s)"
  using log_area_mem(2) [of _ "klog s"] by (auto simp: log_writes_def)

lemma length_writes: "length (log_writes s) = nlogged s" "length (home_writes s) = nlogged s"
  "length (journal s) = 2 * nlogged s + 2"
  by (simp_all add: log_writes_def home_writes_def journal_def)

lemma logged_home:
  assumes r: "log_ready s" and l: "logged s d"
  shows "logged s (apply_writes (take m (home_writes s)) d)"
proof -
  have "log_block (klog s) i \<notin> fst ` set (home_writes s)" if "i < nlogged s" for i
    using home_not_area [OF r log_area_mem(2) [OF that]] .
  moreover have "l_start (klog s) \<notin> fst ` set (home_writes s)" using home_not_area [OF r log_area_mem(1)] .
  ultimately show ?thesis using l home_writes_mem by (simp add: logged_def apply_writes_take)
qed

lemma logged_install:
  assumes r: "log_ready s" and l: "logged s d" and h: "header_n h = 0"
  shows "at_rest s (content s) ((apply_writes (home_writes s) d)(l_start (klog s) := h))"
proof -
  have "x \<noteq> l_start (klog s)" if "x \<notin> set (log_area (klog s))" for x using that log_area_mem(1) [of "klog s"] by auto
  then show ?thesis
    using h install_view [OF r, of d] l by (auto simp: at_rest_def logged_def)
qed

lemma logged_start:
  assumes r: "log_ready s"
  shows "logged s ((apply_writes (log_writes s) (disk s))(l_start (klog s) := header1 s))"
proof -
  have "log_block (klog s) i \<noteq> l_start (klog s)" if "i < nlogged s" for i
    using start_not_log [OF r] that by (metis imageI lessThan_iff)
  moreover have "x \<noteq> l_start (klog s)" if "x \<notin> set (log_area (klog s))" for x using that log_area_mem(1) [of "klog s"] by auto
  ultimately show ?thesis
    using after_log_writes(2) [OF r] log_writes_mem by (simp add: logged_def apply_writes_other)
qed

lemma journal_recoverable:
  assumes r: "log_ready s" and k: "k \<le> length (journal s)"
  shows "recoverable s (nlogged s < k) (apply_writes (take k (journal s)) (disk s))"
proof -
  let ?n = "nlogged s" and ?st = "l_start (klog s)"
  consider (before) "k \<le> ?n" | (during) m where "k = Suc (?n + m)" "m \<le> ?n" | (after) "k = 2 * ?n + 2"
    using k less_imp_Suc_add [of ?n k] unfolding length_writes by fastforce
  then show ?thesis
  proof cases
    case before
    then have j: "take k (journal s) = take k (log_writes s)" by (simp add: journal_def length_writes)
    have "?st \<notin> fst ` set (log_writes s)" using start_not_log [OF r] by (auto simp: log_writes_def)
    then show ?thesis
      using before log_readyD(8) [OF r] log_writes_mem by (simp add: recoverable_def at_rest_def j apply_writes_take)
  next
    case during
    then have "take k (journal s) = log_writes s @ [(?st, header1 s)] @ take m (home_writes s)"
      by (simp add: journal_def length_writes)
    then show ?thesis
      using logged_home [OF r logged_start [OF r]] during by (simp add: recoverable_def)
  next
    case after
    then have "take k (journal s) = journal s" by (simp add: length_writes)
    then show ?thesis
      using logged_install [OF r logged_start [OF r] header_facts(3) [OF r]] after
      by (simp add: recoverable_def journal_def)
  qed
qed

lemma apply_writes_length:
  "(\<And>b. length (d b) = n) \<Longrightarrow> (\<forall>v\<in>snd ` set w. length v = n) \<Longrightarrow> length (apply_writes w d b) = n"
  by (induction w arbitrary: d) auto

lemma journal_length:
  assumes r: "log_ready s"
  shows "length (apply_writes (take k (journal s)) (disk s) b) = BSIZE"
proof (rule apply_writes_length)
  have inv: "binv s" using quiet_binv [OF log_readyD(1) [OF r]] .
  then show dl: "length (disk s b) = BSIZE" for b by (simp add: binv_def)
  note e = encode_header(1) [OF log_readyD(6,5) [OF r] dl]
  have "length (header1 s) = BSIZE" using e by (simp add: header1_def)
  moreover from this have "length (header2 s) = BSIZE"
    using encode_header(1) [of "(l_lh (klog s))\<lparr>lh_n := 0\<rparr>" 0 "header1 s"] by (simp add: header2_def)
  moreover have "length (content s x) = BSIZE" for x
    using inv by (auto simp: content_def binv_def dest!: find_upt_Some split: option.splits)
  ultimately have "\<forall>v\<in>snd ` set (journal s). length v = BSIZE"
    by (auto simp: journal_def log_writes_def home_writes_def)
  then show "\<forall>v\<in>snd ` set (take k (journal s)). length v = BSIZE" by (auto dest: in_set_takeD)
qed

text \<open>The machine after a crash: nothing in the cache is referenced.\<close>

definition rebooted :: "kstate \<Rightarrow> bool" where
  "rebooted s \<longleftrightarrow> quiet s \<and> pins s = (\<lambda>_. None) \<and> length (lh_block (l_lh (klog s))) = LOGBLOCKS"

lemma initlog_logged:
  assumes r: "log_ready s" and q: "rebooted s0" and su: "sb_logstart su = l_start (klog s)" and l: "logged s (disk s0)"
  shows "\<exists>t h. initlog ROOTDEV su s0 = Ok () t \<and> header_n h = 0 \<and>
    disk_writes t = rev (home_writes s @ [(l_start (klog s), h)]) @ disk_writes s0 \<and>
    disk t = apply_writes (home_writes s @ [(l_start (klog s), h)]) (disk s0)"
proof -
  note D = log_readyD [OF r] and H = log_ready_home [OF r] and F = header_facts [OF r] and q' = q [unfolded rebooted_def]
  let ?d = "disk s0 (sb_logstart su)"
  let ?l = "load_header ?d ((klog s0)\<lparr>l_start := sb_logstart su, l_dev := ROOTDEV\<rparr>)"
  have d: "?d = header1 s" using su l by (simp add: logged_def)
  have lbk: "log_block ?l i = log_block (klog s) i" for i
    using su by (intro log_block_cong) (simp add: load_header_def)
  have m: "map (header_block ?d) [0..<nlogged s] = map (home s) [0..<nlogged s]" using F(2) d by simp
  have ne: "log_block ?l i \<noteq> header_block ?d j" if "i < nlogged s" "j < nlogged s" for i j
    using H(3) [OF that(2)] log_area_mem(2) [of i "klog s"] that F(2) [OF that(2)] d lbk by metis
  have hn: "header_n ?d = int (nlogged s)" by (simp only: d F(1))
  have dist: "distinct (map (header_block ?d) [0..<nlogged s])" using H(1) by (simp only: m)
  have "map (\<lambda>i. (header_block ?d i, disk s0 (log_block ?l i))) [0..<nlogged s] = home_writes s"
    unfolding home_writes_def using F(2) d l lbk by (intro map_cong) (auto simp: logged_def)
  then show ?thesis
    using initlog_spec [OF conjunct1 [OF q'] _ _ hn D(5) ne dist] q' unfolding su by simp
qed

lemma initlog_at_rest:
  assumes q: "rebooted s0" and su: "sb_logstart su = l_start (klog s)" and a: "at_rest s f (disk s0)"
  shows "\<exists>t h. initlog ROOTDEV su s0 = Ok () t \<and> header_n h = 0 \<and>
    disk_writes t = rev [(l_start (klog s), h)] @ disk_writes s0 \<and> disk t = (disk s0)(l_start (klog s) := h)"
  using initlog_spec [of s0 su 0] q a unfolding rebooted_def su at_rest_def by auto

lemma at_rest_header:
  "at_rest s f d \<Longrightarrow> header_n h = 0 \<Longrightarrow> at_rest s f (d(l_start (klog s) := h))"
  using log_area_mem(1) [of "klog s"] by (auto simp: at_rest_def)

text \<open>Recovery brings such a disk to rest, and a crash during recovery leaves such a disk.\<close>

lemma recoverable_recovers:
  assumes r: "log_ready s" and q: "rebooted s0" and su: "sb_logstart su = l_start (klog s)"
    and c: "recoverable s c (disk s0)"
  shows "\<exists>t w. initlog ROOTDEV su s0 = Ok () t \<and> disk_writes t = rev w @ disk_writes s0 \<and>
    (\<forall>k. recoverable s c (apply_writes (take k w) (disk s0))) \<and> at_rest s (if c then content s else disk s) (disk t)"
proof (cases "c \<and> logged s (disk s0)")
  case True
  then obtain t h where t: "initlog ROOTDEV su s0 = Ok () t" "header_n h = 0"
      "disk_writes t = rev (home_writes s @ [(l_start (klog s), h)]) @ disk_writes s0"
      "disk t = apply_writes (home_writes s @ [(l_start (klog s), h)]) (disk s0)"
    using initlog_logged [OF r q su] by blast
  have rest: "at_rest s (content s) (disk t)" using logged_install [OF r _ t(2)] True t(4) by simp
  have "recoverable s c (apply_writes (take k (home_writes s @ [(l_start (klog s), h)])) (disk s0))" for k
  proof (cases "k \<le> nlogged s")
    case le: True
    then show ?thesis using logged_home [OF r] True by (simp add: recoverable_def length_writes)
  next
    case False
    then have "take k (home_writes s @ [(l_start (klog s), h)]) = home_writes s @ [(l_start (klog s), h)]"
      by (simp add: length_writes)
    then show ?thesis using rest t(4) True by (simp add: recoverable_def)
  qed
  then show ?thesis using t(1,3) rest True by (intro exI [of _ t] exI [of _ "home_writes s @ [(l_start (klog s), h)]"]) simp
next
  case False
  then have a: "at_rest s (if c then content s else disk s) (disk s0)" using c by (auto simp: recoverable_def split: if_splits)
  from initlog_at_rest [OF q su this] obtain t h where t: "initlog ROOTDEV su s0 = Ok () t" "header_n h = 0"
      "disk_writes t = rev [(l_start (klog s), h)] @ disk_writes s0" "disk t = (disk s0)(l_start (klog s) := h)"
    by blast
  have rest: "at_rest s (if c then content s else disk s) (disk t)" using at_rest_header [OF a t(2)] t(4) by simp
  then have "recoverable s c (apply_writes (take k [(l_start (klog s), h)]) (disk s0))" for k
    using c t(4) by (cases k) (auto simp: recoverable_def split: if_splits)
  then show ?thesis using t(1,3) rest by (intro exI [of _ t] exI [of _ "[(l_start (klog s), h)]"]) simp
qed

text \<open>
  The disks crashes can leave when a transaction is committed in state \<open>s\<close>: commit stops after
  some of its writes, and so does every recovery that is started afterwards. The flag says
  whether the commit point, the write of the header, was passed.
\<close>

inductive crashed :: "kstate \<Rightarrow> superblock \<Rightarrow> bool \<Rightarrow> (u32 \<Rightarrow> block) \<Rightarrow> bool" for s su where
  in_commit: "commit s = Ok () s' \<Longrightarrow> disk_writes s' = rev w @ disk_writes s \<Longrightarrow> k \<le> length w \<Longrightarrow>
    crashed s su (nlogged s < k) (apply_writes (take k w) (disk s))"
| in_recovery: "crashed s su c (disk s0) \<Longrightarrow> rebooted s0 \<Longrightarrow> initlog ROOTDEV su s0 = Ok () t \<Longrightarrow>
    disk_writes t = rev w @ disk_writes s0 \<Longrightarrow> crashed s su c (apply_writes (take k w) (disk s0))"

lemma crashed_recoverable:
  assumes r: "log_ready s" and su: "sb_logstart su = l_start (klog s)"
  shows "crashed s su c d \<Longrightarrow> recoverable s c d"
proof (induction rule: crashed.induct)
  case (in_commit s' w k)
  then have "w = journal s" using commit_spec [OF r] by auto
  then show ?case using journal_recoverable [OF r] in_commit(3) by simp
next
  case (in_recovery c s0 t w k)
  then obtain w' where "rev w = rev w'" "recoverable s c (apply_writes (take k w') (disk s0))"
    using recoverable_recovers [OF r in_recovery(2) su in_recovery(5)] by auto
  then show ?case by simp
qed


section \<open>The property\<close>

text \<open>The state an operation ends in.\<close>

fun out_state :: "(kstate, 'a) out \<Rightarrow> kstate" where
  "out_state (Ok _ s) = s"
| "out_state (Sleep s) = s"
| "out_state (Panic _) = kstate0"

text \<open>
  A machine after binit, and the same machine with block 50 changed in its buffer, logged and
  pinned, in a log that starts at block 2.
\<close>

definition booted :: kstate where
  "booted = out_state (binit kstate0)"

definition committing :: kstate where
  "committing = booted
     \<lparr>bufs := (bufs booted)[0 := (bufs booted ! 0)\<lparr>b_dev := ROOTDEV, b_blockno := 50, b_valid := True,
        b_refcnt := 1, b_data := replicate BSIZE 1\<rparr>],
      klog := (klog booted)\<lparr>l_start := 2, l_dev := ROOTDEV,
        l_lh := \<lparr>lh_n = 1, lh_block = replicate LOGBLOCKS 50\<rparr>\<rparr>\<rparr>"

lemma booted_spec:
  "binv booted" "locked {} booted" "booted = kstate0\<lparr>bufs := bufs booted\<rparr>"
  "i < NBUF \<Longrightarrow> b_dev (bufs booted ! i) = 0" "i < NBUF \<Longrightarrow> b_refcnt (bufs booted ! i) = 0"
proof -
  have "zero_bufs kstate0"
    by (simp add: zero_bufs_def kstate0_def buf0_def)
  from binit_spec [OF this] show "binv booted" "locked {} booted" "booted = kstate0\<lparr>bufs := bufs booted\<rparr>"
    "i < NBUF \<Longrightarrow> b_dev (bufs booted ! i) = 0" "i < NBUF \<Longrightarrow> b_refcnt (bufs booted ! i) = 0"
    by (auto simp: booted_def)
qed

lemma booted_disk: "disk booted = (\<lambda>_. replicate BSIZE 0)" "klog booted = log0" "disk_writes booted = []"
  using arg_cong [OF booted_spec(3), of disk] arg_cong [OF booted_spec(3), of klog]
    arg_cong [OF booted_spec(3), of disk_writes] by (simp_all add: kstate0_def)

lemma booted_rebooted: "(\<And>b. length (d b) = BSIZE) \<Longrightarrow> rebooted (booted\<lparr>disk := d\<rparr>)"
proof -
  assume d: "\<And>b. length (d b) = BSIZE"
  have c: "\<not> cached (booted\<lparr>disk := d\<rparr>) blk i" for blk i using booted_spec(4) by (auto simp: cached_def)
  have c': "\<not> cached booted blk i" for blk i using booted_spec(4) by (auto simp: cached_def)
  have "binv (booted\<lparr>disk := d\<rparr>)"
    using booted_spec(1) d c c' by (auto simp: binv_def)
  moreover have "locked {} (booted\<lparr>disk := d\<rparr>)" using booted_spec(2) by (simp add: locked_def)
  ultimately have "quiet (booted\<lparr>disk := d\<rparr>)" using booted_spec(5) by (simp add: quiet_def)
  moreover have "pins (booted\<lparr>disk := d\<rparr>) = (\<lambda>_. None)" using c by (auto simp: pins_def pinned_def)
  ultimately show ?thesis by (simp add: rebooted_def booted_disk log0_def)
qed

lemma committing_content: "content committing 50 = replicate BSIZE 1"
proof -
  have len: "length (bufs booted) = NBUF + 1" by (rule binv_len [OF booted_spec(1)])
  then show ?thesis by (simp add: content_def committing_def cached_def upt_rec)
qed

lemma committing_ready: "log_ready committing"
proof -
  have len: "length (bufs booted) = NBUF + 1" by (rule binv_len [OF booted_spec(1)])
  let ?K = "(bufs booted ! 0)\<lparr>b_dev := ROOTDEV, b_blockno := 50, b_valid := True,
        b_refcnt := 1, b_data := replicate BSIZE 1\<rparr>"
  let ?s = "booted\<lparr>bufs := (bufs booted)[0 := ?K]\<rparr>"
  have c: "cached committing blk i \<longleftrightarrow> i = 0 \<and> blk = 50" for blk i
    using booted_spec(4) [of i] len by (cases "i = 0") (auto simp: cached_def committing_def)
  have nc: "\<not> cached booted blk i" for blk i using booted_spec(4) by (auto simp: cached_def)
  have "binv ?s" by (rule binv_update [OF booted_spec(1)]) (simp_all add: nc)
  moreover have "binv committing = binv ?s" by (simp add: binv_def cached_def committing_def)
  moreover have "locked {} committing"
    unfolding locked_def
  proof (intro allI impI)
    fix i assume "i < NBUF"
    then show "if i \<in> {} then b_lock (bufs committing ! i) = mylock committing \<and> b_refcnt (bufs committing ! i) \<noteq> 0
      else \<not> sl_locked (b_lock (bufs committing ! i))"
      using booted_spec(2) len by (cases "i = 0") (auto simp: locked_def committing_def)
  qed
  moreover have r: "b_refcnt (bufs committing ! i) = (if i = 0 then 1 else 0)" if "i < NBUF" for i
    using booted_spec(5) [OF that] len by (cases "i = 0") (auto simp: committing_def)
  ultimately have "quiet committing" using len by (auto simp: quiet_def committing_def)
  moreover have "room committing" using r [of 1] by (auto simp: room_def intro!: exI [of _ 1])
  moreover have "pinned committing blk \<longleftrightarrow> blk = 50" for blk
    using r [of 0] by (auto simp: pinned_def c)
  moreover have "header_n (disk committing 2) = 0"
    by (simp add: committing_def booted_disk header_n_def get32_def slice_def le_word_zero)
  ultimately show ?thesis
    by (simp add: log_ready_def Let_def log_area_def log_block_def) (simp add: committing_def log_block_def)
qed


text \<open>C1: The log makes a transaction atomic and durable. Committing a transaction of \<open>n\<close> blocks
returns after \<open>2 * n + 2\<close> disk writes. If the machine stops after any number of them, and
recovery itself is stopped any number of times after any of its own writes, the next recovery
returns, and outside the log area the disk is what it was before the commit if the header had not
been written, and holds every block of the transaction if it had.\<close>

theorem commit_is_atomic_across_crashes:
  assumes "log_ready s" and "sb_logstart su = l_start (klog s)"
  shows "\<exists>s' w. commit s = Ok () s' \<and> disk_writes s' = rev w @ disk_writes s \<and> length w = 2 * nlogged s + 2 \<and>
    (\<forall>k\<le>length w. crashed s su (nlogged s < k) (apply_writes (take k w) (disk s))) \<and>
    (\<forall>c s0. crashed s su c (disk s0) \<longrightarrow> rebooted s0 \<longrightarrow>
       (\<exists>t. initlog ROOTDEV su s0 = Ok () t \<and>
          (\<forall>x. x \<notin> set (log_area (klog s)) \<longrightarrow> disk t x = (if c then content s x else disk s x))))"
proof -
  obtain s' where s': "commit s = Ok () s'" "disk_writes s' = rev (journal s) @ disk_writes s"
    using commit_spec [OF assms(1)] by blast
  have "\<exists>t. initlog ROOTDEV su s0 = Ok () t \<and>
      (\<forall>x. x \<notin> set (log_area (klog s)) \<longrightarrow> disk t x = (if c then content s x else disk s x))"
    if "crashed s su c (disk s0)" "rebooted s0" for c s0
    using recoverable_recovers [OF assms(1) that(2) assms(2) crashed_recoverable [OF assms that(1)]]
    by (auto simp: at_rest_def)
  then show ?thesis
    using s' crashed.in_commit [OF s'] by (intro exI [of _ s'] exI [of _ "journal s"]) (simp add: length_writes)
qed

theorem commit_is_atomic_across_crashes_witness:
  "\<exists>s' w t. commit committing = Ok () s' \<and> disk_writes s' = rev w \<and> length w = 4 \<and>
     initlog ROOTDEV (superblock0\<lparr>sb_logstart := 2\<rparr>)
       (booted\<lparr>disk := apply_writes (take 2 w) (disk booted)\<rparr>) = Ok () t \<and> disk t 50 = replicate BSIZE 1"
proof -
  let ?su = "superblock0\<lparr>sb_logstart := 2\<rparr>"
  have su: "sb_logstart ?su = l_start (klog committing)" by (simp add: committing_def)
  have n: "nlogged committing = 1" by (simp add: committing_def)
  have d: "disk committing = disk booted" "disk_writes committing = []"
    by (simp_all add: committing_def booted_disk)
  have area: "50 \<notin> set (log_area (klog committing))"
    by (simp add: committing_def log_area_def log_block_def)
  obtain s' w where sw: "commit committing = Ok () s'" "disk_writes s' = rev w" "length w = 4"
      "\<forall>k\<le>length w. crashed committing ?su (1 < k) (apply_writes (take k w) (disk booted))"
      "\<forall>c s0. crashed committing ?su c (disk s0) \<longrightarrow> rebooted s0 \<longrightarrow> (\<exists>t. initlog ROOTDEV ?su s0 = Ok () t \<and>
         (\<forall>x. x \<notin> set (log_area (klog committing)) \<longrightarrow> disk t x = (if c then content committing x else disk committing x)))"
    using commit_is_atomic_across_crashes [OF committing_ready su] unfolding n d by auto
  let ?s0 = "booted\<lparr>disk := apply_writes (take 2 w) (disk booted)\<rparr>"
  have c: "crashed committing ?su True (disk ?s0)" using sw(3,4) by (auto dest: spec [of _ 2])
  have "length (apply_writes (take 2 w) (disk booted) b) = BSIZE" for b
    using journal_length [OF committing_ready, of 2] commit_spec [OF committing_ready] sw(1,2) d by auto
  then have rb: "rebooted ?s0" by (rule booted_rebooted)
  obtain t where "initlog ROOTDEV ?su ?s0 = Ok () t" "disk t 50 = content committing 50"
    using sw(5) [rule_format, OF c rb] area by auto
  then show ?thesis using sw(1-3) committing_content by auto
qed

end
