(* ===== verification/Xv6_Trans.thy ===== *)
theory Xv6_Trans
  imports Xv6_Crash
begin

text \<open>
  Blocks inside a transaction. The file system of Xv6_Fs never sees the disk: between begin_op and
  end_op it works on the current contents of blocks, through bread, log_write and brelse. This
  theory states what these operations do to the contents, as rules the proofs about fs.c use.
\<close>

section \<open>The state between begin_op and end_op\<close>

definition logged_blocks :: "kstate \<Rightarrow> u32 set" where
  "logged_blocks s = set (take (nat (lh_n (l_lh (klog s)))) (lh_block (l_lh (klog s))))"

definition log_ok :: "log \<Rightarrow> bool" where
  "log_ok l \<longleftrightarrow> 0 \<le> lh_n (l_lh l) \<and> lh_n (l_lh l) \<le> int LOGBLOCKS \<and> length (lh_block (l_lh l)) = LOGBLOCKS \<and>
     distinct (take (nat (lh_n (l_lh l))) (lh_block (l_lh l)))"

definition pin_count :: "kstate \<Rightarrow> nat \<Rightarrow> u32" where
  "pin_count s i = (if b_dev (bufs s ! i) = ROOTDEV \<and> b_blockno (bufs s ! i) \<in> logged_blocks s then 1 else 0)"

text \<open>
  \<open>H\<close> maps the buffers the process holds to their blocks; those in \<open>D\<close> it has changed and not yet
  logged. A buffer is referenced once by its holder and once by the log.
\<close>

definition tx :: "(nat \<rightharpoonup> u32) \<Rightarrow> nat set \<Rightarrow> kstate \<Rightarrow> bool" where
  "tx H D s \<longleftrightarrow> binv s \<and> locked (dom H) s \<and> D \<subseteq> dom H \<and> log_ok (klog s) \<and>
     (\<forall>b blk. H b = Some blk \<longrightarrow> cached s blk b \<and> b_valid (bufs s ! b)) \<and>
     (\<forall>i<NBUF. b_refcnt (bufs s ! i) = (if i \<in> dom H then 1 else 0) + pin_count s i) \<and>
     (\<forall>blk\<in>logged_blocks s. \<exists>i. cached s blk i \<and> b_valid (bufs s ! i)) \<and>
     (\<forall>b blk. H b = Some blk \<longrightarrow> b \<notin> D \<longrightarrow> b_data (bufs s ! b) = disk s blk \<or> blk \<in> logged_blocks s)"

text \<open>What the operations leave unchanged.\<close>

definition tx_frame :: "kstate \<Rightarrow> kstate \<Rightarrow> bool" where
  "tx_frame s s' \<longleftrightarrow> s' = s\<lparr>bufs := bufs s', procs := procs s', klog := klog s'\<rparr> \<and>
     klog s' = (klog s)\<lparr>l_lh := l_lh (klog s')\<rparr>"

lemma tx_frame_refl [simp]: "tx_frame s s"
  by (simp add: tx_frame_def)

lemma tx_frame_trans: "tx_frame s t \<Longrightarrow> tx_frame t u \<Longrightarrow> tx_frame s u"
proof -
  have "a = c\<lparr>l_lh := l_lh a\<rparr>" if "b = c\<lparr>l_lh := l_lh b\<rparr>" "a = b\<lparr>l_lh := l_lh a\<rparr>" for a b c :: log
    using that by (cases a; cases b; cases c) simp
  moreover assume "tx_frame s t" "tx_frame t u"
  moreover from this have "u = s\<lparr>bufs := bufs u, procs := procs u, klog := klog u\<rparr>"
    unfolding tx_frame_def by (cases s; cases t; cases u) simp
  ultimately show "tx_frame s u" unfolding tx_frame_def by blast
qed

lemma tx_frameD:
  assumes "tx_frame s s'"
  shows "disk s' = disk s" "sb s' = sb s" "itable s' = itable s" "cur s' = cur s" "mem s' = mem s"
    "disk_writes s' = disk_writes s" "ticks s' = ticks s" "ftable s' = ftable s" "freelist s' = freelist s"
    "console_out s' = console_out s" "pipes s' = pipes s" "cons s' = cons s"
  using assms unfolding tx_frame_def by (cases s; cases s'; simp)+

lemma tx_binv: "tx H D s \<Longrightarrow> binv s"
  and tx_locked: "tx H D s \<Longrightarrow> locked (dom H) s"
  and tx_log: "tx H D s \<Longrightarrow> log_ok (klog s)"
  and tx_held: "tx H D s \<Longrightarrow> H b = Some blk \<Longrightarrow> cached s blk b \<and> b_valid (bufs s ! b)"
  and tx_refcnt: "tx H D s \<Longrightarrow> i < NBUF \<Longrightarrow> b_refcnt (bufs s ! i) = (if i \<in> dom H then 1 else 0) + pin_count s i"
  and tx_logged: "tx H D s \<Longrightarrow> blk \<in> logged_blocks s \<Longrightarrow> \<exists>i. cached s blk i \<and> b_valid (bufs s ! i)"
  and tx_clean: "tx H D s \<Longrightarrow> H b = Some blk \<Longrightarrow> b \<notin> D \<Longrightarrow> b_data (bufs s ! b) = disk s blk \<or> blk \<in> logged_blocks s"
  by (simp_all add: tx_def)

lemma tx_held_content: "tx H D s \<Longrightarrow> H b = Some blk \<Longrightarrow> content s blk = b_data (bufs s ! b)"
  using content_cached [OF tx_binv] tx_held by metis

lemma tx_dom: "tx H D s \<Longrightarrow> dom H \<subseteq> {..<NBUF}"
  using tx_held cached_lt by fastforce

lemma tx_content_length: "tx H D s \<Longrightarrow> length (content s blk) = BSIZE"
  using tx_binv [of H D s]
  by (auto simp: content_def binv_def dest!: find_upt_Some split: option.splits)

lemma pin_count_cached: "i < NBUF \<Longrightarrow> cached s blk i \<Longrightarrow> pin_count s i = (if blk \<in> logged_blocks s then 1 else 0)"
  by (simp add: pin_count_def cached_def)

lemma card_logged:
  assumes "log_ok (klog s)"
  shows "card (logged_blocks s) = nat (lh_n (l_lh (klog s)))"
proof -
  have "nat (lh_n (l_lh (klog s))) \<le> LOGBLOCKS" using assms by (auto simp: log_ok_def)
  then show ?thesis using assms by (simp add: logged_blocks_def log_ok_def distinct_card)
qed

text \<open>While the log and the holder use fewer than NBUF buffers, one is free.\<close>

lemma tx_room:
  assumes t: "tx H D s" and n: "card (dom H) + card (logged_blocks s) < NBUF"
  shows "\<exists>i<NBUF. b_refcnt (bufs s ! i) = 0"
proof (rule ccontr)
  assume "\<not> ?thesis"
  then have nz: "\<And>i. i < NBUF \<Longrightarrow> i \<notin> dom H \<Longrightarrow> \<exists>blk\<in>logged_blocks s. cached s blk i"
    using tx_refcnt [OF t] by (auto simp: pin_count_def cached_def split: if_splits)
  let ?blk = "\<lambda>i. b_blockno (bufs s ! i)"
  let ?R = "{..<NBUF} - dom H"
  have c: "cached s (?blk i) i \<and> ?blk i \<in> logged_blocks s" if "i \<in> ?R" for i using nz [of i] that by (auto simp: cached_def)
  have "inj_on ?blk ?R"
  proof (rule inj_onI)
    fix i j assume "i \<in> ?R" "j \<in> ?R" "?blk i = ?blk j"
    then show "i = j" using binv_unique [OF tx_binv [OF t], of "?blk i" i j] c [of i] c [of j] by simp
  qed
  moreover have "?blk ` ?R \<subseteq> logged_blocks s" using c by auto
  moreover have "finite (logged_blocks s)" by (simp add: logged_blocks_def)
  ultimately have "card ?R \<le> card (logged_blocks s)" using card_inj_on_le by blast
  moreover have fin: "finite (dom H)" using tx_dom [OF t] finite_subset by blast
  have "card ?R = NBUF - card (dom H)" using card_Diff_subset [OF fin tx_dom [OF t]] by simp
  ultimately show False using n by simp
qed

lemma tx_small: "tx H D s \<Longrightarrow> i < NBUF \<Longrightarrow> b_refcnt (bufs s ! i) \<noteq> - 1"
  using tx_refcnt [of H D s i] by (auto simp: pin_count_def split: if_splits)

section \<open>bread\<close>

text \<open>Fetching a block changes the contents of no block: what it evicts agrees with the disk.\<close>

lemma content_fetched:
  assumes inv: "binv s" and b: "b < NBUF" and s': "s' = s\<lparr>bufs := (bufs s)[b := fetched s blk b]\<rparr>" "binv s'"
    and f: "cached s blk b \<or> b_refcnt (bufs s ! b) = 0"
  shows "content s' x = content s x"
proof -
  have len: "length (bufs s) = NBUF + 1" using inv by (rule binv_len)
  note cu = cached_update [OF len b, where K = "fetched s blk b", folded s'(1)]
  have new: "cached s' blk b" "b_valid (bufs s' ! b)" "b_data (bufs s' ! b) = content s blk"
    using len b s'(1) unfolding cu by (simp_all add: fetched_def)
  show ?thesis
  proof (cases "x = blk")
    case True
    then show ?thesis using content_cached [OF s'(2) new(1,2)] new(3) by simp
  next
    case x: False
    have c: "cached s' x i \<longleftrightarrow> cached s x i \<and> i \<noteq> b" for i
      using x f unfolding cu by (auto simp: fetched_def)
    have same: "bufs s' ! i = bufs s ! i" if "i \<noteq> b" for i using that s'(1) by simp
    show ?thesis
    proof (cases "\<exists>i. cached s x i \<and> b_valid (bufs s ! i)")
      case True
      then obtain i where i: "cached s x i" "b_valid (bufs s ! i)" by blast
      show ?thesis
      proof (cases "i = b")
        case False
        then show ?thesis using content_cached [OF inv i] content_cached [OF s'(2), of x i] i c same by simp
      next
        case True
        then have "b_refcnt (bufs s ! b) = 0" using f i(1) x by (auto simp: cached_def)
        then have "content s x = disk s x" using content_cached [OF inv i] binv_coherent [OF inv i] True by simp
        moreover have "content s' x = disk s' x"
          using c True binv_unique [OF inv i(1)] by (intro content_uncached) metis
        ultimately show ?thesis using s'(1) by simp
      qed
    next
      case False
      then have "content s x = disk s x" by (auto intro: content_uncached)
      moreover have "content s' x = disk s' x"
        using c same False by (intro content_uncached) metis
      ultimately show ?thesis using s'(1) by simp
    qed
  qed
qed

lemma tx_bread:
  assumes t: "tx H D s" and blk: "blk \<notin> ran H" and n: "card (dom H) + card (logged_blocks s) < NBUF"
  shows "\<exists>b s'. bread ROOTDEV blk s = Ok b s' \<and> b \<notin> dom H \<and> tx (H(b \<mapsto> blk)) D s' \<and>
    content s' = content s \<and> klog s' = klog s \<and> tx_frame s s'"
proof -
  note inv = tx_binv [OF t]
  have free: "i \<notin> dom H" if "cached s blk i" for i
    using that blk tx_held [OF t, of i] by (auto simp: cached_def ran_def)
  obtain b where b: "bread ROOTDEV blk s = Ok b (s\<lparr>bufs := (bufs s)[b := fetched s blk b]\<rparr>)" "b < NBUF" "b \<notin> dom H"
      "cached s blk b \<or> (\<forall>i. \<not> cached s blk i) \<and> b_refcnt (bufs s ! b) = 0"
      "binv (s\<lparr>bufs := (bufs s)[b := fetched s blk b]\<rparr>)"
      "locked (insert b (dom H)) (s\<lparr>bufs := (bufs s)[b := fetched s blk b]\<rparr>)"
    using bread_spec [OF inv tx_locked [OF t] free disjI2 [OF tx_room [OF t n]] tx_small [OF t]] by blast
  define s' where "s' = s\<lparr>bufs := (bufs s)[b := fetched s blk b]\<rparr>"
  have len: "length (bufs s) = NBUF + 1" using inv by (rule binv_len)
  have c: "content s' = content s"
    using content_fetched [OF inv b(2) s'_def b(5) [folded s'_def]] b(4) by blast
  have lb: "logged_blocks s' = logged_blocks s" by (simp add: s'_def logged_blocks_def)
  have same: "bufs s' ! i = bufs s ! i" if "i \<noteq> b" for i using that by (simp add: s'_def)
  have new: "bufs s' ! b = fetched s blk b" using len b(2) by (simp add: s'_def)
  have cs: "cached s' x i \<longleftrightarrow> cached s x i" if "i \<noteq> b" for x i using same [OF that] by (simp add: cached_def)
  have notlogged: "b_refcnt (bufs s ! b) = 0" "blk \<notin> logged_blocks s" if "\<not> cached s blk b"
    using that b(4) tx_logged [OF t] by blast+
  have r: "b_refcnt (bufs s' ! i) = (if i \<in> dom (H(b \<mapsto> blk)) then 1 else 0) + pin_count s' i" if "i < NBUF" for i
  proof (cases "i = b")
    case True
    have "b_refcnt (bufs s ! b) = (if blk \<in> logged_blocks s then 1 else 0)"
    proof (cases "cached s blk b")
      case True
      then show ?thesis using tx_refcnt [OF t b(2)] b(3) pin_count_cached [OF b(2)] by simp
    qed (use notlogged in simp)
    then show ?thesis using True new lb by (simp add: fetched_def pin_count_def)
  next
    case False
    then show ?thesis using tx_refcnt [OF t that] same [OF False] lb by (simp add: pin_count_def)
  qed
  have held: "cached s' y i \<and> b_valid (bufs s' ! i)" if "(H(b \<mapsto> blk)) i = Some y" for i y
    using that new b(2) tx_held [OF t, of i y] cs [of i y] same [of i]
    by (cases "i = b") (auto simp: cached_def fetched_def)
  have logged: "\<exists>i. cached s' y i \<and> b_valid (bufs s' ! i)" if y: "y \<in> logged_blocks s'" for y
  proof -
    obtain i where i: "cached s y i" "b_valid (bufs s ! i)" using tx_logged [OF t] y lb by auto
    show ?thesis
    proof (cases "i = b")
      case True
      have "pin_count s b = 1" using pin_count_cached [OF b(2)] i(1) True y lb by simp
      then have "cached s blk b" using notlogged tx_refcnt [OF t b(2)] b(3) by auto
      then have "y = blk" using i(1) True by (auto simp: cached_def)
      then show ?thesis using new b(2) by (auto simp: cached_def fetched_def intro!: exI [of _ b])
    next
      case False
      then show ?thesis using i cs same by (intro exI [of _ i]) simp
    qed
  qed
  have clean: "b_data (bufs s' ! i) = disk s' y \<or> y \<in> logged_blocks s'"
    if "(H(b \<mapsto> blk)) i = Some y" "i \<notin> D" for i y
  proof (cases "i = b")
    case True
    show ?thesis
    proof (cases "blk \<in> logged_blocks s")
      case False
      have "b_refcnt (bufs s ! j) = 0" if "cached s blk j" for j
        using tx_refcnt [OF t cached_lt [OF that]] free [OF that] pin_count_cached [OF cached_lt [OF that] that] False by simp
      then have "content s blk = disk s blk" by (rule content_disk [OF inv])
      then show ?thesis using True that new by (simp add: fetched_def s'_def)
    qed (use True that lb in simp)
  next
    case False
    then show ?thesis using tx_clean [OF t, of i y] that same lb by (simp add: s'_def)
  qed
  have "tx (H(b \<mapsto> blk)) D s'"
    unfolding tx_def
  proof (intro conjI allI impI ballI)
    show "locked (dom (H(b \<mapsto> blk))) s'" using b(6) [folded s'_def] by simp
    show "D \<subseteq> dom (H(b \<mapsto> blk))" "log_ok (klog s')" using t by (auto simp: tx_def s'_def)
  qed (fact b(5) [folded s'_def] | use r held logged clean in blast)+
  moreover have "klog s' = klog s" "tx_frame s s'" by (simp_all add: s'_def tx_frame_def)
  ultimately show ?thesis using b(1,3) c s'_def by blast
qed


section \<open>Held buffers\<close>

lemma tx_holds:
  "tx H D s \<Longrightarrow> H b = Some blk \<Longrightarrow> holds s b blk (content s blk) (1 + (if blk \<in> logged_blocks s then 1 else 0))"
  using tx_held [of H D s b blk] tx_refcnt [of H D s b] tx_held_content [of H D s b blk]
    pin_count_cached [of b s blk] cached_lt [of s blk b]
  by (auto simp: holds_def cached_def)

lemma tx_buf_data: "tx H D s \<Longrightarrow> H b = Some blk \<Longrightarrow> buf_data b s = Ok (content s blk) s"
  by (simp add: tx_held_content)

lemma content_change:
  assumes inv: "binv s" "binv s'" and same: "\<And>i. i \<noteq> b \<Longrightarrow> core (bufs s' ! i) = core (bufs s ! i)" and d: "disk s' = disk s"
    and blk: "cached s blk b" "cached s' blk b" "b_valid (bufs s' ! b)"
  shows "content s' = (content s)(blk := b_data (bufs s' ! b))"
proof
  fix x
  show "content s' x = ((content s)(blk := b_data (bufs s' ! b))) x"
  proof (cases "x = blk")
    case True
    then show ?thesis using content_cached [OF inv(2) blk(2,3)] by simp
  next
    case False
    have nb: "\<not> cached s x b" "\<not> cached s' x b" using False blk(1,2) by (auto simp: cached_def)
    have c: "cached s' x i \<longleftrightarrow> cached s x i" for i
      using nb core_eqD(2,3) [OF same, of i] by (cases "i = b") (auto simp: cached_def)
    show ?thesis
    proof (cases "\<exists>i. cached s x i \<and> b_valid (bufs s ! i)")
      case True
      then obtain i where i: "cached s x i" "b_valid (bufs s ! i)" by blast
      then have "i \<noteq> b" using nb by auto
      note e = core_eqD [OF same [OF this]]
      show ?thesis
        using content_cached [OF inv(1) i] content_cached [OF inv(2), of x i] i e c False by simp
    next
      case none: False
      have "\<not> b_valid (bufs s' ! i)" if "cached s' x i" for i
      proof -
        have "i \<noteq> b" "cached s x i" using that c nb by auto
        then show ?thesis using none core_eqD(1) [OF same] by metis
      qed
      then have "content s' x = disk s' x" by (rule content_uncached)
      moreover have "content s x = disk s x" using none by (auto intro: content_uncached)
      ultimately show ?thesis using d False by simp
    qed
  qed
qed

text \<open>A held buffer is changed in place: its block has new contents, which are not logged yet.\<close>

lemma tx_set_buf_data:
  assumes t: "tx H D s" and b: "H b = Some blk" and len: "length (f (content s blk)) = BSIZE"
  shows "\<exists>s'. set_buf_data b f s = Ok () s' \<and> tx H (insert b D) s' \<and>
    content s' = (content s)(blk := f (content s blk)) \<and> klog s' = klog s \<and> tx_frame s s'"
proof -
  note h = tx_holds [OF t b] and inv = tx_binv [OF t]
  define s' where "s' = s\<lparr>bufs := (bufs s)[b := (bufs s ! b)\<lparr>b_data := f (content s blk)\<rparr>]\<rparr>"
  have bd: "b \<in> dom H" using b by auto
  have s': "set_buf_data b f s = Ok () s'" "binv s'" "locked (dom H) s'"
    using set_buf_data_spec(1,2,3) [where f = f, OF inv tx_locked [OF t] bd h] len by (simp_all add: s'_def)
  have L: "length (bufs s) = NBUF + 1" "b < NBUF" using binv_len [OF inv] tx_dom [OF t] bd by auto
  have e: "b_dev (bufs s' ! i) = b_dev (bufs s ! i)" "b_blockno (bufs s' ! i) = b_blockno (bufs s ! i)"
    "b_valid (bufs s' ! i) = b_valid (bufs s ! i)" "b_refcnt (bufs s' ! i) = b_refcnt (bufs s ! i)" for i
    using L by (cases "i = b"; simp add: s'_def)+
  have same: "bufs s' ! i = bufs s ! i" if "i \<noteq> b" for i using that by (simp add: s'_def)
  have lb: "logged_blocks s' = logged_blocks s" "klog s' = klog s" by (simp_all add: s'_def logged_blocks_def)
  have c: "cached s' x i \<longleftrightarrow> cached s x i" for x i by (simp add: cached_def e)
  have pc: "pin_count s' i = pin_count s i" for i by (simp add: pin_count_def e lb)
  have "tx H (insert b D) s'"
    unfolding tx_def c e pc lb
  proof (intro conjI allI impI ballI)
    show "insert b D \<subseteq> dom H" "log_ok (klog s)" using t b by (auto simp: tx_def)
    fix i x assume "H i = Some x" "i \<notin> insert b D"
    then show "b_data (bufs s' ! i) = disk s' x \<or> x \<in> logged_blocks s"
      using tx_clean [OF t, of i x] same [of i] by (simp add: s'_def)
  qed (use s'(2,3) t in \<open>auto simp: tx_def\<close>)
  moreover have "content s' = (content s)(blk := f (content s blk))"
  proof -
    have "b_data (bufs s' ! b) = f (content s blk)" using L by (simp add: s'_def)
    then show ?thesis
      using content_change [OF inv s'(2), of b blk] same tx_held [OF t b] c e by (simp add: s'_def)
  qed
  ultimately show ?thesis using s'(1) lb(2) by (auto simp: tx_frame_def s'_def intro!: exI [of _ s'])
qed

text \<open>A held buffer is released.\<close>

lemma tx_brelse:
  assumes t: "tx H D s" and b: "H b = Some blk" and clean: "b \<notin> D"
  shows "\<exists>s'. brelse b s = Ok () s' \<and> tx (H(b := None)) D s' \<and> content s' = content s \<and>
    klog s' = klog s \<and> tx_frame s s'"
proof -
  note h = tx_holds [OF t b] and inv = tx_binv [OF t]
  have bd: "b \<in> dom H" using b by auto
  have cl: "content s blk = disk s blk" if "1 + (if blk \<in> logged_blocks s then 1 else 0) = (1 :: u32)"
    using that tx_clean [OF t b clean] tx_held_content [OF t b] by (simp split: if_splits)
  obtain s' where s': "brelse b s = Ok () s'" "s' = s\<lparr>procs := procs s', bufs := bufs s'\<rparr>" "binv s'"
      "locked (dom H - {b}) s'" "holds s' b blk (content s blk) (1 + (if blk \<in> logged_blocks s then 1 else 0) - 1)"
      "\<forall>i. i \<noteq> b \<longrightarrow> core (bufs s' ! i) = core (bufs s ! i)"
    using brelse_held [OF inv tx_locked [OF t] bd h cl] by blast
  have k: "klog s' = klog s" "disk s' = disk s"
    using arg_cong [OF s'(2), of klog] arg_cong [OF s'(2), of disk] by simp_all
  have lb: "logged_blocks s' = logged_blocks s" by (simp add: logged_blocks_def k)
  note hd = h [unfolded holds_def] and hd' = s'(5) [unfolded holds_def]
  have e: "b_dev (bufs s' ! i) = b_dev (bufs s ! i)" "b_blockno (bufs s' ! i) = b_blockno (bufs s ! i)"
    "b_valid (bufs s' ! i) = b_valid (bufs s ! i)" "b_data (bufs s' ! i) = b_data (bufs s ! i)" for i
    using hd hd' core_eqD [OF s'(6) [rule_format], of i] by (cases "i = b"; simp)+
  have c: "cached s' x i \<longleftrightarrow> cached s x i" for x i by (simp add: cached_def e)
  have pc: "pin_count s' i = pin_count s i" for i by (simp add: pin_count_def e lb)
  have r: "b_refcnt (bufs s' ! i) = (if i \<in> dom (H(b := None)) then 1 else 0) + pin_count s i" if "i < NBUF" for i
  proof (cases "i = b")
    case True
    then show ?thesis using hd' pin_count_cached [OF that, of s blk] tx_held [OF t b] by simp
  next
    case False
    then show ?thesis using core_eqD(5) [OF s'(6) [rule_format, OF False]] tx_refcnt [OF t that] by simp
  qed
  have "tx (H(b := None)) D s'"
    unfolding tx_def c e(3,4) pc lb k
  proof (intro conjI allI impI ballI)
    show "locked (dom (H(b := None))) s'" using s'(4) by simp
    show "D \<subseteq> dom (H(b := None))" using t clean by (auto simp: tx_def)
  qed (use s'(3) r t in \<open>auto simp: tx_def split: if_splits\<close>)
  moreover have "content s' = content s"
    using content_change [OF inv s'(3), of b blk] s'(6) tx_held [OF t b] c e k tx_held_content [OF t b] by auto
  moreover have "tx_frame s s'" unfolding tx_frame_def using s'(2) k by (cases s; cases s') simp
  ultimately show ?thesis using s'(1) k by blast
qed


section \<open>log_write\<close>

lemma log_index_from:
  assumes "i + n \<le> length bs"
  shows "(blk \<notin> set (take n (drop i bs)) \<longrightarrow> log_index bs blk i n = i + n) \<and>
    (blk \<in> set (take n (drop i bs)) \<longrightarrow> log_index bs blk i n < i + n \<and> bs ! log_index bs blk i n = blk)"
  using assms
proof (induction n arbitrary: i)
  case (Suc n)
  have "take (Suc n) (drop i bs) = bs ! i # take n (drop (Suc i) bs)"
    using Suc.prems by (subst Cons_nth_drop_Suc [symmetric]) simp_all
  then show ?case using Suc.IH [of "Suc i"] Suc.prems by auto
qed simp

lemma log_index_spec:
  assumes "n \<le> length bs"
  shows "blk \<notin> set (take n bs) \<Longrightarrow> log_index bs blk 0 n = n"
    "blk \<in> set (take n bs) \<Longrightarrow> log_index bs blk 0 n < n \<and> bs ! log_index bs blk 0 n = blk"
  using log_index_from [of 0 n bs blk] assms by simp_all

text \<open>A block that is logged already is absorbed: nothing changes.\<close>

lemma tx_log_write_absorb:
  assumes t: "tx H D s" and b: "H b = Some blk" and l: "blk \<in> logged_blocks s" and n: "lh_n (l_lh (klog s)) < int LOGBLOCKS"
    and o: "1 \<le> l_outstanding (klog s)"
  shows "log_write b s = Ok () s"
proof -
  let ?l = "klog s"
  let ?n = "nat (lh_n (l_lh ?l))"
  have lo: "?n \<le> length (lh_block (l_lh ?l))" using tx_log [OF t] by (auto simp: log_ok_def)
  have bk: "b_blockno (bufs s ! b) = blk" using tx_held [OF t b] by (simp add: cached_def)
  have i: "log_index (lh_block (l_lh ?l)) blk 0 ?n < ?n"
    "lh_block (l_lh ?l) ! log_index (lh_block (l_lh ?l)) blk 0 ?n = blk"
    using log_index_spec(2) [OF lo, of blk] l by (simp_all add: logged_blocks_def)
  have "(lh_block (l_lh ?l))[log_index (lh_block (l_lh ?l)) blk 0 ?n := blk] = lh_block (l_lh ?l)"
    using i(2) list_update_id by metis
  then have "upd_log (\<lambda>l. l\<lparr>l_lh := (l_lh l)\<lparr>lh_block := (lh_block (l_lh l))
      [log_index (lh_block (l_lh ?l)) blk 0 ?n := blk]\<rparr>\<rparr>) s = s"
    by (cases s) simp
  then show ?thesis
    using o i(1) n by (simp add: log_write_def get_log_def get_buf_def bk Let_def)
qed

lemma tx_log_write:
  assumes t: "tx H D s" and b: "H b = Some blk" and n: "card (insert blk (logged_blocks s)) < LOGBLOCKS"
    and o: "1 \<le> l_outstanding (klog s)"
  shows "\<exists>s'. log_write b s = Ok () s' \<and> tx H (D - {b}) s' \<and> content s' = content s \<and>
    logged_blocks s' = insert blk (logged_blocks s) \<and> tx_frame s s'"
proof (cases "blk \<in> logged_blocks s")
  case True
  have "log_write b s = Ok () s"
    using tx_log_write_absorb [OF t b True _ o] n card_logged [OF tx_log [OF t]] True
      tx_log [OF t] by (simp add: insert_absorb log_ok_def)
  moreover have "tx H (D - {b}) s" using t True b unfolding tx_def by auto
  ultimately show ?thesis using True by (auto simp: insert_absorb)
next
  case False
  let ?l = "klog s"
  let ?n = "nat (lh_n (l_lh ?l))"
  let ?l' = "?l\<lparr>l_lh := \<lparr>lh_n = lh_n (l_lh ?l) + 1, lh_block = (lh_block (l_lh ?l))[?n := blk]\<rparr>\<rparr>"
  have lo: "?n \<le> length (lh_block (l_lh ?l))" "1 \<le> l_outstanding ?l" "length (lh_block (l_lh ?l)) = LOGBLOCKS"
      "0 \<le> lh_n (l_lh ?l)" "distinct (take ?n (lh_block (l_lh ?l)))"
    using tx_log [OF t] o by (auto simp: log_ok_def)
  have fin: "finite (logged_blocks s)" by (simp add: logged_blocks_def)
  have nl: "Suc ?n < LOGBLOCKS" using n card_logged [OF tx_log [OF t]] False fin by simp
  have n': "lh_n (l_lh ?l) < int LOGBLOCKS" using nl lo(4) by linarith
  have bk: "b_blockno (bufs s ! b) = blk" "b < NBUF" "b_dev (bufs s ! b) = ROOTDEV" using tx_held [OF t b] by (simp_all add: cached_def)
  have L: "length (bufs s) = NBUF + 1" using binv_len [OF tx_binv [OF t]] .
  have i: "log_index (lh_block (l_lh ?l)) blk 0 ?n = ?n"
    using log_index_spec(1) [OF lo(1), of blk] False by (simp add: logged_blocks_def)
  define s' where "s' = s\<lparr>bufs := (bufs s)[b := (bufs s ! b)\<lparr>b_refcnt := b_refcnt (bufs s ! b) + 1\<rparr>], klog := ?l'\<rparr>"
  have "upd_log (\<lambda>l. l\<lparr>l_lh := (l_lh l)\<lparr>lh_n := lh_n (l_lh ?l) + 1\<rparr>\<rparr>)
      (upd_buf b (\<lambda>k. k\<lparr>b_refcnt := b_refcnt k + 1\<rparr>)
        (upd_log (\<lambda>l. l\<lparr>l_lh := (l_lh l)\<lparr>lh_block := (lh_block (l_lh l))[?n := blk]\<rparr>\<rparr>) s)) = s'"
    unfolding s'_def upd_buf_eq by (cases s) simp
  then have run: "log_write b s = Ok () s'"
    using lo(2) n' by (simp add: log_write_def get_log_def get_buf_def bk i Let_def bpin_def set_buf_def set_lh_n_def)
  have tk: "take (nat (lh_n (l_lh ?l'))) (lh_block (l_lh ?l')) = take ?n (lh_block (l_lh ?l)) @ [blk]"
  proof -
    have "nat (lh_n (l_lh ?l) + 1) = Suc ?n" using lo(4) by linarith
    then show ?thesis using nl lo(3) by (simp add: take_Suc_conv_app_nth)
  qed
  have lb: "logged_blocks s' = insert blk (logged_blocks s)"
    using tk by (simp add: logged_blocks_def s'_def)
  have lok: "log_ok (klog s')"
    using tk nl lo False by (simp add: log_ok_def s'_def logged_blocks_def)
  have e: "b_dev (bufs s' ! i) = b_dev (bufs s ! i)" "b_blockno (bufs s' ! i) = b_blockno (bufs s ! i)"
    "b_valid (bufs s' ! i) = b_valid (bufs s ! i)" "b_data (bufs s' ! i) = b_data (bufs s ! i)"
    "b_lock (bufs s' ! i) = b_lock (bufs s ! i)" for i
    using L bk(2) by (cases "i = b"; simp add: s'_def)+
  have c: "cached s' x i \<longleftrightarrow> cached s x i" for x i by (simp add: cached_def e)
  have r: "b_refcnt (bufs s' ! i) = (if i \<in> dom H then 1 else 0) + pin_count s' i" if "i < NBUF" for i
  proof (cases "i = b")
    case True
    then show ?thesis using tx_refcnt [OF t that] bk L False b lb by (simp add: pin_count_def s'_def)
  next
    case ib: False
    have "\<not> (b_dev (bufs s ! i) = ROOTDEV \<and> b_blockno (bufs s ! i) = blk)"
      using binv_unique [OF tx_binv [OF t], of blk i b] tx_held [OF t b] ib that by (auto simp: cached_def)
    then show ?thesis using tx_refcnt [OF t that] ib lb by (auto simp: pin_count_def s'_def)
  qed
  have nz: "b_refcnt (bufs s ! b) + 1 \<noteq> 0" using tx_small [OF t bk(2)] by (metis add.commute add_eq_0_iff)
  have "binv (s\<lparr>bufs := (bufs s)[b := (bufs s ! b)\<lparr>b_refcnt := b_refcnt (bufs s ! b) + 1\<rparr>]\<rparr>)"
  proof (rule binv_update [OF tx_binv [OF t] bk(2)])
    show "i = b" if "cached s (b_blockno ((bufs s ! b)\<lparr>b_refcnt := b_refcnt (bufs s ! b) + 1\<rparr>)) i" for i
      using binv_unique [OF tx_binv [OF t], of blk i b] tx_held [OF t b] that bk by simp
  qed (use bk nz tx_binv [OF t] in \<open>auto simp: binv_def\<close>)
  then have inv': "binv s'" by (simp add: binv_def s'_def cached_def)
  have lk: "locked (dom H) s'"
    using tx_locked [OF t] L bk(2) nz by (auto simp: locked_def s'_def nth_list_update mylock_def)
  have "tx H (D - {b}) s'"
    unfolding tx_def c e lb
  proof (intro conjI allI impI ballI)
    show "D - {b} \<subseteq> dom H" using t by (auto simp: tx_def)
    fix i x assume "H i = Some x" "i \<notin> D - {b}"
    then show "b_data (bufs s ! i) = disk s' x \<or> x \<in> insert blk (logged_blocks s)"
      using tx_clean [OF t, of i x] b by (cases "i = b") (auto simp: s'_def)
  next
    fix x assume "x \<in> insert blk (logged_blocks s)"
    then show "\<exists>i. cached s x i \<and> b_valid (bufs s ! i)" using tx_logged [OF t] tx_held [OF t b] by blast
  qed (use inv' lk lok r tx_held [OF t] in auto)
  moreover have "content s' = content s"
  proof
    fix x
    have d: "disk s' = disk s" by (simp add: s'_def)
    show "content s' x = content s x" unfolding content_def c e d ..
  qed
  moreover have "tx_frame s s'" by (simp add: tx_frame_def s'_def)
  ultimately show ?thesis using run lb by blast
qed


section \<open>Rules for code inside a transaction\<close>

text \<open>
  \<open>inside s0 H D v L s\<close>: the process that was in state \<open>s0\<close> is in state \<open>s\<close>, holds the buffers \<open>H\<close>
  of which those in \<open>D\<close> are changed and not logged; blocks have contents \<open>v\<close>, those in \<open>L\<close>
  are logged, and apart from the cache and the log nothing has changed.
\<close>

definition inside :: "kstate \<Rightarrow> (nat \<rightharpoonup> u32) \<Rightarrow> nat set \<Rightarrow> (u32 \<Rightarrow> block) \<Rightarrow> u32 set \<Rightarrow> kstate \<Rightarrow> bool" where
  "inside s0 H D v L s \<longleftrightarrow> tx H D s \<and> content s = v \<and> logged_blocks s = L \<and> tx_frame s0 s"

lemma inside_tx: "inside s0 H D v L s \<Longrightarrow> tx H D s"
  and inside_content: "inside s0 H D v L s \<Longrightarrow> content s = v"
  and inside_logged: "inside s0 H D v L s \<Longrightarrow> logged_blocks s = L"
  and inside_frame: "inside s0 H D v L s \<Longrightarrow> tx_frame s0 s"
  by (simp_all add: inside_def)

lemma inside_start: "tx H D s \<Longrightarrow> inside s H D (content s) (logged_blocks s) s"
  by (simp add: inside_def)

lemma inside_length: "inside s0 H D v L s \<Longrightarrow> length (v blk) = BSIZE"
  using tx_content_length [of H D s] by (auto simp: inside_def)

lemmas inside_fields = tx_frameD [OF inside_frame]

lemma wp_bind_basic [simp]:
  "wp (kbind (kret a) f) Q s = wp (f a) Q s"
  "wp (kbind (kgets g) f) Q s = wp (f (g s)) Q s"
  "wp (kthen (kret a) m) Q s = wp m Q s"
  "wp (kthen (kmodify h) m) Q s = wp m Q (h s)"
  by (simp_all add: wp_def)

lemma inside_outstanding:
  assumes "inside s0 H D v L s"
  shows "l_outstanding (klog s) = l_outstanding (klog s0)"
proof -
  have e: "klog s = (klog s0)\<lparr>l_lh := l_lh (klog s)\<rparr>" using inside_frame [OF assms] unfolding tx_frame_def by blast
  show ?thesis using arg_cong [OF e, of l_outstanding] by simp
qed

lemma klog_logged: "klog s' = klog s \<Longrightarrow> logged_blocks s' = logged_blocks s"
  by (simp add: logged_blocks_def)

lemma inside_step:
  assumes "inside s0 H D v L s" "tx H' D' s'" "content s' = v'" "logged_blocks s' = L'" "tx_frame s s'"
  shows "inside s0 H' D' v' L' s'"
  using assms tx_frame_trans [of s0 s s'] by (simp add: inside_def)

lemma wp_bread:
  assumes a: "inside s0 H D v L s" and blk: "blk \<notin> ran H" and n: "card (dom H) + card L < NBUF"
    and k: "\<And>b s'. b \<notin> dom H \<Longrightarrow> inside s0 (H(b \<mapsto> blk)) D v L s' \<Longrightarrow> wp (f b) Q s'"
  shows "wp (kbind (bread ROOTDEV blk) f) Q s"
proof -
  obtain b s' where b: "bread ROOTDEV blk s = Ok b s'" "b \<notin> dom H" "tx (H(b \<mapsto> blk)) D s'" "content s' = content s"
      "klog s' = klog s" "tx_frame s s'"
    using tx_bread [OF inside_tx [OF a] blk] n inside_logged [OF a] by auto
  have "inside s0 (H(b \<mapsto> blk)) D v L s'"
    by (rule inside_step [OF a b(3) _ _ b(6)]) (use b(4) klog_logged [OF b(5)] inside_content [OF a] inside_logged [OF a] in simp_all)
  from k [OF b(2) this] show ?thesis using b(1) by (simp add: wp_def kbind_def)
qed

lemma wp_buf_data:
  assumes a: "inside s0 H D v L s" and b: "H b = Some blk" and k: "wp (f (v blk)) Q s"
  shows "wp (kbind (buf_data b) f) Q s"
  using tx_buf_data [OF inside_tx [OF a] b] inside_content [OF a] k by (simp add: wp_def kbind_def)

lemma wp_set_buf_data:
  assumes a: "inside s0 H D v L s" and b: "H b = Some blk" and len: "length (g (v blk)) = BSIZE"
    and k: "\<And>s'. inside s0 H (insert b D) (v(blk := g (v blk))) L s' \<Longrightarrow> wp m Q s'"
  shows "wp (kthen (set_buf_data b g) m) Q s"
proof -
  obtain s' where s': "set_buf_data b g s = Ok () s'" "tx H (insert b D) s'" "content s' = (content s)(blk := g (content s blk))"
      "klog s' = klog s" "tx_frame s s'"
    using tx_set_buf_data [OF inside_tx [OF a] b, of g] len inside_content [OF a] by blast
  have "inside s0 H (insert b D) (v(blk := g (v blk))) L s'"
    by (rule inside_step [OF a s'(2) _ _ s'(5)]) (use s'(3) klog_logged [OF s'(4)] inside_content [OF a] inside_logged [OF a] in simp_all)
  from k [OF this] show ?thesis using s'(1) by (simp add: wp_def kbind_def kthen_def)
qed

lemma wp_log_write:
  assumes a: "inside s0 H D v L s" and o: "1 \<le> l_outstanding (klog s0)" and b: "H b = Some blk"
    and n: "card (insert blk L) < LOGBLOCKS"
    and k: "\<And>s'. inside s0 H (D - {b}) v (insert blk L) s' \<Longrightarrow> wp m Q s'"
  shows "wp (kthen (log_write b) m) Q s"
proof -
  obtain s' where s': "log_write b s = Ok () s'" "tx H (D - {b}) s'" "content s' = content s"
      "logged_blocks s' = insert blk (logged_blocks s)" "tx_frame s s'"
    using tx_log_write [OF inside_tx [OF a] b] n o inside_logged [OF a] inside_outstanding [OF a] by auto
  have "inside s0 H (D - {b}) v (insert blk L) s'"
    by (rule inside_step [OF a s'(2) _ _ s'(5)]) (use s'(3,4) inside_content [OF a] inside_logged [OF a] in simp_all)
  from k [OF this] show ?thesis using s'(1) by (simp add: wp_def kbind_def kthen_def)
qed

lemma wp_brelse_end:
  assumes a: "inside s0 H D v L s" and b: "H b = Some blk" and d: "b \<notin> D"
    and k: "\<And>s'. inside s0 (H(b := None)) D v L s' \<Longrightarrow> Q () s'"
  shows "wp (brelse b) Q s"
proof -
  obtain s' where s': "brelse b s = Ok () s'" "tx (H(b := None)) D s'" "content s' = content s" "klog s' = klog s" "tx_frame s s'"
    using tx_brelse [OF inside_tx [OF a] b d] by blast
  have "inside s0 (H(b := None)) D v L s'"
    by (rule inside_step [OF a s'(2) _ _ s'(5)]) (use s'(3) klog_logged [OF s'(4)] inside_content [OF a] inside_logged [OF a] in simp_all)
  from k [OF this] show ?thesis using s'(1) by (simp add: wp_def)
qed

lemma wp_brelse:
  assumes "inside s0 H D v L s" "H b = Some blk" "b \<notin> D" "\<And>s'. inside s0 (H(b := None)) D v L s' \<Longrightarrow> wp m Q s'"
  shows "wp (kthen (brelse b) m) Q s"
  by (rule wp_then, rule wp_brelse_end [OF assms])

text \<open>A buffer that was opened and closed again leaves the held buffers as they were.\<close>

lemma close_held [simp]: "b \<notin> dom H \<Longrightarrow> (H(b \<mapsto> blk))(b := None) = H"
  by (auto simp: fun_eq_iff)

lemma card_held: "b \<notin> dom H \<Longrightarrow> finite (dom H) \<Longrightarrow> card (dom (H(b \<mapsto> blk))) = Suc (card (dom H))"
  by simp

text \<open>Components outside the cache and the log may change in between.\<close>

lemma tx_other:
  assumes "binv s' = binv s" "locked (dom H) s' = locked (dom H) s" "bufs s' = bufs s" "klog s' = klog s" "disk s' = disk s"
  shows "tx H D s' = tx H D s" "content s' = content s"
proof -
  have c: "cached s' x i = cached s x i" for x i by (simp add: cached_def assms)
  have l: "logged_blocks s' = logged_blocks s" by (simp add: logged_blocks_def assms)
  then have p: "pin_count s' i = pin_count s i" for i by (simp add: pin_count_def assms)
  show "tx H D s' = tx H D s" by (simp add: tx_def c l p assms)
  show "content s' = content s" by (rule ext) (simp only: content_def c assms)
qed

lemma tx_itable [simp]:
  "tx H D (s\<lparr>itable := it\<rparr>) = tx H D s" "content (s\<lparr>itable := it\<rparr>) = content s"
  "logged_blocks (s\<lparr>itable := it\<rparr>) = logged_blocks s"
  by (rule tx_other, simp_all add: binv_def locked_def cached_def mylock_def)+
     (simp add: logged_blocks_def)

lemma tx_console [simp]:
  "tx H D (s\<lparr>console_out := c\<rparr>) = tx H D s" "content (s\<lparr>console_out := c\<rparr>) = content s"
  "logged_blocks (s\<lparr>console_out := c\<rparr>) = logged_blocks s"
  by (rule tx_other, simp_all add: binv_def locked_def cached_def mylock_def)+
     (simp add: logged_blocks_def)

lemma tx_frame_itable: "tx_frame s0 s \<Longrightarrow> tx_frame (s0\<lparr>itable := it\<rparr>) (s\<lparr>itable := it\<rparr>)"
  and tx_frame_console: "tx_frame s0 s \<Longrightarrow> tx_frame (s0\<lparr>console_out := c\<rparr>) (s\<lparr>console_out := c\<rparr>)"
  unfolding tx_frame_def by (cases s0; cases s; simp)+

lemma inside_itable: "inside s0 H D v L s \<Longrightarrow> inside (s0\<lparr>itable := it\<rparr>) H D v L (s\<lparr>itable := it\<rparr>)"
  by (simp add: inside_def tx_frame_itable)

lemma inside_console: "inside s0 H D v L s \<Longrightarrow> inside (s0\<lparr>console_out := c\<rparr>) H D v L (s\<lparr>console_out := c\<rparr>)"
  by (simp add: inside_def tx_frame_console)


section \<open>Starting a transaction\<close>

text \<open>An empty log and a cache nobody uses: the state after begin_op lets a first transaction in.\<close>

lemma tx_start:
  assumes q: "quiet s" "pins s = (\<lambda>_. None)" and l: "log_ok (klog s)" "lh_n (l_lh (klog s)) = 0"
  shows "tx Map.empty {} s"
proof -
  have "logged_blocks s = {}" using l(2) by (simp add: logged_blocks_def)
  then show ?thesis
    using q l(1) no_pins_refcnt [OF q] quiet_binv [OF q(1)] quiet_locked [OF q(1)]
    by (simp add: tx_def pin_count_def)
qed

text \<open>A machine in its first transaction, with the given disk and superblock.\<close>

definition started_tx :: "(u32 \<Rightarrow> block) \<Rightarrow> superblock \<Rightarrow> kstate" where
  "started_tx d sp = booted\<lparr>disk := d, sb := sp, klog := log0\<lparr>l_outstanding := 1\<rparr>\<rparr>"

lemma started_tx:
  assumes "\<And>b. length (d b) = BSIZE"
  shows "tx Map.empty {} (started_tx d sp)" "content (started_tx d sp) = d" "logged_blocks (started_tx d sp) = {}"
    "sb (started_tx d sp) = sp" "l_outstanding (klog (started_tx d sp)) = 1"
proof -
  let ?s = "started_tx d sp"
  have r: "rebooted (booted\<lparr>disk := d\<rparr>)" using assms by (rule booted_rebooted)
  have c: "cached ?s x i \<longleftrightarrow> cached (booted\<lparr>disk := d\<rparr>) x i" for x i by (simp add: cached_def started_tx_def)
  have nc: "\<not> cached ?s x i" for x i using booted_spec(4) [of i] by (auto simp: cached_def started_tx_def)
  have "binv ?s = binv (booted\<lparr>disk := d\<rparr>)" unfolding binv_def c by (simp add: started_tx_def)
  moreover have "locked {} ?s = locked {} (booted\<lparr>disk := d\<rparr>)" by (simp add: locked_def started_tx_def)
  ultimately have q: "quiet ?s" using r by (simp add: rebooted_def quiet_def started_tx_def)
  moreover have "pins ?s = (\<lambda>_. None)" using nc by (auto simp: pins_def pinned_def)
  moreover have "log_ok (klog ?s)" "lh_n (l_lh (klog ?s)) = 0" by (simp_all add: log_ok_def started_tx_def log0_def)
  ultimately show "tx Map.empty {} ?s" by (rule tx_start)
  show "content ?s = d" using content_uncached [of ?s] nc by (intro ext) (simp add: started_tx_def)
  show "logged_blocks ?s = {}" by (simp add: logged_blocks_def started_tx_def log0_def)
  show "sb ?s = sp" "l_outstanding (klog ?s) = 1" by (simp_all add: started_tx_def)
qed

end
