(* ===== verification/Xv6_Fs.thy ===== *)
theory Xv6_Fs
  imports Xv6_Log
begin

text \<open>
  kernel/fs.c: the block allocator, inodes, file contents, directories and path names. An inode
  pointer is an index of the inode table; a null result is \<open>None\<close>. Structures on disk are read
  from and written into blocks at the byte offsets of their fields.
\<close>

section \<open>On-disk layout\<close>

text \<open>kernel/fs.h: IBLOCK, BBLOCK, struct dinode (64 bytes), struct dirent (16 bytes).\<close>

definition IBLOCK :: "u32 \<Rightarrow> superblock \<Rightarrow> u32" where
  "IBLOCK i sp = i div 16 + sb_inodestart sp"

definition BBLOCK :: "u32 \<Rightarrow> superblock \<Rightarrow> u32" where
  "BBLOCK b sp = b div 8192 + sb_bmapstart sp"

definition decode_superblock :: "block \<Rightarrow> superblock" where
  "decode_superblock d =
     \<lparr>sb_magic = get32 d 0, sb_size = get32 d 4, sb_nblocks = get32 d 8, sb_ninodes = get32 d 12,
      sb_nlog = get32 d 16, sb_logstart = get32 d 20, sb_inodestart = get32 d 24,
      sb_bmapstart = get32 d 28\<rparr>"

text \<open>(struct dinode *)bp->data + inum % IPB\<close>

definition dinode_off :: "u32 \<Rightarrow> nat" where
  "dinode_off inum = 64 * unat (inum mod 16)"

definition get_dinode :: "block \<Rightarrow> nat \<Rightarrow> dinode" where
  "get_dinode d off =
     \<lparr>di_type = get16 d off, di_major = get16 d (off + 2), di_minor = get16 d (off + 4),
      di_nlink = get16 d (off + 6), di_size = get32 d (off + 8),
      di_addrs = map (\<lambda>i. get32 d (off + 12 + 4 * i)) [0..<NDIRECT + 1]\<rparr>"

text \<open>Storing an array of block numbers.\<close>

definition put_addrs :: "nat \<Rightarrow> u32 list \<Rightarrow> block \<Rightarrow> block" where
  "put_addrs off as d = fold (\<lambda>i d. put32 (off + 4 * i) (as ! i) d) [0..<length as] d"

definition put_dinode :: "nat \<Rightarrow> dinode \<Rightarrow> block \<Rightarrow> block" where
  "put_dinode off di d =
     put_addrs (off + 12) (di_addrs di) (put32 (off + 8) (di_size di) (put16 (off + 6) (di_nlink di)
       (put16 (off + 4) (di_minor di) (put16 (off + 2) (di_major di) (put16 off (di_type di) d)))))"

record dirent =
  de_inum :: u16
  de_name :: "u8 list"

definition decode_dirent :: "u8 list \<Rightarrow> dirent" where
  "decode_dirent bs = \<lparr>de_inum = get16 bs 0, de_name = slice DIRSIZ 2 bs\<rparr>"

definition encode_dirent :: "dirent \<Rightarrow> u8 list" where
  "encode_dirent de = le_bytes 2 (de_inum de) @ de_name de"

section \<open>Blocks\<close>

definition readsb :: "u32 \<Rightarrow> unit kernel" where
  "readsb dev =
     kbind (bread dev 1) (\<lambda>bp.
     kbind (buf_data bp) (\<lambda>d.
     kthen (kmodify (\<lambda>s. s\<lparr>sb := decode_superblock d\<rparr>))
     (brelse bp)))"

definition bzero :: "u32 \<Rightarrow> u32 \<Rightarrow> unit kernel" where
  "bzero dev bno =
     kbind (bread dev bno) (\<lambda>bp.
     kthen (set_buf_data bp (\<lambda>_. replicate BSIZE 0))
     (kthen (log_write bp) (brelse bp)))"

text \<open>m = 1 << (bi % 8) and the test and updates of the byte bp->data[bi / 8].\<close>

definition bit_mask :: "nat \<Rightarrow> u8" where
  "bit_mask bi = push_bit (bi mod 8) 1"

definition block_free :: "block \<Rightarrow> nat \<Rightarrow> bool" where
  "block_free d bi \<longleftrightarrow> d ! (bi div 8) AND bit_mask bi = 0"

definition mark_used :: "nat \<Rightarrow> block \<Rightarrow> block" where
  "mark_used bi d = d[bi div 8 := d ! (bi div 8) OR bit_mask bi]"

definition mark_free :: "nat \<Rightarrow> block \<Rightarrow> block" where
  "mark_free bi d = d[bi div 8 := d ! (bi div 8) AND NOT (bit_mask bi)]"

text \<open>The inner loop of balloc, with \<open>n\<close> bits left: bi < BPB && b + bi < sb.size.\<close>

fun find_free_bit :: "nat \<Rightarrow> nat \<Rightarrow> block \<Rightarrow> nat option" where
  "find_free_bit 0 bi d = None"
| "find_free_bit (Suc n) bi d = (if block_free d bi then Some bi else find_free_bit n (Suc bi) d)"

text \<open>The outer loop, over the first block \<open>b\<close> of each bitmap block.\<close>

fun balloc_from :: "nat list \<Rightarrow> u32 \<Rightarrow> u32 kernel" where
  "balloc_from [] dev = kthen (printk (''balloc: out of blocks'' @ [newline]) []) (kret 0)"
| "balloc_from (b # bs) dev =
     kbind (kgets sb) (\<lambda>sp.
     kbind (bread dev (BBLOCK (of_nat b) sp)) (\<lambda>bp.
     kbind (buf_data bp) (\<lambda>d.
     case find_free_bit (min BPB (unat (sb_size sp) - b)) 0 d of
       Some bi \<Rightarrow>
         kthen (set_buf_data bp (mark_used bi))
         (kthen (log_write bp)
         (kthen (brelse bp)
         (kthen (bzero dev (of_nat (b + bi)))
         (kret (of_nat (b + bi))))))
     | None \<Rightarrow> kthen (brelse bp) (balloc_from bs dev))))"

definition balloc :: "u32 \<Rightarrow> u32 kernel" where
  "balloc dev =
     kbind (kgets sb) (\<lambda>sp.
     balloc_from (map (\<lambda>k. k * BPB) [0..<(unat (sb_size sp) + BPB - 1) div BPB]) dev)"

definition bfree :: "u32 \<Rightarrow> u32 \<Rightarrow> unit kernel" where
  "bfree dev b =
     kbind (kgets sb) (\<lambda>sp.
     kbind (bread dev (BBLOCK b sp)) (\<lambda>bp.
     let bi = unat (b mod 8192) in
     kbind (buf_data bp) (\<lambda>d.
     if block_free d bi then kpanic ''freeing free block''
     else kthen (set_buf_data bp (mark_free bi))
          (kthen (log_write bp) (brelse bp)))))"

section \<open>Inodes\<close>

definition get_inode :: "nat \<Rightarrow> inode kernel" where
  "get_inode ip = kgets (\<lambda>s. itable s ! ip)"

definition set_inode :: "nat \<Rightarrow> (inode \<Rightarrow> inode) \<Rightarrow> unit kernel" where
  "set_inode ip f = kmodify (upd_inode ip f)"

definition inode_lock :: "nat \<Rightarrow> kstate \<Rightarrow> sleeplock" where
  "inode_lock ip s = i_lock (itable s ! ip)"

definition upd_inode_lock :: "nat \<Rightarrow> (sleeplock \<Rightarrow> sleeplock) \<Rightarrow> kstate \<Rightarrow> kstate" where
  "upd_inode_lock ip f = upd_inode ip (\<lambda>k. k\<lparr>i_lock := f (i_lock k)\<rparr>)"

definition iinit :: "unit kernel" where
  "iinit = kfor [0..<NINODE] (\<lambda>i. initsleeplock (upd_inode_lock i))"

text \<open>The two searches of iget's loop: a matching entry, else the first unused one.\<close>

definition find_inode :: "u32 \<Rightarrow> u32 \<Rightarrow> inode list \<Rightarrow> nat option" where
  "find_inode dev inum is =
     List.find (\<lambda>k. i_ref (is ! k) > 0 \<and> i_dev (is ! k) = dev \<and> i_inum (is ! k) = inum) [0..<length is]"

definition find_empty :: "inode list \<Rightarrow> nat option" where
  "find_empty is = List.find (\<lambda>k. i_ref (is ! k) = 0) [0..<length is]"

definition iget :: "u32 \<Rightarrow> u32 \<Rightarrow> nat kernel" where
  "iget dev inum =
     kbind (kgets (\<lambda>s. (find_inode dev inum (itable s), find_empty (itable s)))) (\<lambda>r.
     case r of
       (Some ip, _) \<Rightarrow> kthen (set_inode ip (\<lambda>k. k\<lparr>i_ref := i_ref k + 1\<rparr>)) (kret ip)
     | (None, None) \<Rightarrow> kpanic ''iget: no inodes''
     | (None, Some ip) \<Rightarrow>
         kthen (set_inode ip (\<lambda>k. k\<lparr>i_dev := dev, i_inum := inum, i_ref := 1, i_valid := False\<rparr>))
         (kret ip))"

text \<open>A zeroed on-disk inode of the given type.\<close>

definition fresh_dinode :: "u16 \<Rightarrow> dinode" where
  "fresh_dinode type = \<lparr>di_type = type, di_major = 0, di_minor = 0, di_nlink = 0, di_size = 0,
     di_addrs = replicate (NDIRECT + 1) 0\<rparr>"

fun ialloc_from :: "nat list \<Rightarrow> u32 \<Rightarrow> u16 \<Rightarrow> nat option kernel" where
  "ialloc_from [] dev type = kthen (printk (''ialloc: no inodes'' @ [newline]) []) (kret None)"
| "ialloc_from (inum # is) dev type =
     kbind (kgets sb) (\<lambda>sp.
     kbind (bread dev (IBLOCK (of_nat inum) sp)) (\<lambda>bp.
     kbind (buf_data bp) (\<lambda>d.
     let off = dinode_off (of_nat inum) in
     if di_type (get_dinode d off) = 0
     then kthen (set_buf_data bp (put_dinode off (fresh_dinode type)))
          (kthen (log_write bp)
          (kthen (brelse bp)
          (kbind (iget dev (of_nat inum)) (\<lambda>ip. kret (Some ip)))))
     else kthen (brelse bp) (ialloc_from is dev type))))"

definition ialloc :: "u32 \<Rightarrow> u16 \<Rightarrow> nat option kernel" where
  "ialloc dev type = kbind (kgets sb) (\<lambda>sp. ialloc_from [1..<unat (sb_ninodes sp)] dev type)"

text \<open>The on-disk form of an in-memory inode, and the fields ilock loads from it.\<close>

definition to_dinode :: "inode \<Rightarrow> dinode" where
  "to_dinode k = \<lparr>di_type = i_type k, di_major = i_major k, di_minor = i_minor k,
     di_nlink = i_nlink k, di_size = i_size k, di_addrs = i_addrs k\<rparr>"

definition load_dinode :: "dinode \<Rightarrow> inode \<Rightarrow> inode" where
  "load_dinode di k = k\<lparr>i_type := di_type di, i_major := di_major di, i_minor := di_minor di,
     i_nlink := di_nlink di, i_size := di_size di, i_addrs := di_addrs di\<rparr>"

definition iupdate :: "nat \<Rightarrow> unit kernel" where
  "iupdate ip =
     kbind (kgets sb) (\<lambda>sp.
     kbind (get_inode ip) (\<lambda>k.
     kbind (bread (i_dev k) (IBLOCK (i_inum k) sp)) (\<lambda>bp.
     kthen (set_buf_data bp (put_dinode (dinode_off (i_inum k)) (to_dinode k)))
     (kthen (log_write bp) (brelse bp)))))"

definition idup :: "nat \<Rightarrow> nat kernel" where
  "idup ip = kthen (set_inode ip (\<lambda>k. k\<lparr>i_ref := i_ref k + 1\<rparr>)) (kret ip)"

definition ilock :: "nat \<Rightarrow> unit kernel" where
  "ilock ip =
     kthen (kpanic_if (\<lambda>s. i_ref (itable s ! ip) < 1) ''ilock'')
     (kthen (acquiresleep (inode_lock ip) (upd_inode_lock ip) (ChInodeLock ip))
     (kbind (get_inode ip) (\<lambda>k.
      if i_valid k then kret ()
      else kbind (kgets sb) (\<lambda>sp.
        kbind (bread (i_dev k) (IBLOCK (i_inum k) sp)) (\<lambda>bp.
        kbind (buf_data bp) (\<lambda>d.
        kthen (set_inode ip (load_dinode (get_dinode d (dinode_off (i_inum k)))))
        (kthen (brelse bp)
        (kthen (set_inode ip (\<lambda>k. k\<lparr>i_valid := True\<rparr>))
        (kpanic_if (\<lambda>s. i_type (itable s ! ip) = 0) ''ilock: no type''))))))))) "

definition iunlock :: "nat \<Rightarrow> unit kernel" where
  "iunlock ip =
     kthen (kpanic_if (\<lambda>s. \<not> holdingsleep (inode_lock ip) s \<or> i_ref (itable s ! ip) < 1) ''iunlock'')
     (releasesleep (upd_inode_lock ip) (ChInodeLock ip))"

definition ifree :: "u32 \<Rightarrow> u32 \<Rightarrow> unit kernel" where
  "ifree dev inum =
     kbind (kgets sb) (\<lambda>sp.
     kbind (bread dev (IBLOCK inum sp)) (\<lambda>bp.
     kthen (set_buf_data bp (put16 (dinode_off inum) 0))
     (kthen (log_write bp) (brelse bp))))"

section \<open>Contents\<close>

text \<open>
  The address in ip->addrs[i], allocating a block for it if it is 0; 0 when the disk is full.
\<close>

definition addr_or_alloc :: "nat \<Rightarrow> nat \<Rightarrow> u32 kernel" where
  "addr_or_alloc ip i =
     kbind (get_inode ip) (\<lambda>k.
     if i_addrs k ! i = 0
     then kbind (balloc (i_dev k)) (\<lambda>addr.
       if addr = 0 then kret 0
       else kthen (set_inode ip (\<lambda>k. k\<lparr>i_addrs := (i_addrs k)[i := addr]\<rparr>)) (kret addr))
     else kret (i_addrs k ! i))"

definition bmap :: "nat \<Rightarrow> u32 \<Rightarrow> u32 kernel" where
  "bmap ip bn =
     (if bn < 12 then addr_or_alloc ip (unat bn)
      else let bn = bn - 12 in
        if bn < 256 then
          kbind (addr_or_alloc ip NDIRECT) (\<lambda>ind.
          if ind = 0 then kret 0
          else kbind (get_inode ip) (\<lambda>k.
            kbind (bread (i_dev k) ind) (\<lambda>bp.
            kbind (buf_data bp) (\<lambda>a.
            if get32 a (4 * unat bn) = 0
            then kbind (balloc (i_dev k)) (\<lambda>addr.
              kthen (kwhen (addr \<noteq> 0)
                (kthen (set_buf_data bp (put32 (4 * unat bn) addr)) (log_write bp)))
              (kthen (brelse bp) (kret addr)))
            else kthen (brelse bp) (kret (get32 a (4 * unat bn)))))))
        else kpanic ''bmap: out of range'')"

definition itrunc :: "nat \<Rightarrow> unit kernel" where
  "itrunc ip =
     kthen (kfor [0..<NDIRECT] (\<lambda>i.
       kbind (get_inode ip) (\<lambda>k.
       kwhen (i_addrs k ! i \<noteq> 0)
         (kthen (bfree (i_dev k) (i_addrs k ! i))
          (set_inode ip (\<lambda>k. k\<lparr>i_addrs := (i_addrs k)[i := 0]\<rparr>))))))
     (kthen (kbind (get_inode ip) (\<lambda>k.
       kwhen (i_addrs k ! NDIRECT \<noteq> 0)
         (kbind (bread (i_dev k) (i_addrs k ! NDIRECT)) (\<lambda>bp.
          kthen (kfor [0..<NINDIRECT] (\<lambda>j.
            kbind (buf_data bp) (\<lambda>a.
            kwhen (get32 a (4 * j) \<noteq> 0) (bfree (i_dev k) (get32 a (4 * j))))))
          (kthen (brelse bp)
          (kthen (bfree (i_dev k) (i_addrs k ! NDIRECT))
          (set_inode ip (\<lambda>k. k\<lparr>i_addrs := (i_addrs k)[NDIRECT := 0]\<rparr>))))))))
     (kthen (set_inode ip (\<lambda>k. k\<lparr>i_size := 0\<rparr>))
     (iupdate ip)))"

definition iput :: "nat \<Rightarrow> unit kernel" where
  "iput ip =
     kbind (get_inode ip) (\<lambda>k.
     let last = (i_ref k = 1 \<and> i_valid k \<and> i_nlink k = 0) in
     kthen (kwhen last
       (kthen (acquiresleep (inode_lock ip) (upd_inode_lock ip) (ChInodeLock ip))
       (kthen (itrunc ip)
       (kthen (set_inode ip (\<lambda>k. k\<lparr>i_valid := False\<rparr>))
       (releasesleep (upd_inode_lock ip) (ChInodeLock ip))))))
     (kthen (set_inode ip (\<lambda>k. k\<lparr>i_ref := i_ref k - 1\<rparr>))
     (kwhen last (ifree (i_dev k) (i_inum k)))))"

definition iunlockput :: "nat \<Rightarrow> unit kernel" where
  "iunlockput ip = kthen (iunlock ip) (iput ip)"

definition reclaim_one :: "u32 \<Rightarrow> nat \<Rightarrow> unit kernel" where
  "reclaim_one dev inum =
     kbind (kgets sb) (\<lambda>sp.
     kbind (bread dev (IBLOCK (of_nat inum) sp)) (\<lambda>bp.
     kbind (buf_data bp) (\<lambda>d.
     let di = get_dinode d (dinode_off (of_nat inum)) in
     kbind (if di_type di \<noteq> 0 \<and> di_nlink di = 0
            then kthen (printk (''ireclaim: orphaned inode %d'' @ [newline]) [Num (of_nat inum)])
                 (kbind (iget dev (of_nat inum)) (\<lambda>ip. kret (Some ip)))
            else kret None) (\<lambda>orphan.
     kthen (brelse bp)
     (case orphan of None \<Rightarrow> kret ()
      | Some ip \<Rightarrow> kthen begin_op (kthen (ilock ip) (kthen (iunlock ip) (kthen (iput ip) end_op))))))))"

definition ireclaim :: "u32 \<Rightarrow> unit kernel" where
  "ireclaim dev = kbind (kgets sb) (\<lambda>sp. kfor [1..<unat (sb_ninodes sp)] (reclaim_one dev))"

definition fsinit :: "u32 \<Rightarrow> unit kernel" where
  "fsinit dev =
     kthen (readsb dev)
     (kthen (kpanic_if (\<lambda>s. sb_magic (sb s) \<noteq> FSMAGIC) ''invalid file system'')
     (kbind (kgets sb) (\<lambda>sp.
      kthen (initlog dev sp) (ireclaim dev))))"

text \<open>kernel/stat.h\<close>

record stat =
  st_dev :: u32
  st_ino :: u32
  st_type :: u16
  st_nlink :: u16
  st_size :: u64

definition stati :: "nat \<Rightarrow> stat kernel" where
  "stati ip = kbind (get_inode ip) (\<lambda>k.
     kret \<lparr>st_dev = i_dev k, st_ino = i_inum k, st_type = i_type k, st_nlink = i_nlink k,
       st_size = ucast (i_size k)\<rparr>)"

text \<open>m = min(n - tot, BSIZE - off % BSIZE)\<close>

definition chunk :: "u32 \<Rightarrow> u32 \<Rightarrow> u32 \<Rightarrow> u32" where
  "chunk n tot off = min (n - tot) (1024 - off mod 1024)"

lemma chunk_decreases:
  assumes "tot < n"
  shows "unat (n - (tot + chunk n tot off)) < unat (n - tot)"
proof -
  have "off mod 1024 < 1024" by (simp add: word_less_nat_alt unat_mod)
  then have "1024 - off mod 1024 \<noteq> 0" by auto
  moreover have "n - tot \<noteq> 0" using assms by auto
  ultimately have "chunk n tot off \<noteq> 0" "chunk n tot off \<le> n - tot"
    by (auto simp: chunk_def min_def)
  moreover have "0 < unat (chunk n tot off)" using calculation(1) by (simp add: unat_gt_0)
  ultimately have "unat ((n - tot) - chunk n tot off) < unat (n - tot)"
    by (subst unat_sub) (auto simp: word_le_nat_alt)
  then show ?thesis by (simp only: diff_diff_add)
qed

text \<open>
  The loop of readi. The second component of the result is what the loop stored, in order; it is
  the value of a destination \<open>Var\<close>.
\<close>

function readi_loop :: "nat \<Rightarrow> place \<Rightarrow> u32 \<Rightarrow> u32 \<Rightarrow> u32 \<Rightarrow> (u32 \<times> u8 list) kernel" where
  "readi_loop ip dst off n tot =
     (if \<not> tot < n then kret (tot, [])
      else
        kbind (bmap ip (off div 1024)) (\<lambda>addr.
        if addr = 0 then kret (tot, [])
        else
          kbind (get_inode ip) (\<lambda>k.
          kbind (bread (i_dev k) addr) (\<lambda>bp.
          kbind (buf_data bp) (\<lambda>d.
          let m = chunk n tot off; bs = slice (unat m) (unat (off mod 1024)) d in
          kbind (either_copyout dst bs) (\<lambda>r.
          if r = - 1 then kthen (brelse bp) (kret (- 1, []))
          else kthen (brelse bp)
            (kbind (readi_loop ip (advance dst (chunk n tot off)) (off + chunk n tot off) n
               (tot + chunk n tot off)) (\<lambda>(t, out). kret (t, bs @ out))))))))) "
  by pat_completeness auto
termination
  by (relation "measure (\<lambda>(ip, dst, off, n, tot). unat (n - tot))") (simp_all add: chunk_decreases)

declare readi_loop.simps [simp del]

definition readi :: "nat \<Rightarrow> place \<Rightarrow> u32 \<Rightarrow> u32 \<Rightarrow> (u32 \<times> u8 list) kernel" where
  "readi ip dst off n =
     kbind (get_inode ip) (\<lambda>k.
     if off > i_size k \<or> off + n < off then kret (0, [])
     else readi_loop ip dst off (if off + n > i_size k then i_size k - off else n) 0)"

text \<open>The loop of writei returns the total and the final offset.\<close>

function writei_loop :: "nat \<Rightarrow> place \<Rightarrow> u32 \<Rightarrow> u32 \<Rightarrow> u32 \<Rightarrow> (u32 \<times> u32) kernel" where
  "writei_loop ip src off n tot =
     (if \<not> tot < n then kret (tot, off)
      else
        kbind (bmap ip (off div 1024)) (\<lambda>addr.
        if addr = 0 then kret (tot, off)
        else
          kbind (get_inode ip) (\<lambda>k.
          kbind (bread (i_dev k) addr) (\<lambda>bp.
          kbind (either_copyin src (unat (chunk n tot off))) (\<lambda>(r, bs).
          kthen (set_buf_data bp (splice (unat (off mod 1024)) bs))
          (kthen (log_write bp)
          (kthen (brelse bp)
          (if r = - 1 then kret (tot, off)
           else writei_loop ip (advance src (chunk n tot off)) (off + chunk n tot off) n
                  (tot + chunk n tot off)))))))))"
  by pat_completeness auto
termination
  by (relation "measure (\<lambda>(ip, src, off, n, tot). unat (n - tot))") (simp_all add: chunk_decreases)

declare writei_loop.simps [simp del]

definition writei :: "nat \<Rightarrow> place \<Rightarrow> u32 \<Rightarrow> u32 \<Rightarrow> u32 kernel" where
  "writei ip src off n =
     kbind (get_inode ip) (\<lambda>k.
     if off > i_size k \<or> off + n < off then kret (- 1)
     else if off + n > 268 * 1024 then kret (- 1)
     else kbind (writei_loop ip src off n 0) (\<lambda>(tot, off').
       kthen (set_inode ip (\<lambda>k. if off' > i_size k then k\<lparr>i_size := off'\<rparr> else k))
       (kthen (iupdate ip) (kret tot))))"

section \<open>Directories\<close>

text \<open>The bytes of a C string or array, with NULs after its end.\<close>

definition byte_at :: "u8 list \<Rightarrow> nat \<Rightarrow> u8" where
  "byte_at bs i = (if i < length bs then bs ! i else 0)"

definition namecmp :: "u8 list \<Rightarrow> u8 list \<Rightarrow> int" where
  "namecmp p q = strncmp (byte_at p) (byte_at q) 14"

text \<open>Offsets off = 0, sizeof(de), ... below dp->size.\<close>

definition dir_offsets :: "u32 \<Rightarrow> u32 list" where
  "dir_offsets sz = map (\<lambda>i. of_nat (16 * i)) [0..<(unat sz + 15) div 16]"

fun dirlookup_from :: "u32 list \<Rightarrow> nat \<Rightarrow> u8 list \<Rightarrow> (nat \<times> u32) option kernel" where
  "dirlookup_from [] dp name = kret None"
| "dirlookup_from (off # offs) dp name =
     kbind (readi dp (Var []) off 16) (\<lambda>(r, bs).
     if r \<noteq> 16 then kpanic ''dirlookup read''
     else
       let de = decode_dirent bs in
       if de_inum de = 0 then dirlookup_from offs dp name
       else if namecmp name (de_name de) = 0
       then kbind (get_inode dp) (\<lambda>k.
         kbind (iget (i_dev k) (ucast (de_inum de))) (\<lambda>ip. kret (Some (ip, off))))
       else dirlookup_from offs dp name)"

text \<open>The result pairs the inode with the offset stored in *poff.\<close>

definition dirlookup :: "nat \<Rightarrow> u8 list \<Rightarrow> (nat \<times> u32) option kernel" where
  "dirlookup dp name =
     kthen (kpanic_if (\<lambda>s. i_type (itable s ! dp) \<noteq> T_DIR) ''dirlookup not DIR'')
     (kbind (get_inode dp) (\<lambda>k. dirlookup_from (dir_offsets (i_size k)) dp name))"

text \<open>The first free entry of a directory, or its end.\<close>

fun empty_dirent :: "u32 list \<Rightarrow> nat \<Rightarrow> u32 \<Rightarrow> u32 kernel" where
  "empty_dirent [] dp off = kret off"
| "empty_dirent (off # offs) dp _ =
     kbind (readi dp (Var []) off 16) (\<lambda>(r, bs).
     if r \<noteq> 16 then kpanic ''dirlink read''
     else if de_inum (decode_dirent bs) = 0 then kret off
     else empty_dirent offs dp (off + 16))"

text \<open>strncpy(de.name, name, DIRSIZ): the string, padded with NULs.\<close>

definition name_field :: "u8 list \<Rightarrow> u8 list" where
  "name_field name = map (byte_at (takeWhile (\<lambda>c. c \<noteq> 0) name)) [0..<DIRSIZ]"

definition dirlink :: "nat \<Rightarrow> u8 list \<Rightarrow> u32 \<Rightarrow> int kernel" where
  "dirlink dp name inum =
     kbind (dirlookup dp name) (\<lambda>found.
     case found of Some (ip, _) \<Rightarrow> kthen (iput ip) (kret (- 1))
     | None \<Rightarrow>
       kbind (get_inode dp) (\<lambda>k.
       kbind (empty_dirent (dir_offsets (i_size k)) dp 0) (\<lambda>off.
       let de = \<lparr>de_inum = ucast inum, de_name = name_field name\<rparr> in
       kbind (writei dp (Var (encode_dirent de)) off 16) (\<lambda>r.
       if r \<noteq> 16 then kret (- 1) else kret 0))))"

section \<open>Paths\<close>

text \<open>A path is the bytes before its NUL; the slash is byte 47.\<close>

abbreviation (input) slash :: u8 where "slash \<equiv> 47"

text \<open>The result is the rest of the path (\<open>None\<close>: no element left) and the array \<open>name\<close>.\<close>

definition skipelem :: "u8 list \<Rightarrow> u8 list \<Rightarrow> u8 list option \<times> u8 list" where
  "skipelem path name =
     (let s = dropWhile (\<lambda>c. c = slash) path in
      if s = [] then (None, name)
      else
        let elem = takeWhile (\<lambda>c. c \<noteq> slash) s;
            rest = dropWhile (\<lambda>c. c = slash) (dropWhile (\<lambda>c. c \<noteq> slash) s);
            name' = (if length elem \<ge> DIRSIZ then splice 0 (take DIRSIZ elem) name
                     else splice 0 (elem @ [0]) name)
        in (Some rest, name'))"

lemma skipelem_shorter: "skipelem path name = (Some rest, name') \<Longrightarrow> length rest < length path"
proof -
  assume a: "skipelem path name = (Some rest, name')"
  let ?s = "dropWhile (\<lambda>c. c = slash) path"
  have s: "?s \<noteq> []" and r: "rest = dropWhile (\<lambda>c. c = slash) (dropWhile (\<lambda>c. c \<noteq> slash) ?s)"
    using a by (auto simp: skipelem_def Let_def split: if_splits)
  have "hd ?s \<noteq> slash" using hd_dropWhile [OF s] .
  then have "length (dropWhile (\<lambda>c. c \<noteq> slash) ?s) < length ?s"
    using s by (cases ?s) (auto intro: le_imp_less_Suc length_dropWhile_le)
  then show ?thesis
    using length_dropWhile_le [of "\<lambda>c. c = slash" "dropWhile (\<lambda>c. c \<noteq> slash) ?s"]
      length_dropWhile_le [of "\<lambda>c. c = slash" path] unfolding r by linarith
qed

function namex_loop :: "nat \<Rightarrow> u8 list \<Rightarrow> bool \<Rightarrow> u8 list \<Rightarrow> (nat option \<times> u8 list) kernel" where
  "namex_loop ip path parent name =
     (case skipelem path name of
        (None, name') \<Rightarrow>
          if parent then kthen (iput ip) (kret (None, name')) else kret (Some ip, name')
      | (Some rest, name') \<Rightarrow>
          kthen (ilock ip)
          (kbind (get_inode ip) (\<lambda>k.
           if i_type k \<noteq> T_DIR then kthen (iunlockput ip) (kret (None, name'))
           else if i_nlink k = 0 then kthen (iunlockput ip) (kret (None, name'))
           else if parent \<and> rest = [] then kthen (iunlock ip) (kret (Some ip, name'))
           else kbind (dirlookup ip name') (\<lambda>found.
             case found of None \<Rightarrow> kthen (iunlockput ip) (kret (None, name'))
             | Some (nxt, _) \<Rightarrow> kthen (iunlockput ip) (namex_loop nxt rest parent name')))))"
  by pat_completeness auto
termination
  by (relation "measure (\<lambda>(ip, path, parent, name). length path)") (auto dest: skipelem_shorter [OF sym])

declare namex_loop.simps [simp del]

text \<open>myproc()->cwd is never null when namex runs.\<close>

definition namex :: "u8 list \<Rightarrow> bool \<Rightarrow> u8 list \<Rightarrow> (nat option \<times> u8 list) kernel" where
  "namex path parent name =
     kbind (if path \<noteq> [] \<and> hd path = slash then iget ROOTDEV ROOTINO
            else kbind myproc (\<lambda>i. kbind (get_proc i) (\<lambda>p. idup (the (p_cwd p))))) (\<lambda>ip.
     namex_loop ip path parent name)"

definition namei :: "u8 list \<Rightarrow> nat option kernel" where
  "namei path = kbind (namex path False (replicate DIRSIZ 0)) (\<lambda>(ip, _). kret ip)"

definition nameiparent :: "u8 list \<Rightarrow> u8 list \<Rightarrow> (nat option \<times> u8 list) kernel" where
  "nameiparent path name = namex path True name"

end
