(* ===== verification/Xv6_Bitmap.thy ===== *)
theory Xv6_Bitmap
  imports Xv6_Trans Xv6_Fs
begin

text \<open>
  The block allocator of kernel/fs.c: bzero, balloc and bfree on the free bitmap. A block is used
  when its bit is set; balloc returns the first free block, marked and zeroed, and bfree gives a
  block back.
\<close>

section \<open>Bits\<close>

lemma bit_mask_iff: "bit (bit_mask bi) n \<longleftrightarrow> n = bi mod 8"
  by (auto simp: bit_mask_def bit_exp_iff possible_bit_word)

lemma block_free_bit: "block_free d bi \<longleftrightarrow> \<not> bit (d ! (bi div 8)) (bi mod 8)"
  unfolding block_free_def by (subst bit_eq_iff) (auto simp: bit_and_iff bit_mask_iff possible_bit_word dest: spec [of _ "bi mod 8"])

lemma block_free_marked:
  assumes "bi div 8 < length d"
  shows "block_free (mark_used bi d) bj \<longleftrightarrow> block_free d bj \<and> bj \<noteq> bi"
    "block_free (mark_free bi d) bj \<longleftrightarrow> block_free d bj \<or> bj = bi"
proof -
  have eq: "bj = bi \<longleftrightarrow> bj div 8 = bi div 8 \<and> bj mod 8 = bi mod 8" by (metis div_mult_mod_eq)
  have b: "bj mod 8 < 8" by simp
  show "block_free (mark_used bi d) bj \<longleftrightarrow> block_free d bj \<and> bj \<noteq> bi"
    using assms unfolding block_free_bit mark_used_def eq
    by (cases "bj div 8 = bi div 8") (auto simp: bit_or_iff bit_mask_iff)
  show "block_free (mark_free bi d) bj \<longleftrightarrow> block_free d bj \<or> bj = bi"
    using assms b unfolding block_free_bit mark_free_def eq
    by (cases "bj div 8 = bi div 8") (auto simp: bit_and_iff bit_not_iff bit_mask_iff)
qed

lemma length_mark [simp]: "length (mark_used bi d) = length d" "length (mark_free bi d) = length d"
  by (simp_all add: mark_used_def mark_free_def)

lemma find_free_bit_find: "find_free_bit n bi d = List.find (block_free d) [bi..<bi + n]"
proof (induction n arbitrary: bi)
  case (Suc n)
  have "[bi..<bi + Suc n] = bi # [Suc bi..<Suc bi + n]" by (simp add: upt_conv_Cons)
  then show ?case using Suc [of "Suc bi"] by simp
qed simp

section \<open>The bitmap\<close>

text \<open>Whether block \<open>b\<close> is marked in the bitmap of contents \<open>v\<close>.\<close>

definition used :: "(u32 \<Rightarrow> block) \<Rightarrow> superblock \<Rightarrow> nat \<Rightarrow> bool" where
  "used v sp b \<longleftrightarrow> \<not> block_free (v (BBLOCK (of_nat b) sp)) (b mod BPB)"

definition first_free :: "(u32 \<Rightarrow> block) \<Rightarrow> superblock \<Rightarrow> nat option" where
  "first_free v sp = List.find (\<lambda>b. \<not> used v sp b) [0..<unat (sb_size sp)]"

text \<open>The contents after block \<open>b\<close> was marked used and zeroed.\<close>

definition allocated :: "nat \<Rightarrow> superblock \<Rightarrow> (u32 \<Rightarrow> block) \<Rightarrow> u32 \<Rightarrow> block" where
  "allocated b sp v =
     (v(BBLOCK (of_nat b) sp := mark_used (b mod BPB) (v (BBLOCK (of_nat b) sp))))(of_nat b := replicate BSIZE 0)"

lemma BBLOCK_same:
  assumes "b < 2 ^ 32" "b' < 2 ^ 32" "b div BPB = b' div BPB"
  shows "BBLOCK (of_nat b) sp = BBLOCK (of_nat b') sp"
proof -
  have "(of_nat b :: u32) div 8192 = of_nat b' div 8192"
    using assms by (intro word_unat_eq_iff [THEN iffD2]) (simp add: unat_div unat_of_nat take_bit_eq_mod)
  then show ?thesis by (simp add: BBLOCK_def)
qed

lemma BBLOCK_eq_iff:
  assumes "b < 2 ^ 32" "b' < 2 ^ 32"
  shows "BBLOCK (of_nat b) sp = BBLOCK (of_nat b') sp \<longleftrightarrow> b div BPB = b' div BPB"
proof -
  have "BBLOCK (of_nat b) sp = BBLOCK (of_nat b') sp \<longleftrightarrow> (of_nat b :: u32) div 8192 = of_nat b' div 8192"
    by (simp add: BBLOCK_def)
  also have "\<dots> \<longleftrightarrow> b div BPB = b' div BPB"
    using assms by (subst word_unat_eq_iff) (simp add: unat_div unat_of_nat take_bit_eq_mod)
  finally show ?thesis .
qed

text \<open>The bitmap blocks themselves are marked used, so that they are never handed out.\<close>

definition bitmap_ok :: "(u32 \<Rightarrow> block) \<Rightarrow> superblock \<Rightarrow> bool" where
  "bitmap_ok v sp \<longleftrightarrow> (\<forall>b b'. b < unat (sb_size sp) \<longrightarrow> b' < unat (sb_size sp) \<longrightarrow>
     BBLOCK (of_nat b) sp = of_nat b' \<longrightarrow> used v sp b')"

lemma used_allocated:
  assumes ok: "bitmap_ok v sp" and b: "b < unat (sb_size sp)" "\<not> used v sp b" and b': "b' < unat (sb_size sp)"
    and len: "\<And>x. length (v x) = BSIZE"
  shows "used (allocated b sp v) sp b' \<longleftrightarrow> used v sp b' \<or> b' = b"
proof -
  have lt: "b < 2 ^ 32" "b' < 2 ^ 32" using b(1) b' unat_bounds(3) [of "sb_size sp"] by simp_all
  have nb: "BBLOCK (of_nat b') sp \<noteq> of_nat b"
    using ok b b' unfolding bitmap_ok_def by blast
  have "b mod BPB div 8 < BSIZE" by simp
  then show ?thesis
    using nb len BBLOCK_eq_iff [OF lt] unfolding used_def allocated_def
    by (auto simp: block_free_marked) (metis div_mult_mod_eq)+
qed

lemma bitmap_ok_allocated:
  assumes ok: "bitmap_ok v sp" and b: "b < unat (sb_size sp)" "\<not> used v sp b" and len: "\<And>x. length (v x) = BSIZE"
  shows "bitmap_ok (allocated b sp v) sp"
  using ok used_allocated [OF ok b _ len] unfolding bitmap_ok_def by blast

section \<open>bzero, balloc and bfree\<close>

lemma wp_bzero:
  assumes a: "inside s0 H D v L s" and o: "1 \<le> l_outstanding (klog s0)" and bno: "bno \<notin> ran H" and n: "card (dom H) + card L < NBUF" "card (insert bno L) < LOGBLOCKS"
    and k: "\<And>s'. inside s0 H D (v(bno := replicate BSIZE 0)) (insert bno L) s' \<Longrightarrow> wp m Q s'"
  shows "wp (kthen (bzero ROOTDEV bno) m) Q s"
proof -
  have nd: "b \<notin> D" if "b \<notin> dom H" for b using inside_tx [OF a] that by (auto simp: tx_def)
  show ?thesis
    unfolding bzero_def kthen_kbind kthen_assoc
    apply (rule wp_bread [OF a bno n(1)])
    apply (rule wp_set_buf_data [where blk = bno], assumption, simp, simp)
    apply (rule wp_log_write [where blk = bno], assumption, rule o, simp, rule n(2))
    apply (rule wp_brelse [where blk = bno], assumption, simp, simp)
    using k nd by simp
qed


text \<open>The blocks one bitmap block is about, and the first free one of them.\<close>

definition span :: "superblock \<Rightarrow> nat \<Rightarrow> nat list" where
  "span sp b = [b..<min (b + BPB) (unat (sb_size sp))]"

lemma span_list:
  "concat (map (span sp) (map (\<lambda>k. k * BPB) [0..<n])) = [0..<min (n * BPB) (unat (sb_size sp))]"
proof (induction n)
  case (Suc n)
  show ?case
  proof (cases "n * BPB \<le> unat (sb_size sp)")
    case True
    let ?m = "min (Suc n * BPB) (unat (sb_size sp))"
    have "[0..<?m] = [0..<n * BPB] @ [n * BPB..<?m]"
      using True upt_add_eq_append [of 0 "n * BPB" "?m - n * BPB"] by simp
    then show ?thesis using Suc True by (simp add: span_def min_def add.commute)
  qed (use Suc in \<open>simp add: span_def min_def\<close>)
qed simp

lemma find_append: "List.find P (xs @ ys) = (case List.find P xs of None \<Rightarrow> List.find P ys | r \<Rightarrow> r)"
  by (induction xs) simp_all

lemma find_mem: "List.find P xs = Some x \<Longrightarrow> x \<in> set xs \<and> P x"
  by (induction xs) (auto split: if_splits)

lemma aligned_block:
  assumes "b mod BPB = 0" "i < BPB"
  shows "(b + i) div BPB = b div BPB" "(b + i) mod BPB = i"
proof -
  obtain q where "b = BPB * q" using assms(1) by (metis dvd_def mod_0_imp_dvd)
  then show "(b + i) div BPB = b div BPB" "(b + i) mod BPB = i" using assms(2) by simp_all
qed

lemma find_free_span:
  assumes b: "b mod BPB = 0" "b < unat (sb_size sp)"
  shows "List.find (\<lambda>b. \<not> used v sp b) (span sp b) =
    map_option (\<lambda>bi. b + bi) (find_free_bit (min BPB (unat (sb_size sp) - b)) 0 (v (BBLOCK (of_nat b) sp)))"
proof -
  let ?n = "min BPB (unat (sb_size sp) - b)"
  have lt: "b + i < 2 ^ 32" if "i < ?n" for i using that b(2) unat_bounds(3) [of "sb_size sp"] by auto
  have u: "used v sp (b + i) \<longleftrightarrow> \<not> block_free (v (BBLOCK (of_nat b) sp)) i" if i: "i < ?n" for i
  proof -
    have "(b + i) div BPB = b div BPB" "(b + i) mod BPB = i" using aligned_block [OF b(1), of i] i by simp_all
    then show ?thesis using BBLOCK_same [OF lt [OF i] _, of b sp] lt [of 0] b i unfolding used_def by simp
  qed
  have m: "span sp b = map (\<lambda>i. b + i) [0..<?n]"
  proof -
    have "min (b + BPB) (unat (sb_size sp)) = ?n + b" using b(2) by auto
    then show ?thesis using map_add_upt [of b ?n] by (simp add: span_def add.commute)
  qed
  have "List.find (\<lambda>b. \<not> used v sp b) (map (\<lambda>i. b + i) is) = map_option (\<lambda>i. b + i) (List.find (block_free (v (BBLOCK (of_nat b) sp))) is)"
    if "set is \<subseteq> {..<?n}" for "is"
    using that u by (induction "is") auto
  from this [of "[0..<?n]"] show ?thesis unfolding m find_free_bit_find by (simp add: atLeast0LessThan)
qed

lemma wp_balloc_from:
  assumes a: "inside s0 H D v L s" and o: "1 \<le> l_outstanding (klog s0)" and ok: "bitmap_ok v (sb s0)"
    and bs: "\<And>b. b \<in> set bs \<Longrightarrow> b mod BPB = 0 \<and> b < unat (sb_size (sb s0)) \<and> BBLOCK (of_nat b) (sb s0) \<notin> ran H"
    and free: "\<And>b. b < unat (sb_size (sb s0)) \<Longrightarrow> \<not> used v (sb s0) b \<Longrightarrow> of_nat b \<notin> ran H"
    and n: "\<And>b. b < unat (sb_size (sb s0)) \<Longrightarrow> card (dom H) + card (insert (BBLOCK (of_nat b) (sb s0)) L) + 1 < NBUF"
    and found: "\<And>b s'. List.find (\<lambda>b. \<not> used v (sb s0) b) (concat (map (span (sb s0)) bs)) = Some b \<Longrightarrow>
      inside s0 H D (allocated b (sb s0) v) (L \<union> {BBLOCK (of_nat b) (sb s0), of_nat b}) s' \<Longrightarrow> wp (f (of_nat b)) Q s'"
    and none: "\<And>c s'. List.find (\<lambda>b. \<not> used v (sb s0) b) (concat (map (span (sb s0)) bs)) = None \<Longrightarrow>
      inside (s0\<lparr>console_out := c\<rparr>) H D v L s' \<Longrightarrow> wp (f 0) Q s'"
  shows "wp (kbind (balloc_from bs ROOTDEV) f) Q s"
  using a bs found none
proof (induction bs arbitrary: s)
  case Nil
  have "wp (f 0) Q (s\<lparr>console_out := c\<rparr>)" for c
    using Nil.prems(4) [OF _ inside_console [OF Nil.prems(1), of c]] by simp
  then show ?case by (simp add: kbind_kthen wp_def kthen_def kbind_def)
next
  case (Cons b bs)
  let ?sp = "sb s0" and ?B = "BBLOCK (of_nat b) (sb s0)"
  have spb: "sb s = ?sp" using inside_fields(2) [OF Cons.prems(1)] .
  have b: "b mod BPB = 0" "b < unat (sb_size ?sp)" "?B \<notin> ran H" using Cons.prems(2) [of b] by auto
  have nd: "x \<notin> D" if "x \<notin> dom H" for x using inside_tx [OF Cons.prems(1)] that by (auto simp: tx_def)
  have fin: "finite L" using inside_logged [OF Cons.prems(1)] by (auto simp: logged_blocks_def)
  have findc: "List.find (\<lambda>b. \<not> used v ?sp b) (concat (map (span ?sp) (b # bs))) =
      (case map_option (\<lambda>bi. b + bi) (find_free_bit (min BPB (unat (sb_size ?sp) - b)) 0 (v ?B)) of
         None \<Rightarrow> List.find (\<lambda>b. \<not> used v ?sp b) (concat (map (span ?sp) bs)) | r \<Rightarrow> r)"
    by (simp only: list.map concat.simps find_append find_free_span [OF b(1,2)])
  have skip: "wp (kbind (kthen (brelse bp) (balloc_from bs ROOTDEV)) f) Q s'"
    if bp: "bp \<notin> dom H" "inside s0 (H(bp \<mapsto> ?B)) D v L s'"
      and none: "find_free_bit (min BPB (unat (sb_size ?sp) - b)) 0 (v ?B) = None" for bp s'
  proof (simp only: kbind_kthen, rule wp_brelse [OF bp(2)])
    fix s'' assume "inside s0 ((H(bp \<mapsto> ?B))(bp := None)) D v L s''"
    then have "inside s0 H D v L s''" using bp(1) by simp
    then show "wp (kbind (balloc_from bs ROOTDEV) f) Q s''"
      using Cons.prems(2-4) findc none by (intro Cons.IH) auto
  qed (use bp nd in auto)
  have here: "wp (kbind (kthen (set_buf_data bp (mark_used bi)) (kthen (log_write bp) (kthen (brelse bp)
        (kthen (bzero ROOTDEV (of_nat (b + bi))) (kret (of_nat (b + bi))))))) f) Q s'"
    if bp: "bp \<notin> dom H" "inside s0 (H(bp \<mapsto> ?B)) D v L s'"
      and some: "find_free_bit (min BPB (unat (sb_size ?sp) - b)) 0 (v ?B) = Some bi" for bp bi s'
  proof -
    define c where "c = b + bi"
    have fd: "List.find (\<lambda>b. \<not> used v ?sp b) (concat (map (span ?sp) (b # bs))) = Some c" using findc some by (simp add: c_def)
    have "List.find (\<lambda>b. \<not> used v ?sp b) (span ?sp b) = Some c" using find_free_span [OF b(1,2), of v] some by (simp add: c_def)
    then have bi: "\<not> used v ?sp c" "c < unat (sb_size ?sp)" "bi < BPB"
      by (auto simp: span_def c_def dest!: find_mem)
    have lt: "b < 2 ^ 32" "c < 2 ^ 32" using bi(2) unat_bounds(3) [of "sb_size ?sp"] by (simp_all add: c_def)
    have same: "BBLOCK (of_nat c) ?sp = ?B" "c mod BPB = bi"
      using aligned_block [OF b(1) bi(3)] BBLOCK_same [OF lt(2,1)] by (simp_all add: c_def)
    have fr: "of_nat c \<notin> ran H" using free bi by blast
    have c1: "card (insert (of_nat c) (insert ?B L)) \<le> Suc (card (insert ?B L))" "card (dom H) + card (insert ?B L) + 1 < NBUF"
      using fin n [OF b(2)] by (auto simp: card_insert_if)
    have al: "allocated c ?sp v = (v(?B := mark_used bi (v ?B)))(of_nat c := replicate BSIZE 0)"
      by (simp only: allocated_def same)
    have Lc: "L \<union> {BBLOCK (of_nat c) ?sp, of_nat c} = insert (of_nat c) (insert ?B L)" by (auto simp: same)
    note k = Cons.prems(3) [OF fd, unfolded al Lc]
    show ?thesis
      unfolding kbind_kthen c_def [symmetric]
      apply (rule wp_set_buf_data [OF bp(2)], simp, simp add: inside_length [OF bp(2)])
      apply (rule wp_log_write [where blk = ?B], assumption, rule o, simp)
      using c1 apply simp
      apply (rule wp_brelse [where blk = ?B], assumption, simp, simp)
      apply (rule wp_bzero [where H = H], simp add: bp nd, rule o, rule fr)
      using c1 apply simp
      using c1 apply simp
      apply (simp only: wp_bind_basic)
      apply (erule k)
      done
  qed
  show ?case
    apply (simp only: balloc_from.simps kbind_assoc)
    apply (rule wp_bind)
    apply (simp only: wp_basic spb)
    apply (rule wp_bread [OF Cons.prems(1) b(3)])
    using n [OF b(2)] card_insert_le [of L ?B] apply simp
    apply (rule wp_buf_data [where blk = ?B], assumption, simp)
    subgoal for bp s'
      using skip [of bp s'] here [of bp s'] by (cases "find_free_bit (min BPB (unat (sb_size ?sp) - b)) 0 (v ?B)") simp_all
    done
qed


lemma wp_balloc:
  assumes a: "inside s0 H D v L s" and o: "1 \<le> l_outstanding (klog s0)" and ok: "bitmap_ok v (sb s0)"
    and bb: "\<And>b. b < unat (sb_size (sb s0)) \<Longrightarrow> BBLOCK (of_nat b) (sb s0) \<notin> ran H"
    and free: "\<And>b. b < unat (sb_size (sb s0)) \<Longrightarrow> \<not> used v (sb s0) b \<Longrightarrow> of_nat b \<notin> ran H"
    and n: "\<And>b. b < unat (sb_size (sb s0)) \<Longrightarrow> card (dom H) + card (insert (BBLOCK (of_nat b) (sb s0)) L) + 1 < NBUF"
    and found: "\<And>b s'. first_free v (sb s0) = Some b \<Longrightarrow>
      inside s0 H D (allocated b (sb s0) v) (L \<union> {BBLOCK (of_nat b) (sb s0), of_nat b}) s' \<Longrightarrow> wp (f (of_nat b)) Q s'"
    and none: "\<And>c s'. first_free v (sb s0) = None \<Longrightarrow>
      inside (s0\<lparr>console_out := c\<rparr>) H D v L s' \<Longrightarrow> wp (f 0) Q s'"
  shows "wp (kbind (balloc ROOTDEV) f) Q s"
proof -
  let ?n = "(unat (sb_size (sb s0)) + BPB - 1) div BPB"
  let ?bs = "map (\<lambda>k. k * BPB) [0..<?n]"
  have lt: "k * BPB < unat (sb_size (sb s0))" if "k < ?n" for k
    using that less_eq_div_iff_mult_less_eq [of BPB "Suc k" "unat (sb_size (sb s0)) + BPB - 1"] by simp
  have ff: "List.find (\<lambda>b. \<not> used v (sb s0) b) (concat (map (span (sb s0)) ?bs)) = first_free v (sb s0)"
  proof -
    have "unat (sb_size (sb s0)) < Suc ?n * BPB" using dividend_less_times_div [of BPB "unat (sb_size (sb s0)) + BPB - 1"] by simp
    have "unat (sb_size (sb s0)) \<le> ?n * BPB"
      using dividend_less_times_div [of BPB "unat (sb_size (sb s0)) + BPB - 1"] by simp
    then show ?thesis unfolding span_list first_free_def by (simp add: min_absorb2)
  qed
  have "wp (kbind (balloc_from ?bs ROOTDEV) f) Q s"
  proof (rule wp_balloc_from [OF a o ok _ free n])
    fix b assume "b \<in> set ?bs"
    then obtain k where k: "b = k * BPB" "k < ?n" by auto
    then show "b mod BPB = 0 \<and> b < unat (sb_size (sb s0)) \<and> BBLOCK (of_nat b) (sb s0) \<notin> ran H"
      using lt [OF k(2)] bb [of b] by simp
  qed (assumption, assumption, assumption, unfold ff, erule (1) found, erule (1) none)
  then show ?thesis using inside_fields(2) [OF a] by (simp add: balloc_def kbind_assoc)
qed

lemma wp_bfree:
  assumes a: "inside s0 H D v L s" and o: "1 \<le> l_outstanding (klog s0)" and bb: "BBLOCK b (sb s0) \<notin> ran H" and u: "used v (sb s0) (unat b)"
    and n: "card (dom H) + card L + 1 < NBUF"
    and k: "\<And>s'. inside s0 H D (v(BBLOCK b (sb s0) := mark_free (unat (b mod 8192)) (v (BBLOCK b (sb s0)))))
      (insert (BBLOCK b (sb s0)) L) s' \<Longrightarrow> wp m Q s'"
  shows "wp (kthen (bfree ROOTDEV b) m) Q s"
proof -
  let ?B = "BBLOCK b (sb s0)"
  have nd: "x \<notin> D" if "x \<notin> dom H" for x using inside_tx [OF a] that by (auto simp: tx_def)
  have fin: "finite L" using inside_logged [OF a] by (auto simp: logged_blocks_def)
  have nf: "\<not> block_free (v ?B) (unat (b mod 8192))"
    using u by (simp add: used_def unat_mod)
  have spb: "sb s = sb s0" using inside_fields(2) [OF a] .
  show ?thesis
    unfolding bfree_def kthen_kbind
    apply (simp only: wp_bind_basic spb)
    apply (rule wp_bread [OF a bb])
    using n apply simp
    apply (simp only: Let_def kthen_kbind)
    apply (rule wp_buf_data [where blk = ?B], assumption, simp)
    apply (simp only: nf if_False kthen_assoc)
    apply (rule wp_set_buf_data [where blk = ?B], assumption, simp, simp add: inside_length [OF a])
    apply (rule wp_log_write [where blk = ?B], assumption, rule o, simp)
    using n fin apply (simp add: card_insert_if)
    apply (rule wp_brelse [where blk = ?B], assumption, simp, simp)
    using k nd by simp
qed

lemma logged_room: "card (logged_blocks s) + 2 < NBUF \<Longrightarrow> card (insert x (logged_blocks s)) + 1 < NBUF"
  using finite_set [of "take (nat (lh_n (l_lh (klog s)))) (lh_block (l_lh (klog s)))"]
  by (simp add: logged_blocks_def card_insert_if)

text \<open>C5: balloc returns the first block whose bit in the bitmap is clear, sets exactly that bit, fills
the block with zeros and changes no other block; if every bit is set it prints a message, returns 0
and changes nothing. In both cases the call leaves no buffer held.\<close>

theorem balloc_takes_first_free:
  assumes "tx Map.empty {} s" and "1 \<le> l_outstanding (klog s)" and "bitmap_ok (content s) (sb s)"
    and "card (logged_blocks s) + 2 < NBUF"
  shows "case first_free (content s) (sb s) of
      Some b \<Rightarrow> \<exists>s'. balloc ROOTDEV s = Ok (of_nat b) s' \<and> tx Map.empty {} s' \<and> \<not> used (content s) (sb s) b \<and>
        (\<forall>b'<unat (sb_size (sb s)). used (content s') (sb s) b' \<longleftrightarrow> used (content s) (sb s) b' \<or> b' = b) \<and>
        content s' (of_nat b) = replicate BSIZE 0 \<and>
        (\<forall>x. x \<noteq> of_nat b \<longrightarrow> x \<noteq> BBLOCK (of_nat b) (sb s) \<longrightarrow> content s' x = content s x)
    | None \<Rightarrow> \<exists>s'. balloc ROOTDEV s = Ok 0 s' \<and> tx Map.empty {} s' \<and> content s' = content s"
proof (cases "first_free (content s) (sb s)")
  case None
  note sp = logged_room [OF assms(4)]
  have "wp (kbind (balloc ROOTDEV) kret) (\<lambda>r s'. r = 0 \<and> tx Map.empty {} s' \<and> content s' = content s) s"
    by (rule wp_balloc [OF inside_start [OF assms(1)] assms(2,3)]) (use None sp in \<open>auto simp: inside_def\<close>)
  then show ?thesis using None by (simp add: wp_def kbind_eq_Ok)
next
  case (Some b)
  then have b: "b < unat (sb_size (sb s))" "\<not> used (content s) (sb s) b"
    unfolding first_free_def by (auto dest: find_mem)
  have "wp (kbind (balloc ROOTDEV) kret)
      (\<lambda>r s'. r = of_nat b \<and> tx Map.empty {} s' \<and> content s' = allocated b (sb s) (content s)) s"
    by (rule wp_balloc [OF inside_start [OF assms(1)] assms(2,3)]) (use Some logged_room [OF assms(4)] in \<open>auto simp: inside_def\<close>)
  then obtain s' where s': "balloc ROOTDEV s = Ok (of_nat b) s'" "tx Map.empty {} s'"
      "content s' = allocated b (sb s) (content s)"
    by (auto simp: wp_def kbind_eq_Ok)
  then show ?thesis
    using Some b(2) used_allocated [OF assms(3) b _ tx_content_length [OF assms(1)]]
    by (auto simp: allocated_def)
qed


text \<open>A disk of 100 blocks whose bitmap, block 45, marks only itself.\<close>

definition bitmap_disk :: "u32 \<Rightarrow> block" where
  "bitmap_disk = (\<lambda>_. replicate BSIZE 0)(45 := (replicate BSIZE 0)[5 := 32])"

definition bitmap_sb :: superblock where
  "bitmap_sb = superblock0\<lparr>sb_size := 100, sb_bmapstart := 45\<rparr>"

lemma bitmap_sample:
  "b < 100 \<Longrightarrow> used bitmap_disk bitmap_sb b \<longleftrightarrow> b = 45" "bitmap_ok bitmap_disk bitmap_sb"
  "length (bitmap_disk x) = BSIZE"
proof -
  have bb: "BBLOCK (of_nat b) bitmap_sb = 45" if "b < 100" for b
    using that BBLOCK_same [of b 0 bitmap_sb] by (simp add: BBLOCK_def bitmap_sb_def)
  show u: "used bitmap_disk bitmap_sb b \<longleftrightarrow> b = 45" if "b < 100" for b
  proof (cases "b div 8 = 5")
    case True
    have "bit (32 :: u8) n \<longleftrightarrow> n = 5" if "n < 8" for n
      using that bit_exp_iff [where 'a = u8 and m = 5 and n = n] by (auto simp: possible_bit_word)
    moreover have "b mod 8 = 5 \<longleftrightarrow> b = 45" using True by presburger
    ultimately show ?thesis using that True bb [OF that] unfolding used_def block_free_bit bitmap_disk_def by simp
  next
    case False
    then show ?thesis using that bb [OF that] unfolding used_def block_free_bit bitmap_disk_def by auto
  qed
  show "length (bitmap_disk x) = BSIZE" by (simp add: bitmap_disk_def)
  show "bitmap_ok bitmap_disk bitmap_sb"
    unfolding bitmap_ok_def
  proof (intro allI impI)
    fix b b' assume b: "b < unat (sb_size bitmap_sb)" "b' < unat (sb_size bitmap_sb)" "BBLOCK (of_nat b) bitmap_sb = of_nat b'"
    then have "b < 100" "b' < 100" by (simp_all add: bitmap_sb_def)
    moreover from this b(3) have "unat (of_nat b' :: u32) = unat (45 :: u32)" using bb by simp
    ultimately show "used bitmap_disk bitmap_sb b'" using u by (simp add: unat_of_nat take_bit_nat_eq_self)
  qed
qed

theorem balloc_takes_first_free_witness:
  "\<exists>s'. balloc ROOTDEV (started_tx bitmap_disk bitmap_sb) = Ok 0 s' \<and> used (content s') bitmap_sb 0"
proof -
  note st = started_tx [where d = bitmap_disk and sp = bitmap_sb, OF bitmap_sample(3)]
  have "first_free bitmap_disk bitmap_sb = Some 0"
    using bitmap_sample(1) [of 0] by (simp add: first_free_def bitmap_sb_def upt_rec)
  then show ?thesis
    using balloc_takes_first_free [OF st(1)] bitmap_sample(2) unfolding st(2-5)
    by (auto simp: bitmap_sb_def)
qed


lemma unat_div_BPB: "unat (b div 8192 :: u32) = unat b div BPB"
  by (simp add: unat_div)

text \<open>C6: bfree clears the bit of the block and changes nothing else; freeing the same block a second
time, or any block whose bit is clear, panics with \<open>freeing free block\<close>.\<close>

theorem bfree_rejects_double_free:
  assumes "tx Map.empty {} s" and "1 \<le> l_outstanding (klog s)" and "card (logged_blocks s) + 1 < NBUF" and "used (content s) (sb s) (unat b)"
  shows "\<exists>s'. bfree ROOTDEV b s = Ok () s' \<and> tx Map.empty {} s' \<and> \<not> used (content s') (sb s) (unat b) \<and>
    (\<forall>b'. b' \<noteq> b \<longrightarrow> used (content s') (sb s) (unat b') = used (content s) (sb s) (unat b')) \<and>
    (card (logged_blocks s) + 2 < NBUF \<longrightarrow> bfree ROOTDEV b s' = Panic ''freeing free block'')"
proof -
  let ?B = "BBLOCK b (sb s)"
  let ?v = "(content s)(?B := mark_free (unat (b mod 8192)) (content s ?B))"
  have "wp (kthen (bfree ROOTDEV b) (kret ())) (\<lambda>_ s'. inside s Map.empty {} ?v (insert ?B (logged_blocks s)) s') s"
    by (rule wp_bfree [OF inside_start [OF assms(1)] assms(2)]) (use assms(3,4) in simp_all)
  then obtain s' where s': "bfree ROOTDEV b s = Ok () s'" "inside s Map.empty {} ?v (insert ?B (logged_blocks s)) s'"
    by (auto simp: wp_def kthen_eq_Ok)
  have len: "unat (b mod 8192) div 8 < length (content s ?B)"
    using tx_content_length [OF assms(1)] by (simp add: unat_mod)
  have u: "used ?v (sb s) (unat b') \<longleftrightarrow> used (content s) (sb s) (unat b') \<and> b' \<noteq> b" for b'
  proof -
    have "unat b' mod BPB = unat (b mod 8192) \<and> BBLOCK b' (sb s) = ?B \<longleftrightarrow> b' = b"
    proof
      assume "unat b' mod BPB = unat (b mod 8192) \<and> BBLOCK b' (sb s) = ?B"
      then have "unat b' mod BPB = unat b mod BPB" "b' div 8192 = b div 8192" by (simp_all add: unat_mod BBLOCK_def)
      moreover from this have "unat b' div BPB = unat b div BPB" by (metis unat_div_BPB)
      ultimately have "unat b' = unat b" by (metis div_mult_mod_eq)
      then show "b' = b" by (simp add: word_unat_eq_iff)
    qed (simp add: unat_mod)
    then show ?thesis using len unfolding used_def by (auto simp: block_free_marked)
  qed
  have v: "content s' = ?v" and sb': "sb s' = sb s" and t': "tx Map.empty {} s'"
    using inside_content [OF s'(2)] inside_fields(2) [OF s'(2)] inside_tx [OF s'(2)] by auto
  have "bfree ROOTDEV b s' = Panic ''freeing free block''" if n: "card (logged_blocks s) + 2 < NBUF"
  proof -
    have "finite (logged_blocks s)" by (simp add: logged_blocks_def)
    then have "card (dom (Map.empty :: nat \<rightharpoonup> u32)) + card (logged_blocks s') < NBUF"
      using n inside_logged [OF s'(2)] by (simp add: card_insert_if)
    then obtain bp t where t: "bread ROOTDEV ?B s' = Ok bp t" "tx [bp \<mapsto> ?B] {} t" "content t = content s'"
      using tx_bread [OF t', of ?B] by auto
    have "block_free (content t ?B) (unat (b mod 8192))"
      using u [of b] v t(3) by (simp add: used_def unat_mod)
    then show ?thesis
      using t(1) tx_buf_data [OF t(2), of bp ?B] by (simp add: bfree_def sb' kbind_def Let_def)
  qed
  then show ?thesis using s'(1) t' u v by auto
qed


theorem bfree_rejects_double_free_witness:
  "\<exists>s'. bfree ROOTDEV 45 (started_tx bitmap_disk bitmap_sb) = Ok () s' \<and>
    bfree ROOTDEV 45 s' = Panic ''freeing free block''"
proof -
  note st = started_tx [where d = bitmap_disk and sp = bitmap_sb, OF bitmap_sample(3)]
  have "used bitmap_disk bitmap_sb (unat (45 :: u32))" using bitmap_sample(1) [of 45] by simp
  then show ?thesis
    using bfree_rejects_double_free [OF st(1), of 45] unfolding st(2-5) by auto
qed

end
