(* ===== verification/Xv6_Contents.thy ===== *)
theory Xv6_Contents
  imports Xv6_Bitmap
begin

text \<open>
  The contents of files: bmap, readi and writei of kernel/fs.c, seen from outside as an array of
  bytes. The data of an inode is in the blocks its 12 direct addresses and its indirect block
  name.
\<close>

section \<open>The blocks of an inode\<close>

abbreviation (input) MAXFILE :: nat where "MAXFILE \<equiv> 268"

definition addr_at :: "(u32 \<Rightarrow> block) \<Rightarrow> u32 list \<Rightarrow> nat \<Rightarrow> u32" where
  "addr_at v as bn = (if bn < NDIRECT then as ! bn
     else if as ! NDIRECT = 0 then 0 else get32 (v (as ! NDIRECT)) (4 * (bn - NDIRECT)))"

definition ind_blocks :: "u32 list \<Rightarrow> u32 set" where
  "ind_blocks as = {as ! NDIRECT} - {0}"

definition file_blocks :: "(u32 \<Rightarrow> block) \<Rightarrow> u32 list \<Rightarrow> u32 set" where
  "file_blocks v as = addr_at v as ` {..<MAXFILE} - {0} \<union> ind_blocks as"

text \<open>
  The file system: one bitmap block (mkfs makes images of at most 8192 blocks), which marks itself,
  block 0 and the blocks of inodes as used.
\<close>

definition fs_ok :: "superblock \<Rightarrow> (u32 \<Rightarrow> block) \<Rightarrow> bool" where
  "fs_ok sp v \<longleftrightarrow> unat (sb_size sp) \<le> BPB \<and> bitmap_ok v sp \<and> used v sp 0 \<and> unat (sb_bmapstart sp) < unat (sb_size sp) \<and>
     (\<forall>x. length (v x) = BSIZE) \<and>
     (\<forall>inum < sb_ninodes sp. unat (IBLOCK inum sp) < unat (sb_size sp) \<and> used v sp (unat (IBLOCK inum sp)) \<and>
        IBLOCK inum sp \<noteq> sb_bmapstart sp)"

text \<open>The blocks of one file are distinct, in use and not those of the bitmap or of inodes.\<close>

definition file_ok :: "superblock \<Rightarrow> (u32 \<Rightarrow> block) \<Rightarrow> u32 list \<Rightarrow> bool" where
  "file_ok sp v as \<longleftrightarrow> length as = NDIRECT + 1 \<and>
     (\<forall>j<MAXFILE. \<forall>j'<MAXFILE. addr_at v as j \<noteq> 0 \<longrightarrow> addr_at v as j = addr_at v as j' \<longrightarrow> j = j') \<and>
     (\<forall>j<MAXFILE. addr_at v as j \<notin> ind_blocks as) \<and>
     (\<forall>x\<in>file_blocks v as. unat x < unat (sb_size sp) \<and> used v sp (unat x) \<and> x \<noteq> sb_bmapstart sp \<and>
        (\<forall>inum < sb_ninodes sp. x \<noteq> IBLOCK inum sp))"

lemma addr_in_file: "j < MAXFILE \<Longrightarrow> addr_at v as j \<noteq> 0 \<Longrightarrow> addr_at v as j \<in> file_blocks v as"
  by (auto simp: file_blocks_def)

lemma ind_in_file: "as ! NDIRECT \<noteq> 0 \<Longrightarrow> as ! NDIRECT \<in> file_blocks v as"
  by (auto simp: file_blocks_def ind_blocks_def)

lemma BBLOCK_one: "unat (sb_size sp) \<le> BPB \<Longrightarrow> b < unat (sb_size sp) \<Longrightarrow> BBLOCK (of_nat b) sp = sb_bmapstart sp"
  using BBLOCK_same [of b 0 sp] by (simp add: BBLOCK_def)

text \<open>A block balloc can return is none of the blocks in use.\<close>

lemma fresh_block:
  assumes fs: "fs_ok sp v" and b: "first_free v sp = Some b"
  shows "b < unat (sb_size sp)" "\<not> used v sp b" "unat (of_nat b :: u32) = b" "of_nat b \<noteq> (0 :: u32)"
    "of_nat b \<noteq> sb_bmapstart sp" "inum < sb_ninodes sp \<Longrightarrow> of_nat b \<noteq> IBLOCK inum sp" "BBLOCK (of_nat b) sp = sb_bmapstart sp"
    "file_ok sp v as \<Longrightarrow> of_nat b \<notin> file_blocks v as"
proof -
  show 1: "b < unat (sb_size sp)" "\<not> used v sp b"
    using b unfolding first_free_def by (auto dest: find_mem)
  show 2: "unat (of_nat b :: u32) = b"
    using 1 unat_bounds(3) [of "sb_size sp"] by (intro unat_of_nat_small) simp
  have neq: "of_nat b \<noteq> x" if "used v sp (unat x)" for x :: u32 using that 1(2) 2 by auto
  show BB: "BBLOCK (of_nat b) sp = sb_bmapstart sp" using fs 1(1) by (auto simp: fs_ok_def intro: BBLOCK_one)
  have "used v sp (unat (sb_bmapstart sp))"
    using fs BB 1(1) unfolding fs_ok_def bitmap_ok_def
    by (auto dest!: spec [of _ b] spec [of _ "unat (sb_bmapstart sp)"])
  then show "of_nat b \<noteq> sb_bmapstart sp" by (rule neq)
  show "of_nat b \<noteq> (0 :: u32)" using fs by (intro neq) (simp add: fs_ok_def)
  show "of_nat b \<noteq> IBLOCK inum sp" if "inum < sb_ninodes sp" using fs that by (intro neq) (simp add: fs_ok_def)
  show "of_nat b \<notin> file_blocks v as" if "file_ok sp v as"
    using that neq [of "of_nat b"] unfolding file_ok_def by blast
qed

text \<open>What an allocation keeps.\<close>

lemma alloc_facts:
  assumes fs: "fs_ok sp v" and b: "first_free v sp = Some b"
  shows "fs_ok sp (allocated b sp v)"
    "x \<noteq> of_nat b \<Longrightarrow> x \<noteq> sb_bmapstart sp \<Longrightarrow> allocated b sp v x = v x"
    "allocated b sp v (of_nat b) = replicate BSIZE 0"
    "c < unat (sb_size sp) \<Longrightarrow> used (allocated b sp v) sp c \<longleftrightarrow> used v sp c \<or> c = b"
proof -
  note f = fresh_block [OF fs b]
  have len: "length (v x) = BSIZE" for x using fs by (simp add: fs_ok_def)
  have ok: "bitmap_ok v sp" using fs by (simp add: fs_ok_def)
  show u: "used (allocated b sp v) sp c \<longleftrightarrow> used v sp c \<or> c = b" if "c < unat (sb_size sp)" for c
    using used_allocated [OF ok f(1,2) that len] .
  show "fs_ok sp (allocated b sp v)"
    using fs u bitmap_ok_allocated [OF ok f(1,2) len] by (auto simp: fs_ok_def allocated_def)
  show "allocated b sp v x = v x" if "x \<noteq> of_nat b" "x \<noteq> sb_bmapstart sp" using that f(7) by (simp add: allocated_def)
  show "allocated b sp v (of_nat b) = replicate BSIZE 0" by (simp add: allocated_def)
qed

section \<open>Growing a file by a block\<close>

text \<open>
  What bmap may do when asked for block \<open>bn\<close>: the blocks the file had are where they were, with the
  same data; a new block is zero; no other block in use changes.
\<close>

definition fresh_blocks :: "superblock \<Rightarrow> (u32 \<Rightarrow> block) \<Rightarrow> u32 set" where
  "fresh_blocks sp v = {x. unat x < unat (sb_size sp) \<and> \<not> used v sp (unat x)}"

definition grown :: "superblock \<Rightarrow> nat \<Rightarrow> (u32 \<Rightarrow> block) \<Rightarrow> u32 list \<Rightarrow> (u32 \<Rightarrow> block) \<Rightarrow> u32 list \<Rightarrow> u32 \<Rightarrow> bool" where
  "grown sp bn v as v' as' a \<longleftrightarrow> fs_ok sp v' \<and> file_ok sp v' as' \<and> (a \<noteq> 0 \<longrightarrow> addr_at v' as' bn = a) \<and>
     (\<forall>j<MAXFILE. addr_at v as j \<noteq> 0 \<longrightarrow> addr_at v' as' j = addr_at v as j \<and> v' (addr_at v as j) = v (addr_at v as j)) \<and>
     (\<forall>j<MAXFILE. addr_at v as j = 0 \<longrightarrow> j \<noteq> bn \<or> a = 0 \<longrightarrow> addr_at v' as' j = 0) \<and>
     (a \<noteq> 0 \<longrightarrow> addr_at v as bn = 0 \<longrightarrow> v' a = replicate BSIZE 0) \<and>
     (as ! NDIRECT \<noteq> 0 \<longrightarrow> as' ! NDIRECT = as ! NDIRECT) \<and>
     file_blocks v' as' \<subseteq> file_blocks v as \<union> fresh_blocks sp v \<and>
     (\<forall>x. unat x < unat (sb_size sp) \<longrightarrow> used v sp (unat x) \<longrightarrow> used v' sp (unat x) \<and>
        (x \<noteq> sb_bmapstart sp \<longrightarrow> x \<notin> ind_blocks as \<longrightarrow> v' x = v x))"

lemma grownD:
  assumes "grown sp bn v as v' as' a"
  shows "fs_ok sp v'" "file_ok sp v' as'" "a \<noteq> 0 \<Longrightarrow> addr_at v' as' bn = a"
    "j < MAXFILE \<Longrightarrow> addr_at v as j \<noteq> 0 \<Longrightarrow> addr_at v' as' j = addr_at v as j"
    "j < MAXFILE \<Longrightarrow> addr_at v as j \<noteq> 0 \<Longrightarrow> v' (addr_at v as j) = v (addr_at v as j)"
    "j < MAXFILE \<Longrightarrow> addr_at v as j = 0 \<Longrightarrow> j \<noteq> bn \<or> a = 0 \<Longrightarrow> addr_at v' as' j = 0"
    "a \<noteq> 0 \<Longrightarrow> addr_at v as bn = 0 \<Longrightarrow> v' a = replicate BSIZE 0"
    "as ! NDIRECT \<noteq> 0 \<Longrightarrow> as' ! NDIRECT = as ! NDIRECT"
    "unat x < unat (sb_size sp) \<Longrightarrow> used v sp (unat x) \<Longrightarrow> used v' sp (unat x)"
    "unat x < unat (sb_size sp) \<Longrightarrow> used v sp (unat x) \<Longrightarrow> x \<noteq> sb_bmapstart sp \<Longrightarrow> x \<notin> ind_blocks as \<Longrightarrow> v' x = v x"
    "file_blocks v' as' \<subseteq> file_blocks v as \<union> fresh_blocks sp v"
  using assms unfolding grown_def by blast+

lemma grown_refl:
  assumes "fs_ok sp v" "file_ok sp v as" "a = 0 \<or> a = addr_at v as bn"
  shows "grown sp bn v as v as a"
  using assms by (auto simp: grown_def)

lemma grown_trans:
  assumes bn: "bn < MAXFILE" and g: "grown sp bn v as v1 as1 0" and h: "grown sp bn v1 as1 v2 as2 a"
    and ind: "as ! NDIRECT \<noteq> 0 \<or> as1 ! NDIRECT = 0 \<or> \<not> used v sp (unat (as1 ! NDIRECT))"
  shows "grown sp bn v as v2 as2 a"
proof -
  note G = grownD [OF g] and H = grownD [OF h]
  have i: "x \<notin> ind_blocks as1" if "x \<notin> ind_blocks as" "used v sp (unat x)" for x
    using that G(8) ind by (auto simp: ind_blocks_def)
  show ?thesis
    unfolding grown_def
  proof (intro conjI allI impI)
    fix j assume j: "j < MAXFILE" "addr_at v as j \<noteq> 0"
    show "addr_at v2 as2 j = addr_at v as j" "v2 (addr_at v as j) = v (addr_at v as j)"
      using G(4,5) [OF j] H(4,5) [of j] j by simp_all
  next
    fix j assume j: "j < MAXFILE" "addr_at v as j = 0" "j \<noteq> bn \<or> a = 0"
    then show "addr_at v2 as2 j = 0" using G(6) [OF j(1,2)] H(6) [of j] by simp
  next
    assume "a \<noteq> 0" "addr_at v as bn = 0"
    then show "v2 a = replicate BSIZE 0" using G(6) [OF bn] H(7) by simp
  next
    assume "as ! NDIRECT \<noteq> 0"
    then show "as2 ! NDIRECT = as ! NDIRECT" using G(8) H(8) by simp
  next
    fix x :: u32 assume x: "unat x < unat (sb_size sp)" "used v sp (unat x)"
    show "used v2 sp (unat x)" using H(9) [OF x(1) G(9) [OF x]] .
    assume "x \<noteq> sb_bmapstart sp" "x \<notin> ind_blocks as"
    then show "v2 x = v x" using H(10) [OF x(1) G(9) [OF x]] G(10) [OF x] i x(2) by simp
  next
    have "fresh_blocks sp v1 \<subseteq> fresh_blocks sp v" using G(9) by (auto simp: fresh_blocks_def)
    then show "file_blocks v2 as2 \<subseteq> file_blocks v as \<union> fresh_blocks sp v" using G(11) H(11) by blast
  qed (use H(1-3) in auto)
qed

text \<open>A change of the contents that keeps the addresses and the blocks in use keeps the file well-formed.\<close>

lemma file_ok_same:
  assumes ok: "file_ok sp v as" and a: "\<And>j. j < MAXFILE \<Longrightarrow> addr_at v' as j = addr_at v as j"
    and u: "\<And>x. x \<in> file_blocks v as \<Longrightarrow> used v' sp (unat x)"
  shows "file_ok sp v' as" "file_blocks v' as = file_blocks v as"
proof -
  show fb: "file_blocks v' as = file_blocks v as" using a by (auto simp: file_blocks_def)
  show "file_ok sp v' as" unfolding file_ok_def fb using ok u a by (auto simp: file_ok_def)
qed

text \<open>The file gets one more block, at \<open>bn\<close>: in a direct slot or in the indirect block.\<close>

lemma file_ok_insert:
  assumes fs: "fs_ok sp v" and ok: "file_ok sp v as" and b: "first_free v sp = Some b" and bn: "bn < MAXFILE"
    and addr: "\<And>j. j < MAXFILE \<Longrightarrow> addr_at v' as' j = (if j = bn then of_nat b else addr_at v as j)"
    and zero: "addr_at v as bn = 0" and ind: "ind_blocks as' = ind_blocks as" "length as' = NDIRECT + 1"
    and u: "\<And>c. c < unat (sb_size sp) \<Longrightarrow> used v sp c \<or> c = b \<Longrightarrow> used v' sp c"
  shows "file_ok sp v' as'" "file_blocks v' as' \<subseteq> file_blocks v as \<union> fresh_blocks sp v"
proof -
  note f = fresh_block [OF fs b]
  have nf: "of_nat b \<notin> file_blocks v as" using f(8) [OF ok] .
  have fb: "file_blocks v' as' = insert (of_nat b) (file_blocks v as)"
    using addr bn zero f(4) by (auto simp: file_blocks_def ind)
  then show "file_blocks v' as' \<subseteq> file_blocks v as \<union> fresh_blocks sp v" using f(1-3) by (auto simp: fresh_blocks_def)
  show "file_ok sp v' as'"
    unfolding file_ok_def fb ind
  proof (intro conjI ballI allI impI)
    fix j j' assume j: "j < MAXFILE" "j' < MAXFILE" "addr_at v' as' j \<noteq> 0" "addr_at v' as' j = addr_at v' as' j'"
    have "addr_at v as i \<noteq> of_nat b" if "i < MAXFILE" for i using addr_in_file [OF that, of v as] nf f(4) by auto
    then show "j = j'" using j addr ok unfolding file_ok_def by (auto split: if_splits)
  next
    fix j assume "j < MAXFILE"
    then show "addr_at v' as' j \<notin> ind_blocks as"
      using addr [of j] ok nf by (auto simp: file_ok_def file_blocks_def)
  next
    fix x assume x: "x \<in> insert (of_nat b) (file_blocks v as)"
    show "unat x < unat (sb_size sp)" "used v' sp (unat x)" "x \<noteq> sb_bmapstart sp"
      using x f u ok by (auto simp: file_ok_def)
    show "x \<noteq> IBLOCK inum sp" if "inum < sb_ninodes sp" for inum using x f(6) [OF that] ok that by (auto simp: file_ok_def)
  qed simp
qed

lemma alloc_keep:
  assumes fs: "fs_ok sp v" and ok: "file_ok sp v as" and b: "first_free v sp = Some b"
  shows "x \<in> file_blocks v as \<Longrightarrow> allocated b sp v x = v x"
    "used v sp (unat x) \<Longrightarrow> x \<noteq> sb_bmapstart sp \<Longrightarrow> allocated b sp v x = v x"
proof -
  note f = fresh_block [OF fs b] and A = alloc_facts [OF fs b]
  show "allocated b sp v x = v x" if "x \<in> file_blocks v as"
    using that f(8) [OF ok] ok A(2) [of x] by (auto simp: file_ok_def)
  show "allocated b sp v x = v x" if "used v sp (unat x)" "x \<noteq> sb_bmapstart sp"
    using that f(2,3) by (intro A(2)) auto
qed

lemma grown_direct:
  assumes fs: "fs_ok sp v" and ok: "file_ok sp v as" and b: "first_free v sp = Some b"
    and bn: "bn < NDIRECT" "as ! bn = 0"
  shows "grown sp bn v as (allocated b sp v) (as[bn := of_nat b]) (of_nat b)"
proof -
  note f = fresh_block [OF fs b] and A = alloc_facts [OF fs b] and K = alloc_keep [OF fs ok b]
  let ?v = "allocated b sp v" and ?as = "as[bn := of_nat b]"
  have len: "length as = NDIRECT + 1" using ok by (simp add: file_ok_def)
  have ind: "?as ! NDIRECT = as ! NDIRECT" "ind_blocks ?as = ind_blocks as" using bn by (simp_all add: ind_blocks_def)
  have addr: "addr_at ?v ?as j = (if j = bn then of_nat b else addr_at v as j)" if "j < MAXFILE" for j
    using that bn len ind K(1) [OF ind_in_file] by (simp add: addr_at_def)
  have z: "addr_at v as bn = 0" using bn by (simp add: addr_at_def)
  have "file_ok sp ?v ?as" "file_blocks ?v ?as \<subseteq> file_blocks v as \<union> fresh_blocks sp v"
    by (rule file_ok_insert [OF fs ok b _ addr z ind(2)]; use bn len A(4) in auto)+
  then show ?thesis
    unfolding grown_def using A addr K addr_in_file [of _ v as] ind f(3) bn z by auto
qed

lemma get32_zero: "off + 4 \<le> n \<Longrightarrow> get32 (replicate n 0) off = 0"
  by (simp add: get32_def slice_def le_word_zero)

text \<open>An empty indirect block is added: the file still has the same data.\<close>

lemma grown_ind:
  assumes fs: "fs_ok sp v" and ok: "file_ok sp v as" and b: "first_free v sp = Some b" and z: "as ! NDIRECT = 0"
  shows "grown sp bn v as (allocated b sp v) (as[NDIRECT := of_nat b]) 0"
proof -
  note f = fresh_block [OF fs b] and A = alloc_facts [OF fs b] and K = alloc_keep [OF fs ok b]
  let ?v = "allocated b sp v" and ?as = "as[NDIRECT := of_nat b]"
  have len: "length as = NDIRECT + 1" using ok by (simp add: file_ok_def)
  have ind: "?as ! NDIRECT = of_nat b" "ind_blocks ?as = {of_nat b}" "ind_blocks as = {}"
    using len z f(4) by (simp_all add: ind_blocks_def)
  have addr: "addr_at ?v ?as j = addr_at v as j" if "j < MAXFILE" for j
    using that len z f(4) A(3) by (auto simp: addr_at_def get32_zero)
  have fb: "file_blocks ?v ?as = insert (of_nat b) (file_blocks v as)"
    using addr by (auto simp: file_blocks_def ind)
  have "file_ok sp ?v ?as"
    unfolding file_ok_def fb ind
  proof (intro conjI ballI allI impI)
    fix j assume j: "j < MAXFILE"
    then show "addr_at ?v ?as j \<notin> {of_nat b}"
      using addr [OF j] addr_in_file [OF j, of v as] f(8) [OF ok] f(4) by auto
  next
    fix j j' assume "j < MAXFILE" "j' < MAXFILE" "addr_at ?v ?as j \<noteq> 0" "addr_at ?v ?as j = addr_at ?v ?as j'"
    then show "j = j'" using addr ok unfolding file_ok_def by auto
  next
    fix x assume x: "x \<in> insert (of_nat b) (file_blocks v as)"
    show "unat x < unat (sb_size sp)" "used ?v sp (unat x)" "x \<noteq> sb_bmapstart sp"
      using x f A(4) ok by (auto simp: file_ok_def)
    show "x \<noteq> IBLOCK inum sp" if "inum < sb_ninodes sp" for inum using x f(6) [OF that] ok that by (auto simp: file_ok_def)
  qed (use len in simp)
  moreover have "file_blocks ?v ?as \<subseteq> file_blocks v as \<union> fresh_blocks sp v"
    using f(1-3) by (auto simp: fb fresh_blocks_def)
  ultimately show ?thesis
    unfolding grown_def using A addr K addr_in_file [of _ v as] ind f(3) z by auto
qed

lemma grown_indirect:
  assumes fs: "fs_ok sp v" and ok: "file_ok sp v as" and b: "first_free v sp = Some b"
    and bn: "NDIRECT \<le> bn" "bn < MAXFILE" and i: "as ! NDIRECT \<noteq> 0" and z: "addr_at v as bn = 0"
  shows "grown sp bn v as ((allocated b sp v)(as ! NDIRECT := put32 (4 * (bn - NDIRECT)) (of_nat b) (v (as ! NDIRECT)))) as (of_nat b)"
proof -
  note f = fresh_block [OF fs b] and A = alloc_facts [OF fs b] and K = alloc_keep [OF fs ok b]
  let ?I = "as ! NDIRECT"
  let ?v = "(allocated b sp v)(?I := put32 (4 * (bn - NDIRECT)) (of_nat b) (v ?I))"
  have len: "length as = NDIRECT + 1" "length (v ?I) = BSIZE" using ok fs by (simp_all add: file_ok_def fs_ok_def)
  have I: "?I \<in> file_blocks v as" using i by (rule ind_in_file)
  have Ib: "?I \<noteq> sb_bmapstart sp" "?I \<noteq> of_nat b" using I ok f(8) [OF ok] by (auto simp: file_ok_def)
  have addr: "addr_at ?v as j = (if j = bn then of_nat b else addr_at v as j)" if "j < MAXFILE" for j
  proof (cases "NDIRECT \<le> j \<and> j \<noteq> bn")
    case True
    have "4 * (j - NDIRECT) + 4 \<le> 4 * (bn - NDIRECT) \<or> 4 * (bn - NDIRECT) + 4 \<le> 4 * (j - NDIRECT)"
      using True bn by arith
    then have "get32 (put32 (4 * (bn - NDIRECT)) (of_nat b) (v ?I)) (4 * (j - NDIRECT)) = get32 (v ?I) (4 * (j - NDIRECT))"
      using that bn len by (intro get_put_other(4)) simp_all
    then show ?thesis using True i by (simp add: addr_at_def)
  next
    case False
    then consider "j < NDIRECT" | "j = bn" by linarith
    then show ?thesis using bn i len by cases (simp_all add: addr_at_def)
  qed
  have us: "used ?v sp c \<longleftrightarrow> used (allocated b sp v) sp c" if "c < unat (sb_size sp)" for c
    using fs that Ib(1) BBLOCK_one [of sp c] by (simp add: used_def fs_ok_def)
  have fok: "file_ok sp ?v as" "file_blocks ?v as \<subseteq> file_blocks v as \<union> fresh_blocks sp v"
    by (rule file_ok_insert [OF fs ok b bn(2) addr z]; use len us A(4) in auto)+
  have "bitmap_ok ?v sp" using A(1) us unfolding fs_ok_def bitmap_ok_def by simp
  moreover have "length (?v x) = BSIZE" for x using A(1) len(2) bn by (simp add: fs_ok_def)
  moreover have "used ?v sp 0" using A(1) us [of 0] by (auto simp: fs_ok_def)
  ultimately have fs': "fs_ok sp ?v" using A(1) us unfolding fs_ok_def by auto
  have keep: "?v (addr_at v as j) = v (addr_at v as j)" if "j < MAXFILE" "addr_at v as j \<noteq> 0" for j
  proof -
    have "addr_at v as j \<noteq> ?I" using ok that i by (auto simp: file_ok_def ind_blocks_def)
    then show ?thesis using K(1) [OF addr_in_file [OF that]] by simp
  qed
  show ?thesis
    unfolding grown_def
  proof (intro conjI allI impI)
    fix x :: u32 assume x: "unat x < unat (sb_size sp)" "used v sp (unat x)"
    show "used ?v sp (unat x)" using us [OF x(1)] A(4) [OF x(1)] x(2) by simp
    assume "x \<noteq> sb_bmapstart sp" "x \<notin> ind_blocks as"
    then show "?v x = v x" using K(2) [OF x(2)] i by (auto simp: ind_blocks_def)
  qed (use fs' fok addr keep bn z f(4) A(3) Ib in auto)
qed

section \<open>bmap\<close>

lemma kbind_kret [simp]: "kbind (kret a) f = f a"
  by (rule ext) simp

text \<open>The start state with other addresses in inode \<open>ip\<close> and other console output.\<close>

definition with_addrs :: "nat \<Rightarrow> u32 list \<Rightarrow> string \<Rightarrow> kstate \<Rightarrow> kstate" where
  "with_addrs ip as c s = s\<lparr>itable := (itable s)[ip := (itable s ! ip)\<lparr>i_addrs := as\<rparr>], console_out := c\<rparr>"


lemma with_addrs_simps [simp]:
  "sb (with_addrs ip as c s) = sb s" "klog (with_addrs ip as c s) = klog s"
  "ip < length (itable s) \<Longrightarrow> itable (with_addrs ip as c s) ! ip = (itable s ! ip)\<lparr>i_addrs := as\<rparr>"
  "length (itable (with_addrs ip as c s)) = length (itable s)"
  "with_addrs ip as' c' (with_addrs ip as c s) = with_addrs ip as' c' s"
  by (simp_all add: with_addrs_def)
    (cases "ip < length (itable s)"; simp add: not_less list_update_beyond)

lemma with_addrs_id: "with_addrs ip (i_addrs (itable s ! ip)) (console_out s) s = s"
  by (cases s) (simp add: with_addrs_def)

lemma inside_with_console:
  "inside (with_addrs ip as c s0) H D v L s \<Longrightarrow> inside (with_addrs ip as c' s0) H D v L (s\<lparr>console_out := c'\<rparr>)"
  using inside_console [of "with_addrs ip as c s0" H D v L s c'] by (simp add: with_addrs_def)

lemma inside_with_addrs:
  assumes a: "inside (with_addrs ip as c s0) H D v L s" and ip: "ip < length (itable s0)"
  shows "inside (with_addrs ip as' c s0) H D v L (itable_update (upd_nth ip (\<lambda>k. k\<lparr>i_addrs := as'\<rparr>)) s)"
proof -
  have it: "itable s = itable (with_addrs ip as c s0)" using inside_fields(3) [OF a] .
  have "itable_update (upd_nth ip (\<lambda>k. k\<lparr>i_addrs := as'\<rparr>)) s = s\<lparr>itable := itable (with_addrs ip as' c s0)\<rparr>"
    using ip it by (cases s) (simp add: with_addrs_def upd_nth_def)
  moreover have "with_addrs ip as' c s0 = (with_addrs ip as c s0)\<lparr>itable := itable (with_addrs ip as' c s0)\<rparr>"
    by (simp add: with_addrs_def)
  ultimately show ?thesis using inside_itable [OF a, of "itable (with_addrs ip as' c s0)"] by metis
qed

lemma wp_addr_or_alloc:
  assumes a: "inside (with_addrs ip as c s0) Map.empty {} v L s"
    and ip: "ip < length (itable s0)" "i_dev (itable s0 ! ip) = ROOTDEV"
    and fs: "fs_ok (sb s0) v" and n: "card (insert (sb_bmapstart (sb s0)) L) + 1 < NBUF" and o: "as ! i = 0 \<Longrightarrow> 1 \<le> l_outstanding (klog s0)"
    and hit: "as ! i \<noteq> 0 \<Longrightarrow> wp (f (as ! i)) Q s"
    and found: "\<And>b s'. as ! i = 0 \<Longrightarrow> first_free v (sb s0) = Some b \<Longrightarrow>
      inside (with_addrs ip (as[i := of_nat b]) c s0) Map.empty {} (allocated b (sb s0) v)
        (L \<union> {sb_bmapstart (sb s0), of_nat b}) s' \<Longrightarrow> wp (f (of_nat b)) Q s'"
    and none: "\<And>c' s'. as ! i = 0 \<Longrightarrow> first_free v (sb s0) = None \<Longrightarrow> inside (with_addrs ip as c' s0) Map.empty {} v L s' \<Longrightarrow> wp (f 0) Q s'"
  shows "wp (kbind (addr_or_alloc ip i) f) Q s"
proof -
  have k: "itable s ! ip = (itable s0 ! ip)\<lparr>i_addrs := as\<rparr>" using inside_fields(3) [OF a] ip by simp
  have ok: "bitmap_ok v (sb s0)" using fs by (simp add: fs_ok_def)
  let ?m = "\<lambda>addr. kbind (if addr = 0 then kret 0
       else kthen (set_inode ip (\<lambda>k. k\<lparr>i_addrs := (i_addrs k)[i := addr]\<rparr>)) (kret addr)) f"
  have "wp (kbind (balloc ROOTDEV) ?m) Q s" if z: "as ! i = 0"
  proof (rule wp_balloc [OF a])
    show "1 \<le> l_outstanding (klog (with_addrs ip as c s0))" using o z by simp
  next
    fix b s' assume b: "first_free v (sb (with_addrs ip as c s0)) = Some b"
      and s': "inside (with_addrs ip as c s0) Map.empty {} (allocated b (sb (with_addrs ip as c s0)) v)
        (L \<union> {BBLOCK (of_nat b) (sb (with_addrs ip as c s0)), of_nat b}) s'"
    have b': "first_free v (sb s0) = Some b" using b by simp
    note F = fresh_block [OF fs b']
    have ki: "itable s' ! ip = (itable s0 ! ip)\<lparr>i_addrs := as\<rparr>" "ip < length (itable s')"
      using inside_fields(3) [OF s'] ip by simp_all
    have "itable_update (upd_nth ip (\<lambda>k. k\<lparr>i_addrs := (i_addrs k)[i := of_nat b]\<rparr>)) s' =
        itable_update (upd_nth ip (\<lambda>k. k\<lparr>i_addrs := as[i := of_nat b]\<rparr>)) s'"
      using ki by (cases s') (simp add: upd_nth_def)
    then show "wp (?m (of_nat b)) Q s'"
      using found [OF z b'] inside_with_addrs [OF s' ip(1), of "as[i := of_nat b]"] F(4,7)
      by (simp add: kbind_kthen set_inode_def)
  next
    fix c' s' assume "first_free v (sb (with_addrs ip as c s0)) = None"
      "inside ((with_addrs ip as c s0)\<lparr>console_out := c'\<rparr>) Map.empty {} v L s'"
    then show "wp (?m 0) Q s'" using none [OF z, of c' s'] by (simp add: with_addrs_def)
  next
    fix b assume "b < unat (sb_size (sb (with_addrs ip as c s0)))"
    then have "BBLOCK (of_nat b) (sb s0) = sb_bmapstart (sb s0)" using fs by (auto simp: fs_ok_def intro: BBLOCK_one)
    then show "card (dom (Map.empty :: nat \<rightharpoonup> u32)) + card (insert (BBLOCK (of_nat b) (sb (with_addrs ip as c s0))) L) + 1 < NBUF"
      using n by simp
  qed (use ok in simp_all)
  then show ?thesis
    using hit by (simp add: addr_or_alloc_def kbind_assoc get_inode_def k ip kbind_if)
qed


lemma wp_bmap_indirect:
  assumes a: "inside (with_addrs ip as c s0) Map.empty {} v L s"
    and ip: "ip < length (itable s0)" "i_dev (itable s0 ! ip) = ROOTDEV"
    and fs: "fs_ok (sb s0) v" and ok: "file_ok (sb s0) v as" 
    and n: "card (insert (as ! NDIRECT) (insert (sb_bmapstart (sb s0)) L)) + 2 < NBUF"
    and o: "addr_at v as bn = 0 \<Longrightarrow> 1 \<le> l_outstanding (klog s0)"
    and bn: "NDIRECT \<le> bn" "bn < MAXFILE" and I: "as ! NDIRECT \<noteq> 0"
    and k: "\<And>x v' c' L' s'. grown (sb s0) bn v as v' as x \<Longrightarrow>
      L' \<subseteq> L \<union> {sb_bmapstart (sb s0)} \<union> ind_blocks as \<union> ({x} - {0}) \<Longrightarrow>
      (addr_at v as bn \<noteq> 0 \<Longrightarrow> x = addr_at v as bn \<and> v' = v \<and> L' = L) \<Longrightarrow>
      (x = 0 \<Longrightarrow> first_free v' (sb s0) = None) \<Longrightarrow>
      inside (with_addrs ip as c' s0) Map.empty {} v' L' s' \<Longrightarrow> wp (f x) Q s'"
  shows "wp (kbind (kbind (get_inode ip) (\<lambda>k. kbind (bread (i_dev k) (as ! NDIRECT)) (\<lambda>bp. kbind (buf_data bp) (\<lambda>a.
            if get32 a (4 * (bn - NDIRECT)) = 0
            then kbind (balloc (i_dev k)) (\<lambda>addr.
              kthen (kwhen (addr \<noteq> 0)
                (kthen (set_buf_data bp (put32 (4 * (bn - NDIRECT)) addr)) (log_write bp)))
              (kthen (brelse bp) (kret addr)))
            else kthen (brelse bp) (kret (get32 a (4 * (bn - NDIRECT)))))))) f) Q s"
proof -
  let ?I = "as ! NDIRECT" and ?sp = "sb s0" and ?s0 = "with_addrs ip as c s0"
  have kk: "itable s ! ip = (itable s0 ! ip)\<lparr>i_addrs := as\<rparr>" using inside_fields(3) [OF a] ip by simp
  have addr: "addr_at v as bn = get32 (v ?I) (4 * (bn - NDIRECT))" using bn I by (simp add: addr_at_def)
  have fb: "?I \<in> file_blocks v as" using I by (rule ind_in_file)
  then have uI: "used v ?sp (unat ?I)" "?I \<noteq> sb_bmapstart ?sp" using ok by (auto simp: file_ok_def)
  have fin: "finite L" using inside_logged [OF a] by (auto simp: logged_blocks_def)
  have one: "unat (sb_size ?sp) \<le> BPB" using fs by (simp add: fs_ok_def)
  have c0: "card (insert (sb_bmapstart ?sp) L) \<le> card (insert ?I (insert (sb_bmapstart ?sp) L))"
    "card L \<le> card (insert ?I (insert (sb_bmapstart ?sp) L))"
    using fin by (auto intro!: card_mono)
  have ib: "ind_blocks as = {?I}" using I by (auto simp: ind_blocks_def)
  let ?rest = "\<lambda>bp addr. kthen (kwhen (addr \<noteq> 0)
       (kthen (set_buf_data bp (put32 (4 * (bn - NDIRECT)) addr)) (log_write bp))) (kthen (brelse bp) (f addr))"
  have alloc: "wp (kbind (balloc ROOTDEV) (?rest bp)) Q s'"
    if s': "inside ?s0 [bp \<mapsto> ?I] {} v L s'" and z: "addr_at v as bn = 0" for bp s'
  proof (rule wp_balloc [OF s'])
    show o': "1 \<le> l_outstanding (klog ?s0)" using o z by simp
    fix b s'' assume b: "first_free v (sb ?s0) = Some b"
      and s'': "inside ?s0 [bp \<mapsto> ?I] {} (allocated b (sb ?s0) v) (L \<union> {BBLOCK (of_nat b) (sb ?s0), of_nat b}) s''"
    have b': "first_free v ?sp = Some b" using b by simp
    note F = fresh_block [OF fs b'] and K = alloc_keep [OF fs ok b']
    have ai: "allocated b ?sp v ?I = v ?I" using K(1) [OF fb] .
    note g = grown_indirect [OF fs ok b' bn I z, folded ai]
    have "insert ?I (insert (sb_bmapstart ?sp) (insert (of_nat b) L)) = insert (of_nat b) (insert ?I (insert (sb_bmapstart ?sp) L))"
      by auto
    then have c3: "card (insert ?I (insert (sb_bmapstart ?sp) (insert (of_nat b) L))) \<le> Suc (card (insert ?I (insert (sb_bmapstart ?sp) L)))"
      using fin by (simp only: card_insert_if finite_insert) simp
    have s3: "inside ?s0 [bp \<mapsto> ?I] {} (allocated b ?sp v) (insert (sb_bmapstart ?sp) (insert (of_nat b) L)) s''"
      using s'' F(7) by simp
    have z0: "of_nat b \<noteq> (0 :: u32) \<longleftrightarrow> True" using F(4) by simp
    show "wp (?rest bp (of_nat b)) Q s''"
      unfolding z0 kwhen_simps kthen_assoc
      apply (rule wp_set_buf_data [OF s3], simp)
      using inside_length [OF s3] bn apply simp
      apply (rule wp_log_write [where blk = ?I], assumption, use o z in simp, simp)
      using c3 n apply simp
      apply (rule wp_brelse [where blk = ?I], assumption, simp, simp)
      apply (rule k [OF g, where L' = "insert ?I (insert (sb_bmapstart ?sp) (insert (of_nat b) L))" and c' = c])
      using ib F(4) z by auto
  next
    fix c' s'' assume ff: "first_free v (sb ?s0) = None" and s'': "inside (?s0\<lparr>console_out := c'\<rparr>) [bp \<mapsto> ?I] {} v L s''"
    have "inside (with_addrs ip as c' s0) [bp \<mapsto> ?I] {} v L s''" using s'' by (simp add: with_addrs_def)
    then show "wp (?rest bp 0) Q s''"
      unfolding simp_thms kwhen_simps
      apply (simp only: wp_bind_basic)
      apply (rule wp_brelse [where blk = ?I], assumption, simp, simp)
      apply (rule k [OF grown_refl [OF fs ok], where L' = L and c' = c'])
      using z ff by auto
  next
    show "of_nat b \<notin> ran [bp \<mapsto> ?I]" if "b < unat (sb_size (sb ?s0))" "\<not> used v (sb ?s0) b" for b
      using that uI(1) unat_of_nat_small [of b, where 'a = 32] unat_bounds(3) [of "sb_size ?sp"] by auto
    show "card (dom [bp \<mapsto> ?I]) + card (insert (BBLOCK (of_nat b) (sb ?s0)) L) + 1 < NBUF" if "b < unat (sb_size (sb ?s0))" for b
      using n c0 BBLOCK_one [OF one, of b] that by simp
  qed (use fs uI one BBLOCK_one in \<open>simp_all add: fs_ok_def\<close>)
  have hit: "wp (kthen (brelse bp) (f (addr_at v as bn))) Q s'"
    if s': "inside ?s0 [bp \<mapsto> ?I] {} v L s'" and nz: "addr_at v as bn \<noteq> 0" for bp s'
  proof (rule wp_brelse [OF s'])
    fix s'' assume "inside ?s0 ([bp \<mapsto> ?I](bp := None)) {} v L s''"
    then show "wp (f (addr_at v as bn)) Q s''" using nz by (intro k [OF grown_refl [OF fs ok]]) auto
  qed simp_all
  have dev: "i_dev ((itable s0 ! ip)\<lparr>i_addrs := as\<rparr>) = ROOTDEV" using ip by simp
  show ?thesis
    apply (simp only: kbind_assoc get_inode_def wp_bind_basic kk)
    apply (simp only: dev)
    apply (rule wp_bread [OF a])
    using n apply simp
    using n c0 apply simp
    apply (rule wp_buf_data [where blk = ?I], assumption, simp)
    apply (simp only: addr [symmetric])
    subgoal for bp s'
      using alloc [of bp s'] hit [of bp s'] by (simp add: kbind_if kbind_assoc kbind_kthen)
    done
qed


lemma wp_bmap:
  assumes a: "inside (with_addrs ip as c s0) Map.empty {} v L s"
    and ip: "ip < length (itable s0)" "i_dev (itable s0 ! ip) = ROOTDEV"
    and fs: "fs_ok (sb s0) v" and ok: "file_ok (sb s0) v as" 
    and n: "card (L \<union> {sb_bmapstart (sb s0)} \<union> ind_blocks as) + 3 < NBUF"
    and o: "addr_at v as (unat b) = 0 \<Longrightarrow> 1 \<le> l_outstanding (klog s0)" and bn: "unat b < MAXFILE"
    and k: "\<And>x v' as' c' L' s'. grown (sb s0) (unat b) v as v' as' x \<Longrightarrow>
      L' \<subseteq> L \<union> {sb_bmapstart (sb s0)} \<union> ind_blocks as' \<union> ({x} - {0}) \<Longrightarrow>
      (addr_at v as (unat b) \<noteq> 0 \<Longrightarrow> x = addr_at v as (unat b) \<and> v' = v \<and> as' = as \<and> L' = L) \<Longrightarrow>
      (x = 0 \<Longrightarrow> first_free v' (sb s0) = None) \<Longrightarrow>
      inside (with_addrs ip as' c' s0) Map.empty {} v' L' s' \<Longrightarrow> wp (f x) Q s'"
  shows "wp (kbind (bmap ip b) f) Q s"
proof -
  have fin: "finite L" using inside_logged [OF a] by (auto simp: logged_blocks_def)
  have fi: "finite (ind_blocks as)" by (simp add: ind_blocks_def)
  have "insert (sb_bmapstart (sb s0)) L \<subseteq> L \<union> {sb_bmapstart (sb s0)} \<union> ind_blocks as" by auto
  then have "card (insert (sb_bmapstart (sb s0)) L) \<le> card (L \<union> {sb_bmapstart (sb s0)} \<union> ind_blocks as)"
    using fin fi by (intro card_mono) auto
  then have c0: "card (insert (sb_bmapstart (sb s0)) L) + 3 < NBUF" using n by linarith
  have ci: "card (insert (as ! NDIRECT) (insert (sb_bmapstart (sb s0)) L)) + 3 < NBUF" if "as ! NDIRECT \<noteq> 0"
  proof -
    have "insert (as ! NDIRECT) (insert (sb_bmapstart (sb s0)) L) = L \<union> {sb_bmapstart (sb s0)} \<union> ind_blocks as"
      using that by (auto simp: ind_blocks_def)
    then show ?thesis using n by simp
  qed
  show ?thesis
proof (cases "b < 12")
  case True
  then have lt: "unat b < NDIRECT" by (simp add: word_less_nat_alt)
  have addr: "addr_at v as (unat b) = as ! unat b" using lt by (simp add: addr_at_def)
  have m: "bmap ip b = addr_or_alloc ip (unat b)" using True by (simp add: bmap_def)
  show ?thesis
    unfolding m
  proof (rule wp_addr_or_alloc [OF a ip fs])
    assume "as ! unat b \<noteq> 0"
    then show "wp (f (as ! unat b)) Q s"
      using addr a by (intro k [OF grown_refl [OF fs ok], where L' = L and c' = c]) auto
  next
    fix d s' assume z: "as ! unat b = 0" and d: "first_free v (sb s0) = Some d"
      and s': "inside (with_addrs ip (as[unat b := of_nat d]) c s0) Map.empty {} (allocated d (sb s0) v)
        (L \<union> {sb_bmapstart (sb s0), of_nat d}) s'"
    show "wp (f (of_nat d)) Q s'"
      by (rule k [OF grown_direct [OF fs ok d lt z] _ _ _ s']) (use addr z fresh_block(4) [OF fs d] in auto)
  next
    fix c' s' assume z: "as ! unat b = 0" "first_free v (sb s0) = None" and s': "inside (with_addrs ip as c' s0) Map.empty {} v L s'"
    show "wp (f 0) Q s'"
      by (rule k [OF grown_refl [OF fs ok] _ _ _ s']) (use addr z in auto)
  qed (use c0 o addr in simp_all)
next
  case False
  then have ge: "NDIRECT \<le> unat b" by (simp add: word_less_nat_alt)
  have ub: "unat (b - 12) = unat b - NDIRECT" using False by (subst unat_sub) (simp_all add: word_less_nat_alt word_le_nat_alt)
  then have lt: "b - 12 < 256" using bn by (simp add: word_less_nat_alt)
  let ?rest = "\<lambda>ind. kbind (get_inode ip) (\<lambda>k. kbind (bread (i_dev k) ind) (\<lambda>bp. kbind (buf_data bp) (\<lambda>a.
            if get32 a (4 * (unat b - NDIRECT)) = 0
            then kbind (balloc (i_dev k)) (\<lambda>addr.
              kthen (kwhen (addr \<noteq> 0)
                (kthen (set_buf_data bp (put32 (4 * (unat b - NDIRECT)) addr)) (log_write bp)))
              (kthen (brelse bp) (kret addr)))
            else kthen (brelse bp) (kret (get32 a (4 * (unat b - NDIRECT)))))))"
  have m: "bmap ip b = kbind (addr_or_alloc ip NDIRECT) (\<lambda>ind. if ind = 0 then kret 0 else ?rest ind)"
    unfolding bmap_def Let_def ub using False lt by simp
  show ?thesis
    unfolding m kbind_assoc
  proof (rule wp_addr_or_alloc [OF a ip fs])
    assume I: "as ! NDIRECT \<noteq> 0"
    have "wp (kbind (?rest (as ! NDIRECT)) f) Q s"
    proof (rule wp_bmap_indirect [OF a ip fs ok _ o ge bn I])
      fix x v' c' L' s' assume "grown (sb s0) (unat b) v as v' as x"
        "L' \<subseteq> L \<union> {sb_bmapstart (sb s0)} \<union> ind_blocks as \<union> ({x} - {0})"
        "addr_at v as (unat b) \<noteq> 0 \<Longrightarrow> x = addr_at v as (unat b) \<and> v' = v \<and> L' = L"
        "x = 0 \<Longrightarrow> first_free v' (sb s0) = None"
        "inside (with_addrs ip as c' s0) Map.empty {} v' L' s'"
      then show "wp (f x) Q s'" by (intro k) auto
    qed (use ci [OF I] in simp)
    then show "wp (kbind (if as ! NDIRECT = 0 then kret 0 else ?rest (as ! NDIRECT)) f) Q s" using I by simp
  next
    fix d s' assume z: "as ! NDIRECT = 0" and d: "first_free v (sb s0) = Some d"
      and s': "inside (with_addrs ip (as[NDIRECT := of_nat d]) c s0) Map.empty {} (allocated d (sb s0) v)
        (L \<union> {sb_bmapstart (sb s0), of_nat d}) s'"
    note F = fresh_block [OF fs d] and g = grown_ind [OF fs ok d z, of "unat b"]
    let ?as = "as[NDIRECT := of_nat d]" and ?v = "allocated d (sb s0) v"
    have len: "length as = NDIRECT + 1" using ok by (simp add: file_ok_def)
    have I: "?as ! NDIRECT = of_nat d" "?as ! NDIRECT \<noteq> 0" using len F(4) by simp_all
    have a0: "addr_at v as (unat b) = 0" using ge z by (simp add: addr_at_def)
    have "insert (?as ! NDIRECT) (insert (sb_bmapstart (sb s0)) (L \<union> {sb_bmapstart (sb s0), of_nat d})) =
        insert (of_nat d) (insert (sb_bmapstart (sb s0)) L)" using I by auto
    then have c2: "card (insert (?as ! NDIRECT) (insert (sb_bmapstart (sb s0)) (L \<union> {sb_bmapstart (sb s0), of_nat d}))) + 2 < NBUF"
      using fin c0 by (simp add: card_insert_if)
    have "wp (kbind (?rest (?as ! NDIRECT)) f) Q s'"
    proof (rule wp_bmap_indirect [OF s' ip grownD(1,2) [OF g] c2 _ ge bn I(2)])
      fix x v' c' L' s'' assume x: "grown (sb s0) (unat b) ?v ?as v' ?as x"
        "L' \<subseteq> L \<union> {sb_bmapstart (sb s0), of_nat d} \<union> {sb_bmapstart (sb s0)} \<union> ind_blocks ?as \<union> ({x} - {0})"
        "x = 0 \<Longrightarrow> first_free v' (sb s0) = None"
        "inside (with_addrs ip ?as c' s0) Map.empty {} v' L' s''"
      have "grown (sb s0) (unat b) v as v' ?as x"
        using grown_trans [OF bn g x(1)] I F(2,3) by simp
      then show "wp (f x) Q s''"
        by (rule k [OF _ _ _ _ x(4)]) (use x(2,3) I a0 in \<open>auto simp: ind_blocks_def\<close>)
    qed (use o a0 in simp)
    then show "wp (kbind (if of_nat d = (0 :: u32) then kret 0 else ?rest (of_nat d)) f) Q s'" using I by simp
  next
    fix c' s' assume z: "as ! NDIRECT = 0" "first_free v (sb s0) = None" and s': "inside (with_addrs ip as c' s0) Map.empty {} v L s'"
    have a0: "addr_at v as (unat b) = 0" using ge z by (simp add: addr_at_def)
    have "wp (f 0) Q s'"
      by (rule k [OF grown_refl [OF fs ok] _ _ _ s']) (use a0 z in auto)
    then show "wp (kbind (if (0 :: u32) = 0 then kret 0 else ?rest 0) f) Q s'" by simp
  qed (use c0 o ge in \<open>simp_all add: addr_at_def\<close>)
qed
qed

end
