(* ===== verification/Xv6_FileBytes.thy ===== *)
theory Xv6_FileBytes
  imports Xv6_Contents
begin

text \<open>
  readi and writei of kernel/fs.c refine reading and overwriting an array of bytes: the bytes of a
  file are those of its blocks, in order, up to its size.
\<close>

section \<open>The bytes of a file\<close>

definition fbyte :: "(u32 \<Rightarrow> block) \<Rightarrow> u32 list \<Rightarrow> nat \<Rightarrow> u8" where
  "fbyte v as i = v (addr_at v as (i div BSIZE)) ! (i mod BSIZE)"

definition file_bytes :: "(u32 \<Rightarrow> block) \<Rightarrow> inode \<Rightarrow> u8 list" where
  "file_bytes v k = map (fbyte v (i_addrs k)) [0..<unat (i_size k)]"

text \<open>Every byte below \<open>n\<close> has a block.\<close>

definition no_holes :: "(u32 \<Rightarrow> block) \<Rightarrow> u32 list \<Rightarrow> nat \<Rightarrow> bool" where
  "no_holes v as n \<longleftrightarrow> n \<le> MAXFILE * BSIZE \<and> (\<forall>i<n. addr_at v as (i div BSIZE) \<noteq> 0)"

text \<open>A cached inode of the root device with a well-formed file.\<close>

definition inode_ok :: "kstate \<Rightarrow> nat \<Rightarrow> bool" where
  "inode_ok s ip \<longleftrightarrow> ip < length (itable s) \<and> i_dev (itable s ! ip) = ROOTDEV \<and> i_inum (itable s ! ip) < sb_ninodes (sb s) \<and>
     fs_ok (sb s) (content s) \<and> file_ok (sb s) (content s) (i_addrs (itable s ! ip)) \<and>
     no_holes (content s) (i_addrs (itable s ! ip)) (unat (i_size (itable s ! ip)))"

section \<open>Chunks\<close>

text \<open>The test for an overflow of \<open>off + n\<close>.\<close>

lemma add_overflow: "a + b < (a :: u32) \<longleftrightarrow> unat a + unat b \<ge> 2 ^ 32"
proof (cases "unat a + unat b < 2 ^ 32")
  case True
  then show ?thesis using unat_add_small [of a b] by (simp add: word_less_nat_alt)
next
  case False
  then have "unat (a + b) = unat a + unat b - 2 ^ 32"
    using unat_bounds(3) [of a] unat_bounds(3) [of b] by (simp add: unat_word_ariths le_mod_geq)
  then show ?thesis using False unat_bounds(3) [of b] by (simp add: word_less_nat_alt)
qed

text \<open>One round of the loops handles the bytes up to the end of a block.\<close>

lemma unat_chunk:
  assumes "tot \<le> n"
  shows "unat (chunk n tot off) = min (unat n - unat tot) (BSIZE - unat off mod BSIZE)"
proof -
  have 1: "unat (n - tot) = unat n - unat tot" using assms by (simp add: unat_sub word_le_nat_alt)
  have "off mod 1024 \<le> 1024" by (simp add: word_le_nat_alt unat_mod)
  then have 2: "unat (1024 - off mod 1024) = BSIZE - unat off mod BSIZE"
    by (subst unat_sub) (simp_all add: unat_mod)
  show ?thesis using 1 2 by (auto simp: chunk_def min_def word_le_nat_alt)
qed

lemma chunk_bytes:
  assumes m: "m \<le> BSIZE - off mod BSIZE" and len: "length (v (addr_at v as (off div BSIZE))) = BSIZE"
  shows "slice m (off mod BSIZE) (v (addr_at v as (off div BSIZE))) = map (fbyte v as) [off..<off + m]"
proof (rule nth_equalityI)
  have mod: "off mod BSIZE < BSIZE" by simp
  then have le: "off mod BSIZE + m \<le> BSIZE" using m by simp
  then show "length (slice m (off mod BSIZE) (v (addr_at v as (off div BSIZE)))) = length (map (fbyte v as) [off..<off + m])"
    using len by simp
  fix i assume "i < length (slice m (off mod BSIZE) (v (addr_at v as (off div BSIZE))))"
  then have i: "i < m" using len le by simp
  then have "off mod BSIZE + i < BSIZE" using le by simp
  then have "(off + i) div BSIZE = off div BSIZE" "(off + i) mod BSIZE = off mod BSIZE + i"
    by (metis div_mult_mod_eq add.assoc div_less div_mult_self3 add.right_neutral zero_neq_numeral, metis mod_add_left_eq mod_less)
  then show "slice m (off mod BSIZE) (v (addr_at v as (off div BSIZE))) ! i = map (fbyte v as) [off..<off + m] ! i"
    using i le len by (simp add: nth_slice fbyte_def)
qed

lemma either_Var [simp]: "either_copyout (Var d) bs s = Ok 0 s" "either_copyin (Var bs) n s = Ok (0, take n bs) s"
  by (simp_all add: either_copyout_def either_copyin_def myproc_def get_proc_def kbind_def)

lemma wp_either_Var [simp]:
  "wp (kbind (either_copyout (Var d) bs) f) Q s = wp (f 0) Q s"
  "wp (kbind (either_copyin (Var bs) n) g) Q s = wp (g (0, take n bs)) Q s"
  by (simp_all add: wp_def kbind_def)

section \<open>readi\<close>

lemma card_with_ind: "card (L \<union> {x} \<union> ind_blocks as) \<le> card L + 2"
proof -
  have "card (ind_blocks as) \<le> 1" by (simp add: ind_blocks_def card_Diff_singleton_if)
  then show ?thesis using card_Un_le [of "L \<union> {x}" "ind_blocks as"] card_Un_le [of L "{x}"] by simp
qed

lemma wp_readi_loop:
  assumes a: "inside (with_addrs ip as c s0) Map.empty {} v L s"
    and ip: "ip < length (itable s0)" "i_dev (itable s0 ! ip) = ROOTDEV"
    and fs: "fs_ok (sb s0) v" and ok: "file_ok (sb s0) v as" and n: "card L + 5 < NBUF"
    and nh: "no_holes v as sz" and le: "tot \<le> n" "unat off + (unat n - unat tot) \<le> sz"
    and k: "\<And>c' s'. inside (with_addrs ip as c' s0) Map.empty {} v L s' \<Longrightarrow>
      wp (f (n, map (fbyte v as) [unat off..<unat off + (unat n - unat tot)])) Q s'"
  shows "wp (kbind (readi_loop ip (Var d) off n tot) f) Q s"
  using a le k
proof (induction "unat n - unat tot" arbitrary: d off tot s c f rule: less_induct)
  case less
  show ?case
  proof (cases "tot < n")
    case False
    then have "tot = n" using less.prems(2) by simp
    then show ?thesis using less.prems(4) [OF less.prems(1)] by (subst readi_loop.simps) simp
  next
    case True
    let ?m = "chunk n tot off" and ?a = "addr_at v as (unat off div BSIZE)"
    have lt: "unat tot < unat n" using True by (simp add: word_less_nat_alt)
    have um: "unat ?m = min (unat n - unat tot) (BSIZE - unat off mod BSIZE)" using unat_chunk [OF less.prems(2)] .
    have pos: "0 < unat ?m" and ml: "unat ?m \<le> unat n - unat tot" using um lt by simp_all
    have osz: "unat off < sz" using lt less.prems(3) by simp
    have szb: "sz \<le> MAXFILE * BSIZE" "?a \<noteq> 0" using nh osz by (auto simp: no_holes_def)
    have bn: "unat (off div 1024) = unat off div BSIZE" by (simp add: unat_div)
    have lenv: "length (v x) = BSIZE" for x using fs by (simp add: fs_ok_def)
    have ut: "unat (tot + ?m) = unat tot + unat ?m"
      using um lt unat_bounds(3) [of n] by (intro unat_add_small) simp
    have uo: "unat (off + ?m) = unat off + unat ?m"
      using um szb osz less.prems(3) by (intro unat_add_small) simp
    let ?rest = "\<lambda>addr. if addr = 0 then kret (tot, [])
        else kbind (get_inode ip) (\<lambda>k. kbind (bread (i_dev k) addr) (\<lambda>bp. kbind (buf_data bp) (\<lambda>d'.
          let m = ?m; bs = slice (unat m) (unat (off mod 1024)) d' in
          kbind (either_copyout (Var d) bs) (\<lambda>r.
          if r = - 1 then kthen (brelse bp) (kret (- 1, []))
          else kthen (brelse bp) (kbind (readi_loop ip (advance (Var d) ?m) (off + ?m) n (tot + ?m)) (\<lambda>(t, out). kret (t, bs @ out)))))))"
    have "wp (kbind (bmap ip (off div 1024)) (\<lambda>addr. kbind (?rest addr) f)) Q s"
    proof (rule wp_bmap [OF less.prems(1) ip fs ok])
      show "card (L \<union> {sb_bmapstart (sb s0)} \<union> ind_blocks as) + 3 < NBUF"
        using n card_with_ind [of L "sb_bmapstart (sb s0)" as] by linarith
    next
      show "unat (off div 1024) < MAXFILE" using szb osz by (simp add: bn less_mult_imp_div_less)
    next
      fix x v' as' c' L' s'
      assume "addr_at v as (unat (off div 1024)) \<noteq> 0 \<Longrightarrow> x = addr_at v as (unat (off div 1024)) \<and> v' = v \<and> as' = as \<and> L' = L"
        and s': "inside (with_addrs ip as' c' s0) Map.empty {} v' L' s'"
      then have x: "x = ?a" "v' = v" "as' = as" "L' = L" using szb(2) bn by auto
      have s1: "inside (with_addrs ip as c' s0) Map.empty {} v L s'" using s' x by simp
      have kk: "i_dev (itable s' ! ip) = ROOTDEV" using inside_fields(3) [OF s1] ip by simp
      let ?bs = "slice (unat ?m) (unat (off mod 1024)) (v ?a)"
      have bs: "?bs = map (fbyte v as) [unat off..<unat off + unat ?m]"
        using chunk_bytes [of "unat ?m" "unat off" v as] um lenv by (simp add: unat_mod)
      have more: "wp (kbind (readi_loop ip (Var (drop (unat ?m) d)) (off + ?m) n (tot + ?m)) (\<lambda>r. kbind (case r of (t, out) \<Rightarrow> kret (t, ?bs @ out)) f)) Q s2"
        if s2: "inside (with_addrs ip as c' s0) Map.empty {} v L s2" for s2
      proof (rule less.hyps [OF _ s2])
        show "unat n - unat (tot + ?m) < unat n - unat tot" using ut pos lt by simp
        show "tot + ?m \<le> n" using ut ml lt unfolding word_le_nat_alt by linarith
        show "unat (off + ?m) + (unat n - unat (tot + ?m)) \<le> sz" using uo ut ml less.prems(3) by linarith
        have e: "[unat off..<unat off + (unat n - unat tot)] =
            [unat off..<unat off + unat ?m] @ [unat (off + ?m)..<unat (off + ?m) + (unat n - unat (tot + ?m))]"
          using upt_add_eq_append [of "unat off" "unat off + unat ?m" "unat n - unat (tot + ?m)"] uo ut ml lt by simp
        show "wp (kbind (case (n, map (fbyte v as) [unat (off + ?m)..<unat (off + ?m) + (unat n - unat (tot + ?m))]) of
            (t, out) \<Rightarrow> kret (t, ?bs @ out)) f) Q s3" if "inside (with_addrs ip as c3 s0) Map.empty {} v L s3" for c3 s3
          using less.prems(4) [OF that] by (simp only: prod.case kbind_kret bs e map_append)
      qed
      have "wp (kbind (?rest ?a) f) Q s'"
        apply (simp only: szb(2) if_False kbind_assoc get_inode_def wp_bind_basic kk)
        apply (rule wp_bread [OF s1])
        using n apply simp
        using n apply simp
        apply (rule wp_buf_data [where blk = ?a], assumption, simp)
        apply (simp only: Let_def kbind_assoc wp_either_Var kbind_kthen simp_thms if_False zero_neq_neg_one)
        apply (rule wp_brelse [where blk = ?a], assumption, simp, simp)
        apply (simp only: advance.simps close_held dom_empty empty_iff not_False_eq_True)
        apply (rule more)
        apply assumption
        done
      then show "wp (kbind (?rest x) f) Q s'" by (simp only: x(1))
    qed (use szb(2) bn in simp)
    then show ?thesis using True by (subst readi_loop.simps) (simp add: kbind_assoc)
  qed
qed


lemma inside_self:
  "tx Map.empty {} s \<Longrightarrow> inside (with_addrs ip (i_addrs (itable s ! ip)) (console_out s) s) Map.empty {} (content s) (logged_blocks s) s"
  using inside_start [of Map.empty "{}" s] by (simp only: with_addrs_id)

lemma slice_file_bytes:
  "off + m \<le> unat (i_size k) \<Longrightarrow> slice m off (file_bytes v k) = map (fbyte v (i_addrs k)) [off..<off + m]"
  by (simp add: slice_def file_bytes_def take_map drop_map)

lemma readi_spec:
  assumes "tx Map.empty {} s" and "inode_ok s ip" and "card (logged_blocks s) + 5 < NBUF"
  shows "\<exists>s'. readi ip (Var d) off n s =
      (let size = unat (i_size (itable s ! ip));
           m = (if unat off > size \<or> unat off + unat n \<ge> 2 ^ 32 then 0 else min (unat n) (size - unat off))
       in Ok (of_nat m, slice m (unat off) (file_bytes (content s) (itable s ! ip))) s') \<and>
    content s' = content s \<and> tx Map.empty {} s'"
proof -
  let ?k = "itable s ! ip" and ?v = "content s"
  let ?size = "unat (i_size ?k)"
  note ok = assms(2) [unfolded inode_ok_def]
  note ov = add_overflow [of off n]
  show ?thesis
  proof (cases "off > i_size ?k \<or> off + n < off")
    case True
    then have "readi ip (Var d) off n s = Ok (0, []) s" by (auto simp: readi_def get_inode_def)
    moreover have "unat off > ?size \<or> unat off + unat n \<ge> 2 ^ 32" using True ov by (auto simp: word_less_nat_alt)
    ultimately show ?thesis using assms(1) by (intro exI [of _ s]) (simp add: Let_def slice_def)
  next
    case False
    define N where "N = (if off + n > i_size ?k then i_size ?k - off else n)"
    have le: "unat off \<le> ?size" "unat off + unat n < 2 ^ 32" using False ov by (auto simp: word_less_nat_alt)
    have un: "unat N = min (unat n) (?size - unat off)"
      using le by (auto simp: N_def word_less_nat_alt unat_sub word_le_nat_alt unat_add_small)
    have "wp (kbind (readi_loop ip (Var d) off N 0) kret) (\<lambda>r s'. r = (N, map (fbyte ?v (i_addrs ?k)) [unat off..<unat off + unat N]) \<and>
        content s' = ?v \<and> tx Map.empty {} s') s"
    proof (rule wp_readi_loop [OF inside_self [OF assms(1)]])
      show "unat off + (unat N - unat (0 :: u32)) \<le> ?size" using un le by simp
    qed (use ok assms(3) in \<open>auto simp: inside_def\<close>)
    then obtain s' where s': "readi_loop ip (Var d) off N 0 s = Ok (N, map (fbyte ?v (i_addrs ?k)) [unat off..<unat off + unat N]) s'"
        "content s' = ?v" "tx Map.empty {} s'"
      by (auto simp: wp_def kbind_eq_Ok)
    have "readi ip (Var d) off n s = Ok (N, map (fbyte ?v (i_addrs ?k)) [unat off..<unat off + unat N]) s'"
      using s'(1) False by (simp add: readi_def get_inode_def N_def)
    moreover have "map (fbyte ?v (i_addrs ?k)) [unat off..<unat off + unat N] = slice (unat N) (unat off) (file_bytes ?v ?k)"
      using un le by (intro slice_file_bytes [symmetric]) simp
    moreover have "(if unat off > ?size \<or> unat off + unat n \<ge> 2 ^ 32 then 0 else min (unat n) (?size - unat off)) = unat N"
      using le un by simp
    ultimately show ?thesis using s'(2,3) by (intro exI [of _ s']) (simp add: Let_def)
  qed
qed

end
