(* ===== verification/Xv6_FileWrite.thy ===== *)
theory Xv6_FileWrite
  imports Xv6_FileBytes
begin

text \<open>
  writei of kernel/fs.c refines overwriting a part of an array of bytes that may grow at its end;
  when the disk is full it writes a prefix and returns its length. The blocks of other files stay
  as they are.
\<close>

section \<open>Overwriting bytes\<close>

text \<open>
  The contents after the first \<open>w\<close> bytes of \<open>bs\<close> were stored at offset \<open>off\<close>: these bytes have
  blocks, bytes outside the range that had blocks still have them and are the same, and no
  other block in use changed.
\<close>

definition written :: "superblock \<Rightarrow> u8 list \<Rightarrow> nat \<Rightarrow> nat \<Rightarrow> (u32 \<Rightarrow> block) \<Rightarrow> u32 list \<Rightarrow> (u32 \<Rightarrow> block) \<Rightarrow> u32 list \<Rightarrow> bool" where
  "written sp bs off w v as v' as' \<longleftrightarrow> fs_ok sp v' \<and> file_ok sp v' as' \<and>
     (\<forall>i. off \<le> i \<longrightarrow> i < off + w \<longrightarrow> addr_at v' as' (i div BSIZE) \<noteq> 0 \<and> fbyte v' as' i = bs ! (i - off)) \<and>
     (\<forall>j<MAXFILE. addr_at v as j \<noteq> 0 \<longrightarrow> addr_at v' as' j = addr_at v as j) \<and>
     (\<forall>i<MAXFILE * BSIZE. addr_at v as (i div BSIZE) \<noteq> 0 \<longrightarrow> i < off \<or> off + w \<le> i \<longrightarrow> fbyte v' as' i = fbyte v as i) \<and>
     (as ! NDIRECT \<noteq> 0 \<longrightarrow> as' ! NDIRECT = as ! NDIRECT) \<and>
     file_blocks v' as' \<subseteq> file_blocks v as \<union> fresh_blocks sp v \<and>
     (\<forall>x. unat x < unat (sb_size sp) \<longrightarrow> used v sp (unat x) \<longrightarrow> used v' sp (unat x) \<and>
        (x \<noteq> sb_bmapstart sp \<longrightarrow> x \<notin> file_blocks v as \<longrightarrow> v' x = v x))"

lemma writtenD:
  assumes "written sp bs off w v as v' as'"
  shows "fs_ok sp v'" "file_ok sp v' as'"
    "off \<le> i \<Longrightarrow> i < off + w \<Longrightarrow> addr_at v' as' (i div BSIZE) \<noteq> 0"
    "off \<le> i \<Longrightarrow> i < off + w \<Longrightarrow> fbyte v' as' i = bs ! (i - off)"
    "j < MAXFILE \<Longrightarrow> addr_at v as j \<noteq> 0 \<Longrightarrow> addr_at v' as' j = addr_at v as j"
    "i < MAXFILE * BSIZE \<Longrightarrow> addr_at v as (i div BSIZE) \<noteq> 0 \<Longrightarrow> i < off \<or> off + w \<le> i \<Longrightarrow> fbyte v' as' i = fbyte v as i"
    "as ! NDIRECT \<noteq> 0 \<Longrightarrow> as' ! NDIRECT = as ! NDIRECT"
    "unat x < unat (sb_size sp) \<Longrightarrow> used v sp (unat x) \<Longrightarrow> used v' sp (unat x)"
    "unat x < unat (sb_size sp) \<Longrightarrow> used v sp (unat x) \<Longrightarrow> x \<noteq> sb_bmapstart sp \<Longrightarrow> x \<notin> file_blocks v as \<Longrightarrow> v' x = v x"
    "file_blocks v' as' \<subseteq> file_blocks v as \<union> fresh_blocks sp v"
  using assms unfolding written_def by blast+

text \<open>A block is looked up or added, and nothing is stored yet.\<close>

lemma grown_written:
  assumes g: "grown sp bn v as v' as' x" and fs: "fs_ok sp v"
  shows "written sp bs off 0 v as v' as'"
proof -
  note G = grownD [OF g]
  show ?thesis
    unfolding written_def
  proof (intro conjI allI impI)
    fix i assume i: "i < MAXFILE * BSIZE" "addr_at v as (i div BSIZE) \<noteq> 0"
    have j: "i div BSIZE < MAXFILE" using i(1) by (simp add: less_mult_imp_div_less)
    show "fbyte v' as' i = fbyte v as i" using G(4,5) [OF j i(2)] by (simp add: fbyte_def)
  next
    fix y :: u32 assume y: "unat y < unat (sb_size sp)" "used v sp (unat y)"
    show "used v' sp (unat y)" using G(9) [OF y] .
    assume "y \<noteq> sb_bmapstart sp" "y \<notin> file_blocks v as"
    then show "v' y = v y" using G(10) [OF y] by (auto simp: file_blocks_def)
  qed (use G in auto)
qed

lemma written_trans:
  assumes g: "written sp bs off w v as v1 as1" and h: "written sp (drop w bs) (off + w) w' v1 as1 v2 as2"
    and le: "off + w + w' \<le> MAXFILE * BSIZE" "w + w' \<le> length bs"
  shows "written sp bs off (w + w') v as v2 as2"
proof -
  note G = writtenD [OF g] and H = writtenD [OF h]
  have j: "i div BSIZE < MAXFILE" if "i < MAXFILE * BSIZE" for i using that by (simp add: less_mult_imp_div_less)
  show ?thesis
    unfolding written_def
  proof (intro conjI allI impI)
    fix i assume i: "off \<le> i" "i < off + (w + w')"
    have im: "i < MAXFILE * BSIZE" using i(2) le(1) by linarith
    have "addr_at v2 as2 (i div BSIZE) \<noteq> 0 \<and> fbyte v2 as2 i = bs ! (i - off)"
    proof (cases "i < off + w")
      case True
      then show ?thesis using G(3,4) [OF i(1) True] H(5) [OF j [OF im]] H(6) [OF im] by auto
    next
      case False
      then have "off + w \<le> i" "i < off + w + w'" using i(2) by auto
      then show ?thesis using H(3,4) [of i] le(2) by (auto simp: add.commute)
    qed
    then show "addr_at v2 as2 (i div BSIZE) \<noteq> 0" "fbyte v2 as2 i = bs ! (i - off)" by auto
  next
    fix k assume k: "k < MAXFILE" "addr_at v as k \<noteq> 0"
    then show "addr_at v2 as2 k = addr_at v as k" using G(5) [OF k] H(5) [OF k(1)] by simp
  next
    fix i assume i: "i < MAXFILE * BSIZE" "addr_at v as (i div BSIZE) \<noteq> 0" "i < off \<or> off + (w + w') \<le> i"
    have "addr_at v1 as1 (i div BSIZE) \<noteq> 0" using G(5) [OF j [OF i(1)] i(2)] i(2) by simp
    then show "fbyte v2 as2 i = fbyte v as i" using G(6) [OF i(1,2)] H(6) [OF i(1)] i(3) by auto
  next
    assume "as ! NDIRECT \<noteq> 0"
    then show "as2 ! NDIRECT = as ! NDIRECT" using G(7) H(7) by simp
  next
    fix y :: u32 assume y: "unat y < unat (sb_size sp)" "used v sp (unat y)"
    show "used v2 sp (unat y)" using H(8) [OF y(1) G(8) [OF y]] .
    assume "y \<noteq> sb_bmapstart sp" "y \<notin> file_blocks v as"
    then show "v2 y = v y" using G(9) [OF y] H(9) [OF y(1) G(8) [OF y]] G(10) y(2) by (auto simp: fresh_blocks_def)
  next
    have "fresh_blocks sp v1 \<subseteq> fresh_blocks sp v" using G(8) by (auto simp: fresh_blocks_def)
    then show "file_blocks v2 as2 \<subseteq> file_blocks v as \<union> fresh_blocks sp v" using G(10) H(10) by blast
  qed (use H(1,2) in auto)
qed


text \<open>Bytes are stored in one block of the file.\<close>

lemma store_written:
  assumes fs: "fs_ok sp v" and ok: "file_ok sp v as" and x: "addr_at v as (off div BSIZE) = x" "x \<noteq> 0"
    and bn: "off div BSIZE < MAXFILE" and m: "m \<le> BSIZE - off mod BSIZE" "m \<le> length bs"
  shows "written sp bs off m v as (v(x := splice (off mod BSIZE) (take m bs) (v x))) as"
proof -
  let ?v = "v(x := splice (off mod BSIZE) (take m bs) (v x))"
  have xf: "x \<in> file_blocks v as" using addr_in_file [OF bn, of v as] x by simp
  then have xb: "x \<noteq> sb_bmapstart sp" using ok by (auto simp: file_ok_def)
  have xi: "x \<notin> ind_blocks as" using ok bn x(1) by (auto simp: file_ok_def)
  have lenv: "length (v y) = BSIZE" for y using fs by (simp add: fs_ok_def)
  have mo: "off mod BSIZE < BSIZE" by simp
  have le: "off mod BSIZE + length (take m bs) \<le> length (v x)" using m lenv mo by simp
  have addr: "addr_at ?v as j = addr_at v as j" for j
    using xi x(2) by (auto simp: addr_at_def ind_blocks_def)
  have us: "used ?v sp c \<longleftrightarrow> used v sp c" if "c < unat (sb_size sp)" for c
    using fs that xb BBLOCK_one [of sp c] by (simp add: used_def fs_ok_def)
  have "bitmap_ok ?v sp" using fs us unfolding fs_ok_def bitmap_ok_def by simp
  moreover have "used ?v sp 0" using fs us [of 0] by (auto simp: fs_ok_def)
  moreover have "length (?v y) = BSIZE" for y using lenv le by simp
  ultimately have fs': "fs_ok sp ?v" using fs us unfolding fs_ok_def by auto
  have fb: "file_ok sp ?v as" "file_blocks ?v as = file_blocks v as"
    using file_ok_same [OF ok, of ?v] addr us ok by (auto simp: file_ok_def)
  have byte: "fbyte ?v as i = (if off \<le> i \<and> i < off + m then bs ! (i - off) else fbyte v as i)"
    if i: "i < MAXFILE * BSIZE" for i
  proof (cases "i div BSIZE = off div BSIZE")
    case True
    have rel: "i mod BSIZE - off mod BSIZE = i - off" "off mod BSIZE \<le> i mod BSIZE \<longleftrightarrow> off \<le> i"
      "i mod BSIZE < off mod BSIZE + m \<longleftrightarrow> i < off + m"
      using True div_mult_mod_eq [of i BSIZE] div_mult_mod_eq [of off BSIZE] by linarith+
    have "fbyte ?v as i = splice (off mod BSIZE) (take m bs) (v x) ! (i mod BSIZE)"
      using True x by (simp add: fbyte_def addr)
    also have "\<dots> = (if off \<le> i \<and> i < off + m then bs ! (i - off) else v x ! (i mod BSIZE))"
      using nth_splice [OF le, of "i mod BSIZE"] lenv m(2) rel by (auto simp: min_absorb2)
    finally show ?thesis using True x by (simp add: fbyte_def)
  next
    case False
    have jb: "i div BSIZE < MAXFILE" using i by (simp add: less_mult_imp_div_less)
    then have "addr_at v as (i div BSIZE) \<noteq> x" using ok x bn False unfolding file_ok_def by metis
    moreover have "\<not> (off \<le> i \<and> i < off + m)"
    proof
      assume "off \<le> i \<and> i < off + m"
      then have "i - off + off mod BSIZE < BSIZE" "i = off div BSIZE * BSIZE + (i - off + off mod BSIZE)"
        using m(1) mo div_mult_mod_eq [of off BSIZE] by linarith+
      then have "i div BSIZE = off div BSIZE" by (metis div_less div_mult_self3 add.right_neutral zero_neq_numeral)
      then show False using False by simp
    qed
    ultimately show ?thesis by (auto simp: fbyte_def addr)
  qed
  have le2: "off + m \<le> MAXFILE * BSIZE"
  proof -
    have "off + m \<le> off div BSIZE * BSIZE + BSIZE" using m(1) mo div_mult_mod_eq [of off BSIZE] by linarith
    also have "\<dots> = Suc (off div BSIZE) * BSIZE" by simp
    also have "\<dots> \<le> MAXFILE * BSIZE" using bn by (intro mult_le_mono1) simp
    finally show ?thesis .
  qed
  show ?thesis
    unfolding written_def
  proof (intro conjI allI impI)
    fix i assume i: "off \<le> i" "i < off + m"
    then show "fbyte ?v as i = bs ! (i - off)" using byte [of i] le2 by simp
    have "i div BSIZE = off div BSIZE"
    proof -
      have "i - off + off mod BSIZE < BSIZE" "i = off div BSIZE * BSIZE + (i - off + off mod BSIZE)"
        using i m(1) mo div_mult_mod_eq [of off BSIZE] by linarith+
      then show ?thesis by (metis div_less div_mult_self3 add.right_neutral zero_neq_numeral)
    qed
    then show "addr_at ?v as (i div BSIZE) \<noteq> 0" using x by (simp add: addr)
  next
    fix i assume "i < MAXFILE * BSIZE" "i < off \<or> off + m \<le> i"
    then show "fbyte ?v as i = fbyte v as i" using byte [of i] by auto
  next
    fix y :: u32 assume y: "unat y < unat (sb_size sp)" "used v sp (unat y)"
    then show "used ?v sp (unat y)" using us by simp
    assume "y \<notin> file_blocks v as"
    then show "?v y = v y" using xf by auto
  qed (use fs' fb addr in auto)
qed

lemma grown_store:
  assumes g: "grown sp (off div BSIZE) v as v1 as1 x" "x \<noteq> 0" and fs: "fs_ok sp v"
    and bn: "off div BSIZE < MAXFILE" and m: "m \<le> BSIZE - off mod BSIZE" "m \<le> length bs" "off + m \<le> MAXFILE * BSIZE"
  shows "written sp bs off m v as (v1(x := splice (off mod BSIZE) (take m bs) (v1 x))) as1"
proof -
  note G = grownD [OF g(1)]
  have "written sp bs off m v1 as1 (v1(x := splice (off mod BSIZE) (take m bs) (v1 x))) as1"
    using G(3) g(2) bn m by (intro store_written [OF G(1,2)]) auto
  then show ?thesis using written_trans [OF grown_written [OF g(1) fs], of bs off m] m by simp
qed

section \<open>The loop\<close>

text \<open>The blocks the loop has logged, when it started at block \<open>b0\<close> and has reached offset \<open>off\<close>.\<close>

definition touched :: "superblock \<Rightarrow> u32 set \<Rightarrow> nat \<Rightarrow> (u32 \<Rightarrow> block) \<Rightarrow> u32 list \<Rightarrow> nat \<Rightarrow> u32 set" where
  "touched sp L0 b0 v as off = L0 \<union> {sb_bmapstart sp} \<union> ind_blocks as \<union>
     (addr_at v as ` {b0..<(off + (BSIZE - 1)) div BSIZE} - {0})"

lemma card_touched: "finite L0 \<Longrightarrow> card (touched sp L0 b0 v as off) \<le> card L0 + 2 + ((off + (BSIZE - 1)) div BSIZE - b0)"
proof -
  assume "finite L0"
  let ?A = "addr_at v as ` {b0..<(off + (BSIZE - 1)) div BSIZE}"
  have "card (?A - {0}) \<le> card ?A" by (intro card_mono) auto
  also have "\<dots> \<le> (off + (BSIZE - 1)) div BSIZE - b0" using card_image_le [of "{b0..<(off + (BSIZE - 1)) div BSIZE}"] by simp
  finally show ?thesis
    using card_Un_le [of "L0 \<union> {sb_bmapstart sp} \<union> ind_blocks as" "?A - {0}"] card_with_ind [of L0 "sb_bmapstart sp" as]
    unfolding touched_def by linarith
qed


lemma touched_mono:
  assumes i: "as ! NDIRECT \<noteq> 0 \<Longrightarrow> as' ! NDIRECT = as ! NDIRECT"
    and a: "\<And>j. j < MAXFILE \<Longrightarrow> addr_at v as j \<noteq> 0 \<Longrightarrow> addr_at v' as' j = addr_at v as j"
    and o: "off \<le> MAXFILE * BSIZE" "off \<le> off'"
  shows "touched sp L0 b0 v as off \<subseteq> touched sp L0 b0 v' as' off'"
proof
  fix x assume x: "x \<in> touched sp L0 b0 v as off"
  have c: "(off + (BSIZE - 1)) div BSIZE \<le> MAXFILE" using o(1) by simp
  have d: "(off + (BSIZE - 1)) div BSIZE \<le> (off' + (BSIZE - 1)) div BSIZE" using o(2) by (intro div_le_mono) simp
  show "x \<in> touched sp L0 b0 v' as' off'"
  proof (cases "x \<in> L0 \<union> {sb_bmapstart sp} \<union> ind_blocks as")
    case True
    then show ?thesis using i by (auto simp: touched_def ind_blocks_def)
  next
    case False
    then obtain j where j: "x = addr_at v as j" "x \<noteq> 0" "b0 \<le> j" "j < (off + (BSIZE - 1)) div BSIZE"
      using x by (auto simp: touched_def)
    then have "x = addr_at v' as' j" "j < (off' + (BSIZE - 1)) div BSIZE" using a [of j] c d by auto
    then show ?thesis using j(2,3) by (auto simp: touched_def)
  qed
qed

lemma wp_writei_loop:
  assumes a: "inside (with_addrs ip as c s0) Map.empty {} v L s"
    and ip: "ip < length (itable s0)" "i_dev (itable s0 ! ip) = ROOTDEV" and o: "1 \<le> l_outstanding (klog s0)"
    and fs: "fs_ok (sb s0) v" and ok: "file_ok (sb s0) v as"
    and L0: "finite L0" "L \<subseteq> touched (sb s0) L0 b0 v as (unat off)" "b0 \<le> unat off div BSIZE"
    and le: "tot \<le> n" "length bs = unat n - unat tot" "unat off + length bs \<le> MAXFILE * BSIZE"
    and sp: "card L0 + ((unat off + length bs + (BSIZE - 1)) div BSIZE - b0) + 5 < NBUF"
    and k: "\<And>w v' as' c' L' s'. w \<le> length bs \<Longrightarrow> written (sb s0) bs (unat off) w v as v' as' \<Longrightarrow>
      L' \<subseteq> touched (sb s0) L0 b0 v' as' (unat off + w) \<Longrightarrow> (w < length bs \<Longrightarrow> first_free v' (sb s0) = None) \<Longrightarrow>
      inside (with_addrs ip as' c' s0) Map.empty {} v' L' s' \<Longrightarrow> wp (f (tot + of_nat w, off + of_nat w)) Q s'"
  shows "wp (kbind (writei_loop ip (Var bs) off n tot) f) Q s"
  using a fs ok L0(2,3) le sp k
proof (induction "length bs" arbitrary: bs off tot s c v as L f rule: less_induct)
  case less
  note prems = less.prems
  show ?case
  proof (cases "tot < n")
    case False
    have "written (sb s0) bs (unat off) 0 v as v as" by (rule grown_written [OF grown_refl [OF prems(2,3), of 0 0] prems(2)]) simp
    then have "wp (f (tot + of_nat 0, off + of_nat 0)) Q s" using prems(4,7) False
      by (intro prems(10) [OF _ _ _ _ prems(1)]) (simp_all add: word_less_nat_alt)
    then show ?thesis using False by (subst writei_loop.simps) simp
  next
    case True
    let ?m = "chunk n tot off" and ?bn = "unat off div BSIZE" and ?sp = "sb s0"
    have lt: "unat tot < unat n" using True by (simp add: word_less_nat_alt)
    have um: "unat ?m = min (unat n - unat tot) (BSIZE - unat off mod BSIZE)" using unat_chunk [OF prems(6)] .
    have m: "0 < unat ?m" "unat ?m \<le> length bs" "unat ?m \<le> BSIZE - unat off mod BSIZE" using um lt prems(7) by simp_all
    have bs0: "0 < length bs" using m by linarith
    have ob: "unat off < MAXFILE * BSIZE" "unat off + unat ?m \<le> MAXFILE * BSIZE" using prems(8) m bs0 by linarith+
    have bn: "unat (off div 1024) = ?bn" "?bn < MAXFILE" using ob(1) by (simp_all add: unat_div less_mult_imp_div_less)
    have ut: "unat (tot + ?m) = unat tot + unat ?m"
      using m(2) prems(7) lt unat_bounds(3) [of n] by (intro unat_add_small) simp
    have uo: "unat (off + ?m) = unat off + unat ?m" using ob(2) by (intro unat_add_small) simp
    have fl: "?bn * BSIZE + unat off mod BSIZE = unat off" "unat off mod BSIZE < BSIZE" by simp_all
    have ceil: "?bn < (unat off + unat ?m + (BSIZE - 1)) div BSIZE" using m(1) fl by simp
    have cmono: "(x + (BSIZE - 1)) div BSIZE - b0 \<le> (unat off + length bs + (BSIZE - 1)) div BSIZE - b0"
      if "x \<le> unat off + length bs" for x
      using that by (intro diff_le_mono div_le_mono) simp
    have lm: "length (take (unat ?m) bs) = unat ?m" using m(2) by simp
    have base: "{sb_bmapstart ?sp} \<union> ind_blocks as' \<subseteq> touched ?sp L0 b0 v' as' x" for as' v' x by (auto simp: touched_def)
    have fin: "finite (touched ?sp L0 b0 v' as' x)" for v' as' x using L0(1) by (simp add: touched_def ind_blocks_def)
    have ct: "card (touched ?sp L0 b0 v' as' x) + 3 < NBUF" if "x \<le> unat off + length bs" for v' as' x
      using card_touched [OF L0(1), of ?sp b0 v' as' x] cmono [OF that] prems(9) by linarith
    let ?rest = "\<lambda>addr. if addr = 0 then kret (tot, off)
        else kbind (get_inode ip) (\<lambda>k. kbind (bread (i_dev k) addr) (\<lambda>bp.
          kbind (either_copyin (Var bs) (unat ?m)) (\<lambda>(r, bs').
          kthen (set_buf_data bp (splice (unat (off mod 1024)) bs'))
          (kthen (log_write bp) (kthen (brelse bp)
          (if r = - 1 then kret (tot, off)
           else writei_loop ip (advance (Var bs) ?m) (off + ?m) n (tot + ?m)))))))"
    have "wp (kbind (bmap ip (off div 1024)) (\<lambda>addr. kbind (?rest addr) f)) Q s"
    proof (rule wp_bmap [OF prems(1) ip prems(2,3)])
      have "L \<union> {sb_bmapstart ?sp} \<union> ind_blocks as \<subseteq> touched ?sp L0 b0 v as (unat off)"
        using prems(4) by (auto simp: touched_def)
      then have "card (L \<union> {sb_bmapstart ?sp} \<union> ind_blocks as) \<le> card (touched ?sp L0 b0 v as (unat off))"
        by (intro card_mono fin)
      then show "card (L \<union> {sb_bmapstart ?sp} \<union> ind_blocks as) + 3 < NBUF" using ct [of "unat off" v as] by simp
    next
      fix x v1 as1 c1 L1 s1
      assume g: "grown ?sp (unat (off div 1024)) v as v1 as1 x"
        and L1: "L1 \<subseteq> L \<union> {sb_bmapstart ?sp} \<union> ind_blocks as1 \<union> ({x} - {0})"
        and ff: "x = 0 \<Longrightarrow> first_free v1 ?sp = None"
        and s1: "inside (with_addrs ip as1 c1 s0) Map.empty {} v1 L1 s1"
      note G = grownD [OF g] and g' = g [unfolded bn(1)]
      have T: "touched ?sp L0 b0 v as (unat off) \<subseteq> touched ?sp L0 b0 v1 as1 y" if "unat off \<le> y" for y
        using G(4,8) ob(1) that by (intro touched_mono) auto
      show "wp (kbind (?rest x) f) Q s1"
      proof (cases "x = 0")
        case x: True
        have "L1 \<subseteq> touched ?sp L0 b0 v1 as1 (unat off + 0)"
          using L1 x prems(4) T [of "unat off"] base [of as1 v1 "unat off"] by auto
        then have "wp (f (tot + of_nat 0, off + of_nat 0)) Q s1"
          using ff x by (intro prems(10) [OF _ grown_written [OF g prems(2)] _ _ s1]) simp_all
        then show ?thesis using x by simp
      next
        case x: False
        let ?v2 = "v1(x := splice (unat off mod BSIZE) (take (unat ?m) bs) (v1 x))"
        have W: "written ?sp bs (unat off) (unat ?m) v as ?v2 as1"
          using grown_store [OF g' x prems(2) bn(2) m(3,2) ob(2)] .
        note w = writtenD [OF W]
        have ax: "addr_at v1 as1 ?bn = x" using G(3) x bn(1) by simp
        have "x \<notin> ind_blocks as1" using G(2) bn(2) ax by (auto simp: file_ok_def)
        then have ax2: "addr_at ?v2 as1 j = addr_at v1 as1 j" for j using x by (auto simp: addr_at_def ind_blocks_def)
        have L2: "insert x L1 \<subseteq> touched ?sp L0 b0 ?v2 as1 (unat off + unat ?m)"
        proof -
          have "x \<in> touched ?sp L0 b0 ?v2 as1 (unat off + unat ?m)"
            using ax ax2 x ceil prems(5) by (auto simp: touched_def intro!: image_eqI [where x = ?bn])
          moreover have "touched ?sp L0 b0 v as (unat off) \<subseteq> touched ?sp L0 b0 ?v2 as1 (unat off + unat ?m)"
            using w(5,7) ob(1) by (intro touched_mono) auto
          ultimately show ?thesis using L1 prems(4) base [of as1 ?v2 "unat off + unat ?m"] by blast
        qed
        have card1: "card (insert x L1) + 3 < NBUF"
          using card_mono [OF fin L2] ct [of "unat off + unat ?m" ?v2 as1] m(2) by simp
        have fin1: "finite L1" using finite_subset [OF L2 fin] by simp
        then have card0: "card L1 \<le> card (insert x L1)" by (intro card_mono) auto
        have kk: "i_dev (itable s1 ! ip) = ROOTDEV" using inside_fields(3) [OF s1] ip by simp
        have more: "wp (kbind (writei_loop ip (Var (drop (unat ?m) bs)) (off + ?m) n (tot + ?m)) f) Q s2"
          if s2: "inside (with_addrs ip as1 c1 s0) Map.empty {} ?v2 (insert x L1) s2" for s2
        proof (rule less.hyps [OF _ s2 w(1,2)])
          show "length (drop (unat ?m) bs) < length bs" using m(1) bs0 by simp
          show "insert x L1 \<subseteq> touched ?sp L0 b0 ?v2 as1 (unat (off + ?m))" using L2 uo by simp
          show "b0 \<le> unat (off + ?m) div BSIZE" using prems(5) div_le_mono [of "unat off" "unat (off + ?m)" BSIZE] uo by linarith
          show "tot + ?m \<le> n" unfolding word_le_nat_alt ut using m(2) prems(7) lt by linarith
          show "length (drop (unat ?m) bs) = unat n - unat (tot + ?m)" using ut prems(7) by simp
          show "unat (off + ?m) + length (drop (unat ?m) bs) \<le> MAXFILE * BSIZE" using uo prems(8) m(2) by simp
          show "card L0 + ((unat (off + ?m) + length (drop (unat ?m) bs) + (BSIZE - 1)) div BSIZE - b0) + 5 < NBUF"
            using uo prems(9) m(2) by simp
        next
          fix w' v' as' c' L' s'
          assume w': "w' \<le> length (drop (unat ?m) bs)"
            and W': "written ?sp (drop (unat ?m) bs) (unat (off + ?m)) w' ?v2 as1 v' as'"
            and L': "L' \<subseteq> touched ?sp L0 b0 v' as' (unat (off + ?m) + w')"
            and ff': "w' < length (drop (unat ?m) bs) \<Longrightarrow> first_free v' ?sp = None"
            and s': "inside (with_addrs ip as' c' s0) Map.empty {} v' L' s'"
          have W2: "written ?sp bs (unat off) (unat ?m + w') v as v' as'"
            using written_trans [OF W, of w'] W' uo w' m(2) prems(8) by simp
          have "wp (f (tot + of_nat (unat ?m + w'), off + of_nat (unat ?m + w'))) Q s'"
            by (rule prems(10) [OF _ W2 _ _ s']) (use w' m(2) L' uo ff' in \<open>simp_all add: add.assoc\<close>)
          then show "wp (f (tot + ?m + of_nat w', off + ?m + of_nat w')) Q s'" by (simp add: add.assoc)
        qed
        have om: "unat (off mod 1024) = unat off mod BSIZE" by (simp add: unat_mod)
        have "wp (kbind (?rest x) f) Q s1"
          apply (simp only: x if_False kbind_assoc get_inode_def wp_bind_basic kk)
          apply (rule wp_bread [OF s1])
          apply simp
          using card0 card1 apply simp
          apply (simp only: wp_either_Var prod.case kbind_kthen simp_thms if_False zero_neq_neg_one om advance.simps)
          apply (rule wp_set_buf_data [where blk = x], assumption, simp)
          using inside_length [OF s1, of x] lm m(3) fl(2) apply simp
          apply (rule wp_log_write [where blk = x], assumption, simp add: o, simp)
          using card1 apply simp
          apply (rule wp_brelse [where blk = x], assumption, simp, simp)
          apply (rule more)
          apply simp
          done
        then show ?thesis .
      qed
    qed (use o bn in simp_all)
    then show ?thesis using True by (subst writei_loop.simps) (simp add: kbind_assoc)
  qed
qed


section \<open>The inode on disk\<close>

lemma put_addrs_upto:
  assumes "off + 4 * length as \<le> length d" "n \<le> length as"
  defines "d' \<equiv> fold (\<lambda>i d. put32 (off + 4 * i) (as ! i) d) [0..<n] d"
  shows "length d' = length d" "i < n \<Longrightarrow> get32 d' (off + 4 * i) = as ! i"
    "p + l \<le> length d \<Longrightarrow> p + l \<le> off \<or> off + 4 * length as \<le> p \<Longrightarrow> slice l p d' = slice l p d"
proof -
  have "length d' = length d \<and> (\<forall>i<n. get32 d' (off + 4 * i) = as ! i) \<and>
      (\<forall>p l. p + l \<le> length d \<longrightarrow> p + l \<le> off \<or> off + 4 * length as \<le> p \<longrightarrow> slice l p d' = slice l p d)"
    using assms(1,2) unfolding d'_def
  proof (induction n)
    case (Suc n)
    let ?d = "fold (\<lambda>i d. put32 (off + 4 * i) (as ! i) d) [0..<n] d"
    have ih: "length ?d = length d" "\<And>i. i < n \<Longrightarrow> get32 ?d (off + 4 * i) = as ! i"
      "\<And>p l. p + l \<le> length d \<Longrightarrow> p + l \<le> off \<or> off + 4 * length as \<le> p \<Longrightarrow> slice l p ?d = slice l p d"
      using Suc by auto
    have le: "off + 4 * n + 4 \<le> length ?d" using Suc.prems ih(1) by simp
    have "get32 (put32 (off + 4 * n) (as ! n) ?d) (off + 4 * i) = as ! i" if "i < Suc n" for i
    proof (cases "i = n")
      case False
      then show ?thesis using get_put_other(4) [of "off + 4 * i" ?d "off + 4 * n"] ih(2) [of i] that le by simp
    qed (use le in simp)
    moreover have "slice l p (put32 (off + 4 * n) (as ! n) ?d) = slice l p d"
      if "p + l \<le> length d" "p + l \<le> off \<or> off + 4 * length as \<le> p" for p l
    proof -
      have "p + l \<le> off + 4 * n \<or> off + 4 * n + 4 \<le> p" using that(2) Suc.prems(2) by auto
      then show ?thesis using slice_put_other(2) [of p l ?d "off + 4 * n"] ih(1) ih(3) [OF that] that(1) le by simp
    qed
    ultimately show ?case using ih(1) le by simp
  qed simp
  then show "length d' = length d" "i < n \<Longrightarrow> get32 d' (off + 4 * i) = as ! i"
    "p + l \<le> length d \<Longrightarrow> p + l \<le> off \<or> off + 4 * length as \<le> p \<Longrightarrow> slice l p d' = slice l p d"
    by blast+
qed

lemma put_addrs:
  assumes "off + 4 * length as \<le> length d"
  shows "length (put_addrs off as d) = length d" "i < length as \<Longrightarrow> get32 (put_addrs off as d) (off + 4 * i) = as ! i"
    "p + l \<le> length d \<Longrightarrow> p + l \<le> off \<or> off + 4 * length as \<le> p \<Longrightarrow> slice l p (put_addrs off as d) = slice l p d"
  using put_addrs_upto [OF assms, of "length as"] unfolding put_addrs_def by simp_all

lemma dinode_codec:
  assumes "off + 64 \<le> length d" "length (di_addrs di) = NDIRECT + 1"
  shows "length (put_dinode off di d) = length d" "get_dinode (put_dinode off di d) off = di"
    "off' + 64 \<le> length d \<Longrightarrow> off' + 64 \<le> off \<or> off + 64 \<le> off' \<Longrightarrow> get_dinode (put_dinode off di d) off' = get_dinode d off'"
proof -
  let ?d = "put32 (off + 8) (di_size di) (put16 (off + 6) (di_nlink di)
       (put16 (off + 4) (di_minor di) (put16 (off + 2) (di_major di) (put16 off (di_type di) d))))"
  have len: "length ?d = length d" using assms(1) by simp
  have le: "off + 12 + 4 * length (di_addrs di) \<le> length ?d" using assms len by simp
  note P = put_addrs [OF le]
  have e: "put_dinode off di d = put_addrs (off + 12) (di_addrs di) ?d" by (simp add: put_dinode_def)
  show l: "length (put_dinode off di d) = length d" using P(1) len e by simp
  have h16: "get16 (put_dinode off di d) (off + i) = get16 ?d (off + i)" if "i \<le> 6" for i
    using P(3) [of "off + i" 2] that assms(1) len by (simp add: e get16_def)
  have h32: "get32 (put_dinode off di d) (off + 8) = get32 ?d (off + 8)"
    using P(3) [of "off + 8" 4] assms(1) len by (simp add: e get32_def)
  have addrs: "map (\<lambda>i. get32 (put_dinode off di d) (off + 12 + 4 * i)) [0..<NDIRECT + 1] = di_addrs di"
    using P(2) assms(2) by (intro nth_equalityI) (simp_all add: e del: upt_Suc)
  have "get16 ?d off = di_type di" "get16 ?d (off + 2) = di_major di" "get16 ?d (off + 4) = di_minor di"
    "get16 ?d (off + 6) = di_nlink di" "get32 ?d (off + 8) = di_size di"
    using assms(1) by (simp_all add: get_put_other)
  then show "get_dinode (put_dinode off di d) off = di"
    using h16 [of 0] h16 [of 2] h16 [of 4] h16 [of 6] h32 addrs by (simp add: get_dinode_def del: upt_Suc)
  assume o: "off' + 64 \<le> length d" "off' + 64 \<le> off \<or> off + 64 \<le> off'"
  have s: "slice n (off' + i) (put_dinode off di d) = slice n (off' + i) d" if "i + n \<le> 64" for i n
    using P(3) [of "off' + i" n] that o assms len by (auto simp: e slice_put_other)
  have g16: "get16 (put_dinode off di d) (off' + i) = get16 d (off' + i)" if "i \<le> 62" for i
    using s [of i 2] that by (simp add: get16_def)
  have g32: "get32 (put_dinode off di d) (off' + i) = get32 d (off' + i)" if "i \<le> 60" for i
    using s [of i 4] that by (simp add: get32_def)
  show "get_dinode (put_dinode off di d) off' = get_dinode d off'"
    using g16 [of 0] g16 [of 2] g16 [of 4] g16 [of 6] g32 [of 8] g32 [of "12 + 4 * _"]
    by (simp add: get_dinode_def add.assoc del: upt_Suc)
qed


lemma dinode_off_le: "dinode_off inum + 64 \<le> BSIZE"
proof -
  have "unat (inum mod 16) < 16" by (simp add: unat_mod)
  then show ?thesis by (simp add: dinode_off_def)
qed

lemma wp_iupdate:
  assumes a: "inside s0 Map.empty {} v L s" and o: "1 \<le> l_outstanding (klog s0)"
    and ip: "i_dev (itable s0 ! ip) = ROOTDEV" "length (i_addrs (itable s0 ! ip)) = NDIRECT + 1"
    and n: "card L < NBUF" "card (insert (IBLOCK (i_inum (itable s0 ! ip)) (sb s0)) L) < LOGBLOCKS"
    and k: "\<And>s'. inside s0 Map.empty {} (v(IBLOCK (i_inum (itable s0 ! ip)) (sb s0) :=
        put_dinode (dinode_off (i_inum (itable s0 ! ip))) (to_dinode (itable s0 ! ip)) (v (IBLOCK (i_inum (itable s0 ! ip)) (sb s0)))))
      (insert (IBLOCK (i_inum (itable s0 ! ip)) (sb s0)) L) s' \<Longrightarrow> wp m Q s'"
  shows "wp (kthen (iupdate ip) m) Q s"
proof -
  have f: "itable s ! ip = itable s0 ! ip" "sb s = sb s0" using inside_fields(2,3) [OF a] by simp_all
  have len: "length (put_dinode (dinode_off i) (to_dinode (itable s0 ! ip)) (v x)) = BSIZE" for i x
    using dinode_codec(1) [of "dinode_off i" "v x" "to_dinode (itable s0 ! ip)"] dinode_off_le [of i] inside_length [OF a, of x] ip(2)
    by (simp add: to_dinode_def)
  show ?thesis
    unfolding iupdate_def get_inode_def kthen_kbind kthen_assoc
    apply (simp only: wp_bind_basic f ip(1))
    apply (rule wp_bread [OF a], simp, use n(1) in simp)
    apply (rule wp_set_buf_data [where blk = "IBLOCK (i_inum (itable s0 ! ip)) (sb s0)"], assumption, simp, rule len)
    apply (rule wp_log_write [where blk = "IBLOCK (i_inum (itable s0 ! ip)) (sb s0)"], assumption, rule o, simp, rule n(2))
    apply (rule wp_brelse [where blk = "IBLOCK (i_inum (itable s0 ! ip)) (sb s0)"], assumption, simp, simp)
    using k by simp
qed

text \<open>Changing a block of inodes changes no file and no bit of the bitmap.\<close>

lemma inode_block_change:
  assumes fs: "fs_ok sp v" and ok: "file_ok sp v as" and i: "inum < sb_ninodes sp" and d: "length d = BSIZE"
  defines "v2 \<equiv> v(IBLOCK inum sp := d)"
  shows "addr_at v2 as j = addr_at v as j" "j < MAXFILE \<Longrightarrow> addr_at v as j \<noteq> 0 \<Longrightarrow> v2 (addr_at v as j) = v (addr_at v as j)"
    "c < unat (sb_size sp) \<Longrightarrow> used v2 sp c = used v sp c" "fs_ok sp v2" "file_ok sp v2 as" "first_free v2 sp = first_free v sp"
proof -
  have b: "v2 (sb_bmapstart sp) = v (sb_bmapstart sp)" using fs i by (auto simp: fs_ok_def v2_def)
  have nf: "v2 x = v x" if "x \<in> file_blocks v as" for x using ok i that by (auto simp: file_ok_def v2_def)
  show a: "addr_at v2 as j = addr_at v as j" for j
    using nf [OF ind_in_file] by (auto simp: addr_at_def)
  show "v2 (addr_at v as j) = v (addr_at v as j)" if "j < MAXFILE" "addr_at v as j \<noteq> 0"
    using nf [OF addr_in_file [OF that]] .
  have sz: "unat (sb_size sp) \<le> BPB" "0 < unat (sb_size sp)" using fs by (auto simp: fs_ok_def)
  show u: "used v2 sp c = used v sp c" if "c < unat (sb_size sp)" for c
    using b BBLOCK_one [OF sz(1) that] by (simp add: used_def)
  have l: "length (v2 x) = BSIZE" for x using fs d by (simp add: fs_ok_def v2_def)
  have "bitmap_ok v2 sp" using fs u unfolding fs_ok_def bitmap_ok_def by simp
  then show "fs_ok sp v2" using fs u sz(2) l unfolding fs_ok_def by simp
  have fb: "file_blocks v2 as = file_blocks v as" by (simp add: file_blocks_def a)
  show "file_ok sp v2 as" using ok u unfolding file_ok_def fb a by simp
  show "first_free v2 sp = first_free v sp" unfolding first_free_def by (rule find_cong) (use u in auto)
qed


section \<open>writei\<close>

definition spanned :: "nat \<Rightarrow> nat \<Rightarrow> nat" where
  "spanned off n = (off + n + (BSIZE - 1)) div BSIZE - off div BSIZE"

lemma card_touched_spanned:
  assumes "finite L" "L' \<subseteq> touched sp L (off div BSIZE) v as (off + w)" "w \<le> n"
  shows "card L' \<le> card L + 2 + spanned off n"
proof -
  have "finite (touched sp L (off div BSIZE) v as (off + w))" using assms(1) by (simp add: touched_def ind_blocks_def)
  then have "card L' \<le> card L + 2 + ((off + w + (BSIZE - 1)) div BSIZE - off div BSIZE)"
    using card_mono [OF _ assms(2)] card_touched [OF assms(1), of sp "off div BSIZE" v as "off + w"] by linarith
  also have "\<dots> \<le> card L + 2 + spanned off n"
    unfolding spanned_def using assms(3) by (intro add_left_mono diff_le_mono div_le_mono) simp
  finally show ?thesis .
qed

lemma writei_ok:
  fixes s ip defines "k \<equiv> itable s ! ip"
  assumes t: "tx Map.empty {} s" and ok: "inode_ok s ip" and o: "1 \<le> l_outstanding (klog s)" and bs: "length bs = unat n"
    and le: "unat off \<le> unat (i_size k)" "unat off + unat n \<le> MAXFILE * BSIZE"
    and sp: "card (logged_blocks s) + spanned (unat off) (unat n) + 5 < NBUF"
  shows "\<exists>w v' as' s'. writei ip (Var bs) off n s = Ok (of_nat w) s' \<and> w \<le> unat n \<and>
    written (sb s) bs (unat off) w (content s) (i_addrs k) v' as' \<and> (w < unat n \<longrightarrow> first_free v' (sb s) = None) \<and>
    tx Map.empty {} s' \<and> sb s' = sb s \<and> klog s' = (klog s)\<lparr>l_lh := l_lh (klog s')\<rparr> \<and>
    itable s' = (itable s)[ip := k\<lparr>i_addrs := as', i_size := of_nat (max (unat (i_size k)) (unat off + w))\<rparr>] \<and>
    content s' = v'(IBLOCK (i_inum k) (sb s) := put_dinode (dinode_off (i_inum k)) (to_dinode (itable s' ! ip)) (v' (IBLOCK (i_inum k) (sb s)))) \<and>
    logged_blocks s' \<subseteq> insert (IBLOCK (i_inum k) (sb s)) (touched (sb s) (logged_blocks s) (unat off div BSIZE) v' as' (unat off + w))"
    (is "\<exists>w v' as' s'. ?R w v' as' s'")
proof -
  note ok' = ok [unfolded inode_ok_def, folded k_def]
  have ip: "ip < length (itable s)" "i_dev k = ROOTDEV" using ok' by simp_all
  let ?L = "logged_blocks s" and ?B = "IBLOCK (i_inum k) (sb s)" and ?b0 = "unat off div BSIZE"
  let ?up = "\<lambda>off' k. if off' > i_size k then k\<lparr>i_size := off'\<rparr> else k"
  have fin: "finite ?L" by (simp add: logged_blocks_def)
  have eq: "writei ip (Var bs) off n s = kbind (writei_loop ip (Var bs) off n 0) (\<lambda>(tot, off').
       kthen (set_inode ip (?up off')) (kthen (iupdate ip) (kret tot))) s"
    using le add_overflow [of off n] unat_bounds(3) [of n] unat_add_small [of off n]
    by (auto simp: writei_def get_inode_def word_less_nat_alt k_def [symmetric])
  have "wp (kbind (writei_loop ip (Var bs) off n 0) (\<lambda>(tot, off').
       kthen (set_inode ip (?up off')) (kthen (iupdate ip) (kret tot)))) (\<lambda>r s'. \<exists>w v' as'. r = of_nat w \<and> (writei ip (Var bs) off n s = Ok r s' \<longrightarrow> ?R w v' as' s')) s"
  proof (rule wp_writei_loop [OF inside_self [OF t, of ip, folded k_def] ip(1) _ o _ _ fin, where ?b0.0 = "unat off div BSIZE"])
    fix w v' as' c' L' s1
    assume w: "w \<le> length bs" and W: "written (sb s) bs (unat off) w (content s) (i_addrs k) v' as'"
      and L': "L' \<subseteq> touched (sb s) ?L ?b0 v' as' (unat off + w)"
      and ff: "w < length bs \<Longrightarrow> first_free v' (sb s) = None"
      and s1: "inside (with_addrs ip as' c' s) Map.empty {} v' L' s1"
    let ?k = "k\<lparr>i_addrs := as', i_size := of_nat (max (unat (i_size k)) (unat off + w))\<rparr>"
    let ?s0 = "(with_addrs ip as' c' s)\<lparr>itable := (itable s)[ip := ?k]\<rparr>"
    have it: "itable s1 = (itable s)[ip := k\<lparr>i_addrs := as'\<rparr>]"
      using inside_fields(3) [OF s1] ip(1) by (simp add: with_addrs_def k_def)
    have uo: "unat (off + of_nat w) = unat off + w"
      using w bs le(2) by (subst unat_add_small) (simp_all add: unat_of_nat_small)
    have up: "?up (off + of_nat w) (k\<lparr>i_addrs := as'\<rparr>) = ?k"
      using uo by (auto simp: word_less_nat_alt max_def)
    have "upd_nth ip (?up (off + of_nat w)) (itable s1) = (itable s)[ip := ?k]"
      unfolding upd_nth_def it nth_list_update_eq [OF ip(1)] list_update_overwrite up ..
    then have s2: "itable_update (upd_nth ip (?up (off + of_nat w))) s1 = s1\<lparr>itable := (itable s)[ip := ?k]\<rparr>"
      by (cases s1) simp
    have i2: "inside ?s0 Map.empty {} v' L' (s1\<lparr>itable := (itable s)[ip := ?k]\<rparr>)" by (rule inside_itable [OF s1])
    have k0: "itable ?s0 ! ip = ?k" using ip(1) by simp
    have m: "card L' \<le> card ?L + 2 + spanned (unat off) (unat n)" using card_touched_spanned [OF fin L'] w bs by simp
    have "card (insert ?B L') \<le> Suc (card L')" by (rule card_insert_le_m1) simp_all
    then have ci: "card L' < NBUF" "card (insert (IBLOCK (i_inum (itable ?s0 ! ip)) (sb ?s0)) L') < LOGBLOCKS"
      using m sp unfolding k0 by simp_all
    show "wp (case (0 + of_nat w, off + of_nat w) of (tot, off') \<Rightarrow> kthen (set_inode ip (?up off')) (kthen (iupdate ip) (kret tot)))
       (\<lambda>r s'. \<exists>w v' as'. r = of_nat w \<and> (writei ip (Var bs) off n s = Ok r s' \<longrightarrow> ?R w v' as' s')) s1"
      unfolding prod.case set_inode_def wp_bind_basic s2
    proof (rule wp_iupdate [OF i2 _ _ _ ci])
      fix s' assume s': "inside ?s0 Map.empty {} (v'(IBLOCK (i_inum (itable ?s0 ! ip)) (sb ?s0) :=
          put_dinode (dinode_off (i_inum (itable ?s0 ! ip))) (to_dinode (itable ?s0 ! ip)) (v' (IBLOCK (i_inum (itable ?s0 ! ip)) (sb ?s0)))))
          (insert (IBLOCK (i_inum (itable ?s0 ! ip)) (sb ?s0)) L') s'"
      have kl: "klog s' = (klog s)\<lparr>l_lh := l_lh (klog s')\<rparr>"
        using inside_frame [OF s'] unfolding tx_frame_def by (auto simp: with_addrs_def)
      have f: "sb s' = sb s" "itable s' = (itable s)[ip := ?k]" using inside_fields(2,3) [OF s'] by simp_all
      have "?R w v' as' s'" if "writei ip (Var bs) off n s = Ok (of_nat w) s'"
        using that w bs W ff inside_tx [OF s'] inside_content [OF s'] inside_logged [OF s'] L' kl f k0 by auto
      then show "wp (kret (0 + of_nat w)) (\<lambda>r s'. \<exists>w v' as'. r = of_nat w \<and> (writei ip (Var bs) off n s = Ok r s' \<longrightarrow> ?R w v' as' s')) s'"
        unfolding wp_def by auto
    qed (use o ip W k0 in \<open>auto dest: writtenD(2) simp: file_ok_def\<close>)
  qed (use ok' bs le sp in \<open>auto simp: touched_def spanned_def k_def\<close>)
  then show ?thesis unfolding wp_def eq [symmetric] by (auto split: out.splits)
qed


lemma writei_refused:
  assumes "unat off > unat (i_size (itable s ! ip)) \<or> unat off + unat n > MAXFILE * BSIZE"
  shows "writei ip src off n s = Ok (- 1) s"
proof (cases "unat off + unat n < 2 ^ 32")
  case True
  then show ?thesis
    using assms unat_add_small [of off n] by (auto simp: writei_def get_inode_def word_less_nat_alt)
next
  case False
  then show ?thesis using add_overflow [of off n] by (simp add: writei_def get_inode_def)
qed

lemma splice_nth:
  assumes "off \<le> length fb" "w \<le> length bs"
  shows "i < max (length fb) (off + w) \<Longrightarrow> (take off fb @ take w bs @ drop (off + w) fb) ! i =
    (if i < off \<or> off + w \<le> i then fb ! i else bs ! (i - off))"
    "length (take off fb @ take w bs @ drop (off + w) fb) = max (length fb) (off + w)"
  using assms by (auto simp: nth_append)

lemma inode_slots:
  assumes "inum \<noteq> inum'" "IBLOCK inum sp = IBLOCK inum' sp"
  shows "dinode_off inum' + 64 \<le> dinode_off inum \<or> dinode_off inum + 64 \<le> dinode_off inum'"
proof -
  have "inum div 16 = inum' div 16" using assms(2) by (simp add: IBLOCK_def)
  then have "unat (inum div 16) = unat (inum' div 16)" by simp
  then have "unat inum div 16 = unat inum' div 16" by (simp add: unat_div)
  moreover have "unat inum \<noteq> unat inum'" using assms(1) by (simp add: word_unat_eq_iff)
  ultimately have "unat inum mod 16 \<noteq> unat inum' mod 16" by (metis div_mult_mod_eq)
  then show ?thesis by (simp add: dinode_off_def unat_mod) linarith
qed

lemma writei_spec:
  assumes "tx Map.empty {} s" and "inode_ok s ip" and "1 \<le> l_outstanding (klog s)" and "length bs = unat n"
    and "card (logged_blocks s) + spanned (unat off) (unat n) + 5 < NBUF"
  shows "let k = itable s ! ip; fb = file_bytes (content s) k in
    if unat off > length fb \<or> unat off + unat n > MAXFILE * BSIZE then writei ip (Var bs) off n s = Ok (- 1) s
    else \<exists>w s'. writei ip (Var bs) off n s = Ok (of_nat w) s' \<and> w \<le> unat n \<and>
      (w < unat n \<longrightarrow> first_free (content s') (sb s) = None) \<and> tx Map.empty {} s' \<and> inode_ok s' ip \<and>
      card (logged_blocks s') \<le> card (logged_blocks s) + spanned (unat off) (unat n) + 3 \<and>
      file_bytes (content s') (itable s' ! ip) = take (unat off) fb @ take w bs @ drop (unat off + w) fb \<and>
      get_dinode (content s' (IBLOCK (i_inum k) (sb s))) (dinode_off (i_inum k)) = to_dinode (itable s' ! ip) \<and>
      (\<forall>inum < sb_ninodes (sb s). inum \<noteq> i_inum k \<longrightarrow>
         get_dinode (content s' (IBLOCK inum (sb s))) (dinode_off inum) = get_dinode (content s (IBLOCK inum (sb s))) (dinode_off inum)) \<and>
      (\<forall>x. unat x < unat (sb_size (sb s)) \<longrightarrow> used (content s) (sb s) (unat x) \<longrightarrow>
         x \<notin> file_blocks (content s) (i_addrs k) \<union> {sb_bmapstart (sb s), IBLOCK (i_inum k) (sb s)} \<longrightarrow> content s' x = content s x)"
proof -
  define k where "k = itable s ! ip"
  let ?v = "content s" and ?sp = "sb s" and ?size = "unat (i_size k)"
  let ?fb = "file_bytes ?v k" and ?B = "IBLOCK (i_inum k) (sb s)"
  note ok = assms(2) [unfolded inode_ok_def, folded k_def]
  have lfb: "length ?fb = ?size" by (simp add: file_bytes_def)
  show ?thesis
  proof (cases "unat off > ?size \<or> unat off + unat n > MAXFILE * BSIZE")
    case True
    then show ?thesis using writei_refused [of s ip off n] lfb by (simp add: k_def [symmetric])
  next
    case False
    then have le: "unat off \<le> ?size" "unat off + unat n \<le> MAXFILE * BSIZE" by simp_all
    obtain w v' as' s' where R: "writei ip (Var bs) off n s = Ok (of_nat w) s'" "w \<le> unat n"
        "written ?sp bs (unat off) w ?v (i_addrs k) v' as'" "w < unat n \<longrightarrow> first_free v' ?sp = None"
        "tx Map.empty {} s'" "sb s' = ?sp"
        "itable s' = (itable s)[ip := k\<lparr>i_addrs := as', i_size := of_nat (max ?size (unat off + w))\<rparr>]"
        "content s' = v'(?B := put_dinode (dinode_off (i_inum k)) (to_dinode (itable s' ! ip)) (v' ?B))"
        "logged_blocks s' \<subseteq> insert ?B (touched ?sp (logged_blocks s) (unat off div BSIZE) v' as' (unat off + w))"
      using writei_ok [OF assms(1-4) le [unfolded k_def] assms(5), folded k_def] by blast
    note W = writtenD [OF R(3)]
    define k' where "k' = itable s' ! ip"
    have mx: "max ?size (unat off + w) \<le> MAXFILE * BSIZE" using ok le R(2) by (simp add: no_holes_def)
    have k': "i_addrs k' = as'" "unat (i_size k') = max ?size (unat off + w)" "i_dev k' = ROOTDEV" "i_inum k' = i_inum k"
      using ok R(7) mx by (simp_all add: k'_def unat_of_nat_small)
    have lv: "length (v' x) = BSIZE" for x using W(1) by (simp add: fs_ok_def)
    have inum: "i_inum k < sb_ninodes ?sp" using ok by simp
    have ad: "length (di_addrs (to_dinode k')) = NDIRECT + 1" using W(2) k'(1) by (simp add: to_dinode_def file_ok_def)
    have "dinode_off (i_inum k) + 64 \<le> length (v' ?B)" using dinode_off_le lv by simp
    note codec = dinode_codec [OF this ad]
    define d where "d = put_dinode (dinode_off (i_inum k)) (to_dinode k') (v' ?B)"
    have c: "content s' = v'(?B := d)" using R(8) by (simp add: d_def k'_def)
    have ld: "length d = BSIZE" using codec(1) lv by (simp add: d_def)
    note C = inode_block_change [OF W(1,2) inum ld, folded c]
    have nz: "addr_at v' as' (i div BSIZE) \<noteq> 0" if "i < max ?size (unat off + w)" for i
    proof (cases "i < ?size")
      case True
      then have a: "addr_at ?v (i_addrs k) (i div BSIZE) \<noteq> 0" "i < MAXFILE * BSIZE" using ok by (auto simp: no_holes_def)
      then have "i div BSIZE < MAXFILE" by (simp add: less_mult_imp_div_less)
      then show ?thesis using W(5) [OF _ a(1)] a(1) by simp
    qed (use W(3) that le in auto)
    have fb: "fbyte (content s') as' i = fbyte v' as' i" if "i < max ?size (unat off + w)" for i
    proof -
      have "i < MAXFILE * BSIZE" using that mx by linarith
      then have "i div BSIZE < MAXFILE" by (simp add: less_mult_imp_div_less)
      then show ?thesis using C(1) C(2) [OF _ nz [OF that]] by (simp add: fbyte_def)
    qed
    have bytes: "file_bytes (content s') k' = take (unat off) ?fb @ take w bs @ drop (unat off + w) ?fb"
    proof (rule nth_equalityI)
      show "length (file_bytes (content s') k') = length (take (unat off) ?fb @ take w bs @ drop (unat off + w) ?fb)"
        using splice_nth(2) [of "unat off" ?fb w bs] lfb le(1) R(2) assms(4) k'(2) by (simp add: file_bytes_def)
      fix i assume "i < length (file_bytes (content s') k')"
      then have i: "i < max ?size (unat off + w)" using k'(2) by (simp add: file_bytes_def)
      then have l: "file_bytes (content s') k' ! i = fbyte v' as' i" using k'(1,2) fb by (simp add: file_bytes_def)
      have r: "(take (unat off) ?fb @ take w bs @ drop (unat off + w) ?fb) ! i =
          (if i < unat off \<or> unat off + w \<le> i then ?fb ! i else bs ! (i - unat off))"
        using splice_nth(1) [of "unat off" ?fb w bs i] lfb le(1) R(2) assms(4) i by simp
      show "file_bytes (content s') k' ! i = (take (unat off) ?fb @ take w bs @ drop (unat off + w) ?fb) ! i"
      proof (cases "i < unat off \<or> unat off + w \<le> i")
        case True
        then have isz: "i < ?size" using i le(1) by auto
        then have a: "addr_at ?v (i_addrs k) (i div BSIZE) \<noteq> 0" "i < MAXFILE * BSIZE" using ok by (auto simp: no_holes_def)
        show ?thesis using l r W(6) [OF a(2,1) True] True isz by (simp add: file_bytes_def)
      next
        case False
        then show ?thesis using l r W(4) [of i] by simp
      qed
    qed
    have "no_holes (content s') as' (unat (i_size k'))"
      using nz mx C(1) unfolding no_holes_def k'(2) by simp
    then have iok: "inode_ok s' ip"
      using C(4,5) ok k' R(6,7) unfolding inode_ok_def k'_def [symmetric] by simp
    have other: "content s' x = ?v x" if "unat x < unat (sb_size ?sp)" "used ?v ?sp (unat x)"
        "x \<notin> file_blocks ?v (i_addrs k) \<union> {sb_bmapstart ?sp, ?B}" for x
      using W(9) [OF that(1,2)] that(3) c by simp
    have di: "get_dinode (content s' (IBLOCK inum ?sp)) (dinode_off inum) = get_dinode (?v (IBLOCK inum ?sp)) (dinode_off inum)"
      if i: "inum < sb_ninodes ?sp" "inum \<noteq> i_inum k" for inum
    proof -
      have u: "unat (IBLOCK inum ?sp) < unat (sb_size ?sp)" "used ?v ?sp (unat (IBLOCK inum ?sp))"
        "IBLOCK inum ?sp \<noteq> sb_bmapstart ?sp" "IBLOCK inum ?sp \<notin> file_blocks ?v (i_addrs k)"
        using ok i(1) by (auto simp: fs_ok_def file_ok_def)
      then have same: "v' (IBLOCK inum ?sp) = ?v (IBLOCK inum ?sp)" using W(9) by blast
      show ?thesis
      proof (cases "IBLOCK inum ?sp = ?B")
        case True
        then show ?thesis
          using codec(3) [of "dinode_off inum"] inode_slots [of "i_inum k" inum ?sp] i(2) dinode_off_le [of inum] lv same c
          by (auto simp: d_def)
      qed (use same c in simp)
    qed
    have "get_dinode (content s' ?B) (dinode_off (i_inum k)) = to_dinode k'" using codec(2) c by (simp add: d_def)
    moreover have "card (logged_blocks s') \<le> card (logged_blocks s) + spanned (unat off) (unat n) + 3"
    proof -
      have fin: "finite (logged_blocks s)" "finite (logged_blocks s')" by (simp_all add: logged_blocks_def)
      have "logged_blocks s' - {?B} \<subseteq> touched ?sp (logged_blocks s) (unat off div BSIZE) v' as' (unat off + w)" using R(9) by auto
      from card_touched_spanned [OF fin(1) this R(2)] show ?thesis using card_Diff1_le card_Suc_Diff1 [OF fin(2), of ?B]
        by (cases "?B \<in> logged_blocks s'") simp_all
    qed
    moreover have "first_free (content s') ?sp = None" if "w < unat n" using C(6) R(4) that by simp
    ultimately show ?thesis
      using False R(1,2,5) iok bytes other di lfb unfolding k_def [symmetric] Let_def k'_def by auto
  qed
qed

end
