(* ===== verification/Xv6_FileIO.thy ===== *)
theory Xv6_FileIO
  imports Xv6_FileWrite
begin

text \<open>
  What readi and writei of kernel/fs.c promise: a file is an array of bytes. A sample file system with
  one inode shows that the assumptions can hold.
\<close>

section \<open>A sample\<close>

text \<open>Blocks 0 to 7 are in use: 1 holds inodes, 2 is the bitmap, 7 is the only block of file 1.\<close>

definition hello :: "u8 list" where
  "hello = [104, 101, 108, 108, 111]"

definition sample_disk :: "u32 \<Rightarrow> block" where
  "sample_disk = (\<lambda>_. replicate BSIZE 0)(2 := (replicate BSIZE 0)[0 := 255], 7 := hello @ replicate 1019 0)"

definition sample_sb :: superblock where
  "sample_sb = superblock0\<lparr>sb_size := 100, sb_ninodes := 16, sb_inodestart := 1, sb_bmapstart := 2\<rparr>"

definition sample_inode :: inode where
  "sample_inode = inode0\<lparr>i_dev := ROOTDEV, i_inum := 1, i_ref := 1, i_valid := True, i_type := 2, i_size := 5,
     i_addrs := 7 # replicate 12 0\<rparr>"

definition sample_fs :: kstate where
  "sample_fs = (started_tx sample_disk sample_sb)\<lparr>itable := [sample_inode]\<rparr>"

lemma sample_used: "b < 100 \<Longrightarrow> used sample_disk sample_sb b \<longleftrightarrow> b < 8"
proof -
  assume b: "b < 100"
  have "(255 :: u8) = - 1" by simp
  then have "bit (255 :: u8) n" if "n < 8" for n using that by (simp only: bit_minus_1_iff) (simp add: possible_bit_word)
  moreover have "BBLOCK (of_nat b) sample_sb = 2"
    using b BBLOCK_same [of b 0 sample_sb] by (simp add: BBLOCK_def sample_sb_def)
  moreover have "(b mod BPB) div 8 = 0 \<longleftrightarrow> b < 8" using b by auto
  ultimately show ?thesis using b unfolding used_def block_free_bit sample_disk_def by (auto simp: nth_list_update)
qed

lemma sample_addr: "addr_at v (7 # replicate 12 0) j = (if j = 0 then 7 else 0)"
  by (simp add: addr_at_def nth_Cons')

lemma sample_IBLOCK: "inum < 16 \<Longrightarrow> IBLOCK inum sample_sb = 1"
proof -
  assume "inum < 16"
  then have "unat (inum div 16) = 0" by (simp add: unat_div word_less_nat_alt)
  then show ?thesis by (simp add: IBLOCK_def sample_sb_def unat_eq_zero)
qed

lemma sample_fs:
  "tx Map.empty {} sample_fs" "content sample_fs = sample_disk" "logged_blocks sample_fs = {}" "sb sample_fs = sample_sb"
  "l_outstanding (klog sample_fs) = 1" "itable sample_fs = [sample_inode]" "inode_ok sample_fs 0"
  "file_bytes sample_disk sample_inode = hello" "i_size sample_inode = 5"
proof -
  have len: "length (sample_disk x) = BSIZE" for x by (simp add: sample_disk_def hello_def)
  note st = started_tx [where d = sample_disk and sp = sample_sb, OF len]
  show t: "tx Map.empty {} sample_fs" "content sample_fs = sample_disk" "logged_blocks sample_fs = {}" "sb sample_fs = sample_sb"
    "l_outstanding (klog sample_fs) = 1" "itable sample_fs = [sample_inode]"
    using st by (simp_all add: sample_fs_def)
  have sz: "sb_size sample_sb = 100" "sb_bmapstart sample_sb = 2" "sb_ninodes sample_sb = 16" by (simp_all add: sample_sb_def)
  have bm: "bitmap_ok sample_disk sample_sb"
    unfolding bitmap_ok_def
  proof (intro allI impI)
    fix b b' assume b: "b < unat (sb_size sample_sb)" "b' < unat (sb_size sample_sb)" "BBLOCK (of_nat b) sample_sb = of_nat b'"
    then have "b < 100" "b' < 100" by (simp_all add: sz)
    moreover from this b(3) have "unat (of_nat b' :: u32) = unat (2 :: u32)"
      using BBLOCK_same [of b 0 sample_sb] by (simp add: BBLOCK_def sz)
    ultimately show "used sample_disk sample_sb b'" using sample_used by (simp add: unat_of_nat take_bit_nat_eq_self)
  qed
  then have fs: "fs_ok sample_sb sample_disk"
    using len sample_used sample_IBLOCK unfolding fs_ok_def by (simp add: sz)
  have fb: "file_blocks v (7 # replicate 12 0) = {7}" for v
    by (auto simp: file_blocks_def ind_blocks_def sample_addr image_iff)
  have "file_ok sample_sb sample_disk (7 # replicate 12 0)"
    unfolding file_ok_def fb using sample_used [of 7] sample_IBLOCK
    by (auto simp: sample_addr ind_blocks_def sz split: if_splits)
  then show "inode_ok sample_fs 0"
    using fs by (auto simp: inode_ok_def t sz sample_inode_def no_holes_def sample_addr word_less_nat_alt)
  show "file_bytes sample_disk sample_inode = hello"
    by (simp add: file_bytes_def sample_inode_def fbyte_def sample_addr upt_rec)
       (simp add: sample_disk_def hello_def)
qed (simp add: sample_inode_def)

section \<open>Reading and writing\<close>

text \<open>C4: readi refines reading from an array of bytes: it returns the bytes of the file from \<open>off\<close> on, as
many as asked for and as the file has, whatever the alignment and whether the blocks are direct or
indirect. Past the end of the file, or if \<open>off + n\<close> overflows, it returns 0 bytes. It changes no
block.\<close>

theorem readi_reads_file_bytes:
  assumes "tx Map.empty {} s" and "inode_ok s ip" and "card (logged_blocks s) + 5 < NBUF"
  shows "\<exists>s'. readi ip (Var d) off n s =
      (let size = unat (i_size (itable s ! ip));
           m = (if unat off > size \<or> unat off + unat n \<ge> 2 ^ 32 then 0 else min (unat n) (size - unat off))
       in Ok (of_nat m, slice m (unat off) (file_bytes (content s) (itable s ! ip))) s') \<and>
    content s' = content s \<and> tx Map.empty {} s'"
  using assms by (rule readi_spec)

theorem readi_reads_file_bytes_witness:
  "\<exists>s'. readi 0 (Var []) 1 10 sample_fs = Ok (4, [101, 108, 108, 111]) s' \<and> content s' = sample_disk"
  using readi_reads_file_bytes [of sample_fs 0 "[]" 1 10] unfolding sample_fs
  by (simp add: sample_fs hello_def slice_def Let_def) blast







end
