(* ===== verification/Xv6_Console.thy ===== *)
theory Xv6_Console
  imports Xv6_Bio
begin

text \<open>
  kernel/console.c and kernel/uart.c, and procdump of kernel/proc.c, which console input calls.
  The console's input is a ring of 128 bytes with three 32-bit counters: read (r), committed (w)
  and being edited (e).
\<close>

section \<open>The UART\<close>

definition WriteReg :: "nat \<Rightarrow> u8 \<Rightarrow> unit kernel" where
  "WriteReg reg v = kmodify (\<lambda>s. s\<lparr>uart_regs := (uart_regs s)(reg := v)\<rparr>)"

text \<open>ReadReg(LSR) & LSR_TX_IDLE\<close>

definition tx_idle :: "bool kernel" where
  "tx_idle =
     kbind (kgets (\<lambda>s. uart_idle s (uart_polls s))) (\<lambda>b.
     kthen (kmodify (\<lambda>s. s\<lparr>uart_polls := uart_polls s + 1\<rparr>)) (kret b))"

text \<open>Registers IER = 1, FCR = 2, LCR = 3.\<close>

definition uartinit :: "unit kernel" where
  "uartinit =
     kthen (WriteReg 1 0x00)
     (kthen (WriteReg 3 0x80)
     (kthen (WriteReg 0 0x03)
     (kthen (WriteReg 1 0x00)
     (kthen (WriteReg 3 0x03)
     (kthen (WriteReg 2 0x07)
     (kthen (WriteReg 1 0x03)
     (initsleeplock tx_lock_update)))))))"

text \<open>The loop of uartwrite on the bytes left; a busy device puts the process to sleep.\<close>

fun uartwrite_loop :: "u8 list \<Rightarrow> unit kernel" where
  "uartwrite_loop [] = kret ()"
| "uartwrite_loop (c # cs) =
     kthen (sleep_prepare (Some ChUartTx))
     (kbind tx_idle (\<lambda>idle.
      if idle then kthen (uartputc_sync (unat c)) (uartwrite_loop cs)
      else sleep))"

definition uartwrite :: "u8 list \<Rightarrow> unit kernel" where
  "uartwrite buf =
     kthen (acquiresleep tx_lock tx_lock_update ChUartLock)
     (kthen (uartwrite_loop buf)
     (releasesleep tx_lock_update ChUartLock))"

text \<open>-1 when no input is waiting.\<close>

definition uartgetc :: "int kernel" where
  "uartgetc =
     kbind (kgets uart_rx) (\<lambda>rx.
     case rx of [] \<Rightarrow> kret (- 1)
     | c # cs \<Rightarrow> kthen (kmodify (\<lambda>s. s\<lparr>uart_rx := cs\<rparr>)) (kret (uint c)))"

section \<open>The process list\<close>

fun state_name :: "procstate \<Rightarrow> string" where
  "state_name UNUSED = ''unused''"
| "state_name USED = ''used''"
| "state_name SLEEPING = ''sleep ''"
| "state_name RUNNABLE = ''runble''"
| "state_name RUNNING = ''run   ''"
| "state_name ZOMBIE = ''zombie''"

text \<open>The C string in a byte array.\<close>

definition c_string :: "u8 list \<Rightarrow> string" where
  "c_string bs = map (\<lambda>b. char_of (unat b)) (takeWhile (\<lambda>b. b \<noteq> 0) bs)"

definition procdump :: "unit kernel" where
  "procdump =
     kthen (printk [newline] [])
     (kfor [0..<NPROC] (\<lambda>i.
        kbind (get_proc i) (\<lambda>p.
        if p_state p = UNUSED then kret ()
        else kthen (printk ''%d %s %s'' [Num (word_of_int (p_pid p)), Str (Some (state_name (p_state p))),
               Str (Some (c_string (p_name p)))])
             (printk [newline] []))))"

section \<open>Console input\<close>

abbreviation (input) INPUT_BUF_SIZE :: u32 where "INPUT_BUF_SIZE \<equiv> 128"

abbreviation (input) upd_cons :: "(console \<Rightarrow> console) \<Rightarrow> kstate \<Rightarrow> kstate" where
  "upd_cons f \<equiv> cons_update f"

definition cons_at :: "console \<Rightarrow> u32 \<Rightarrow> u8" where
  "cons_at c i = c_buf c ! unat (i mod INPUT_BUF_SIZE)"

text \<open>
  The loop of ^U: erase back to the end of the last committed line. At most INPUT_BUF_SIZE
  characters are being edited.
\<close>

fun kill_line :: "nat \<Rightarrow> unit kernel" where
  "kill_line 0 = kret ()"
| "kill_line (Suc n) =
     kbind (kgets cons) (\<lambda>c.
     if c_e c \<noteq> c_w c \<and> cons_at c (c_e c - 1) \<noteq> 10
     then kthen (kmodify (upd_cons (\<lambda>c. c\<lparr>c_e := c_e c - 1\<rparr>)))
          (kthen (consputc BACKSPACE) (kill_line n))
     else kret ())"

text \<open>C('P') = 16, C('U') = 21, C('H') = 8, C('D') = 4.\<close>

definition consoleintr :: "nat \<Rightarrow> unit kernel" where
  "consoleintr ch =
     (if ch = 16 then procdump
      else if ch = 21 then kill_line 129
      else if ch = 8 \<or> ch = 0x7f then
        kbind (kgets cons) (\<lambda>c.
        kwhen (c_e c \<noteq> c_w c)
          (kthen (kmodify (upd_cons (\<lambda>c. c\<lparr>c_e := c_e c - 1\<rparr>))) (consputc BACKSPACE)))
      else
        kbind (kgets cons) (\<lambda>c.
        kwhen (ch \<noteq> 0 \<and> c_e c - c_r c < INPUT_BUF_SIZE)
          (let ch = (if ch = 13 then 10 else ch) in
           kthen (consputc ch)
           (kthen (kmodify (upd_cons (\<lambda>c. c\<lparr>
              c_buf := (c_buf c)[unat (c_e c mod INPUT_BUF_SIZE) := of_nat ch], c_e := c_e c + 1\<rparr>)))
           (kbind (kgets cons) (\<lambda>c.
            kwhen (ch = 10 \<or> ch = 4 \<or> c_e c - c_r c = INPUT_BUF_SIZE)
              (kthen (kmodify (upd_cons (\<lambda>c. c\<lparr>c_w := c_e c\<rparr>)))
               (wakeup (Some ChCons)))))))))"

text \<open>The loop of uartintr over the input waiting.\<close>

fun uartintr_loop :: "nat \<Rightarrow> unit kernel" where
  "uartintr_loop 0 = kret ()"
| "uartintr_loop (Suc n) =
     kbind uartgetc (\<lambda>c.
     if c = - 1 then kret () else kthen (consoleintr (nat c)) (uartintr_loop n))"

definition uartintr :: "unit kernel" where
  "uartintr =
     kbind tx_idle (\<lambda>idle.
     kthen (kwhen idle (wakeup (Some ChUartTx)))
     (kbind (kgets uart_rx) (\<lambda>rx. uartintr_loop (length rx + 1))))"

section \<open>Reading and writing the console\<close>

text \<open>
  The loop of consoleread, with \<open>n\<close> bytes left of \<open>target\<close>; the result is target - n at the end.
  An empty ring puts the reader to sleep.
\<close>

fun consoleread_loop :: "place \<Rightarrow> nat \<Rightarrow> nat \<Rightarrow> int kernel" where
  "consoleread_loop dst target 0 = kret (int target)"
| "consoleread_loop dst target (Suc n) =
     kbind (kgets cons) (\<lambda>c.
     if c_r c = c_w c
     then kbind myproc (\<lambda>i.
       kbind (killed i) (\<lambda>kd.
       if kd then kret (- 1)
       else kthen (sleep_prepare (Some ChCons)) (kthen sleep (kret (- 1)))))
     else
       let ch = cons_at c (c_r c) in
       kthen (kmodify (upd_cons (\<lambda>c. c\<lparr>c_r := c_r c + 1\<rparr>)))
       (if ch = 4
        then kthen (kwhen (Suc n < target) (kmodify (upd_cons (\<lambda>c. c\<lparr>c_r := c_r c - 1\<rparr>))))
             (kret (int target - int (Suc n)))
        else kbind (either_copyout dst [ch]) (\<lambda>r.
          if r = - 1 then kret (int target - int (Suc n))
          else if ch = 10 then kret (int target - int n)
          else consoleread_loop (advance dst 1) target n)))"

text \<open>A negative \<open>n\<close> does not occur: fileread rejects it.\<close>

definition consoleread :: "place \<Rightarrow> int \<Rightarrow> int kernel" where
  "consoleread dst n = consoleread_loop dst (nat n) (nat n)"

text \<open>Batches of at most 32 bytes.\<close>

function consolewrite_loop :: "place \<Rightarrow> nat \<Rightarrow> nat \<Rightarrow> int kernel" where
  "consolewrite_loop src i n =
     (if \<not> i < n then kret (int i)
      else
        kbind (either_copyin src (min 32 (n - i))) (\<lambda>(r, buf).
        if r = - 1 then kret (int i)
        else kthen (uartwrite buf)
             (consolewrite_loop (advance src (of_nat (min 32 (n - i)))) (i + min 32 (n - i)) n)))"
  by pat_completeness auto
termination
  by (relation "measure (\<lambda>(src, i, n). n - i)") auto

declare consolewrite_loop.simps [simp del]

definition consolewrite :: "place \<Rightarrow> int \<Rightarrow> int kernel" where
  "consolewrite src n = consolewrite_loop src 0 (nat n)"

text \<open>devsw: only the console, major number CONSOLE = 1, has read and write routines.\<close>

definition devsw_read :: "int \<Rightarrow> (place \<Rightarrow> int \<Rightarrow> int kernel) option" where
  "devsw_read major = (if major = 1 then Some consoleread else None)"

definition devsw_write :: "int \<Rightarrow> (place \<Rightarrow> int \<Rightarrow> int kernel) option" where
  "devsw_write major = (if major = 1 then Some consolewrite else None)"

definition consoleinit :: "unit kernel" where
  "consoleinit = uartinit"

end
