(* ===== verification/Xv6_Pipe.thy ===== *)
theory Xv6_Pipe
  imports Xv6_Proc
begin

text \<open>
  kernel/pipe.c but pipealloc, which is in Xv6_File. A pipe is known by the address of its page.
  nread and nwrite are 32-bit counters that wrap; the data array is indexed modulo PIPESIZE.
\<close>

abbreviation (input) PIPESIZE :: u32 where "PIPESIZE \<equiv> 512"

definition get_pipe :: "u64 \<Rightarrow> pipe kernel" where
  "get_pipe pi = kgets (\<lambda>s. pipes s pi)"

definition set_pipe :: "u64 \<Rightarrow> (pipe \<Rightarrow> pipe) \<Rightarrow> unit kernel" where
  "set_pipe pi f = kmodify (\<lambda>s. s\<lparr>pipes := (pipes s)(pi := f (pipes s pi))\<rparr>)"

definition pipeclose :: "u64 \<Rightarrow> bool \<Rightarrow> unit kernel" where
  "pipeclose pi writable =
     kthen (if writable
            then kthen (set_pipe pi (\<lambda>k. k\<lparr>pi_writeopen := False\<rparr>)) (wakeup (Some (ChPipeRead pi)))
            else kthen (set_pipe pi (\<lambda>k. k\<lparr>pi_readopen := False\<rparr>)) (wakeup (Some (ChPipeWrite pi))))
     (kbind (get_pipe pi) (\<lambda>k.
      if \<not> pi_readopen k \<and> \<not> pi_writeopen k then kfree pi else kret ()))"

text \<open>The buffer: full when nwrite == nread + PIPESIZE, empty when nread == nwrite.\<close>

definition pipe_full :: "pipe \<Rightarrow> bool" where
  "pipe_full k \<longleftrightarrow> pi_nwrite k = pi_nread k + PIPESIZE"

definition pipe_empty :: "pipe \<Rightarrow> bool" where
  "pipe_empty k \<longleftrightarrow> pi_nread k = pi_nwrite k"

text \<open>pi->data[pi->nwrite++ % PIPESIZE] = ch\<close>

definition pipe_put :: "u8 \<Rightarrow> pipe \<Rightarrow> pipe" where
  "pipe_put ch k =
     k\<lparr>pi_data := (pi_data k)[unat (pi_nwrite k mod PIPESIZE) := ch], pi_nwrite := pi_nwrite k + 1\<rparr>"

text \<open>pi->data[pi->nread % PIPESIZE]\<close>

definition pipe_peek :: "pipe \<Rightarrow> u8" where
  "pipe_peek k = pi_data k ! unat (pi_nread k mod PIPESIZE)"

text \<open>
  The loop of pipewrite from index \<open>i\<close> with \<open>m\<close> bytes left. A full pipe puts the writer to sleep;
  once woken it goes on with the same \<open>i\<close>. As it has registered for the channel just before, sleep ends
  the step here and the value after it is not reached.
\<close>

fun pipewrite_loop :: "u64 \<Rightarrow> u64 \<Rightarrow> nat \<Rightarrow> nat \<Rightarrow> int kernel" where
  "pipewrite_loop pi addr i 0 = kthen (wakeup (Some (ChPipeRead pi))) (kret (int i))"
| "pipewrite_loop pi addr i (Suc m) =
     kbind (get_pipe pi) (\<lambda>k.
     kbind myproc (\<lambda>pr.
     kbind (killed pr) (\<lambda>kd.
     if \<not> pi_readopen k \<or> kd then kret (- 1)
     else if pipe_full k
     then kthen (wakeup (Some (ChPipeRead pi)))
          (kthen (sleep_prepare (Some (ChPipeWrite pi))) (kthen sleep (kret (- 1))))
     else
       kbind (get_proc pr) (\<lambda>p.
       kbind (copyin (p_pagetable p) (p_sz p) (addr + of_nat i) 1) (\<lambda>(r, bs).
       if r = - 1
       then kthen (wakeup (Some (ChPipeRead pi))) (kret (if i = 0 then - 1 else int i))
       else kthen (set_pipe pi (pipe_put (hd bs))) (pipewrite_loop pi addr (Suc i) m))))))"

definition pipewrite :: "u64 \<Rightarrow> u64 \<Rightarrow> int \<Rightarrow> int kernel" where
  "pipewrite pi addr n = pipewrite_loop pi addr 0 (nat n)"

text \<open>The copying loop of piperead; the result is the index \<open>i\<close> at which it ends.\<close>

fun piperead_loop :: "u64 \<Rightarrow> u64 \<Rightarrow> nat \<Rightarrow> nat \<Rightarrow> int kernel" where
  "piperead_loop pi addr i 0 = kret (int i)"
| "piperead_loop pi addr i (Suc m) =
     kbind (get_pipe pi) (\<lambda>k.
     if pipe_empty k then kret (int i)
     else
       kbind myproc (\<lambda>pr.
       kbind (get_proc pr) (\<lambda>p.
       kbind (copyout (p_pagetable p) (p_sz p) (addr + of_nat i) [pipe_peek k]) (\<lambda>r.
       if r = - 1 then kret (if i = 0 then - 1 else int i)
       else kthen (set_pipe pi (\<lambda>k. k\<lparr>pi_nread := pi_nread k + 1\<rparr>))
            (piperead_loop pi addr (Suc i) m)))))"

text \<open>One test of the waiting loop, then the copy.\<close>

definition piperead :: "u64 \<Rightarrow> u64 \<Rightarrow> int \<Rightarrow> int kernel" where
  "piperead pi addr n =
     kbind (get_pipe pi) (\<lambda>k.
     if pipe_empty k \<and> pi_writeopen k
     then kbind myproc (\<lambda>pr.
       kbind (killed pr) (\<lambda>kd.
       if kd then kret (- 1)
       else kthen (sleep_prepare (Some (ChPipeRead pi))) (kthen sleep (kret (- 1)))))
     else kbind (piperead_loop pi addr 0 (nat n)) (\<lambda>i.
       kthen (wakeup (Some (ChPipeWrite pi))) (kret i)))"

end
