(* ===== verification/Xv6_Ring.thy ===== *)
theory Xv6_Ring
  imports Xv6_Console Xv6_Pipe Xv6_Sleep
begin

text \<open>
  The ring buffers of kernel/pipe.c and kernel/console.c as bounded queues. Both use 32-bit counters
  that wrap around and are reduced modulo the size of the array only to index it.
\<close>

section \<open>The interface\<close>

locale bounded_queue =
  fixes cap :: nat and ok :: "'q \<Rightarrow> bool" and contents :: "'q \<Rightarrow> 'a list"
    and is_empty :: "'q \<Rightarrow> bool" and is_full :: "'q \<Rightarrow> bool"
    and put :: "'a \<Rightarrow> 'q \<Rightarrow> 'q" and peek :: "'q \<Rightarrow> 'a" and skip :: "'q \<Rightarrow> 'q"
  assumes bounded: "ok q \<Longrightarrow> length (contents q) \<le> cap"
    and is_empty: "ok q \<Longrightarrow> is_empty q \<longleftrightarrow> contents q = []"
    and is_full: "ok q \<Longrightarrow> is_full q \<longleftrightarrow> length (contents q) = cap"
    and put: "ok q \<Longrightarrow> \<not> is_full q \<Longrightarrow> ok (put x q) \<and> contents (put x q) = contents q @ [x]"
    and peek: "ok q \<Longrightarrow> \<not> is_empty q \<Longrightarrow> peek q = hd (contents q)"
    and skip: "ok q \<Longrightarrow> \<not> is_empty q \<Longrightarrow> ok (skip q) \<and> contents (skip q) = tl (contents q)"
begin

lemma put_all:
  "ok q \<Longrightarrow> length (contents q) + length xs \<le> cap \<Longrightarrow> ok (fold put xs q) \<and> contents (fold put xs q) = contents q @ xs"
proof (induction xs arbitrary: q)
  case (Cons x xs)
  then have "\<not> is_full q" using is_full [of q] by simp
  then show ?case using put [of q x] Cons.IH [of "put x q"] Cons.prems by simp
qed simp

lemma skip_many:
  "ok q \<Longrightarrow> n \<le> length (contents q) \<Longrightarrow> ok ((skip ^^ n) q) \<and> contents ((skip ^^ n) q) = drop n (contents q)"
proof (induction n)
  case (Suc n)
  let ?q = "(skip ^^ n) q"
  have q: "ok ?q" "contents ?q = drop n (contents q)" using Suc by simp_all
  moreover have "drop n (contents q) \<noteq> []" using Suc.prems by simp
  ultimately have "\<not> is_empty ?q" using is_empty [of ?q] by simp
  then show ?case using skip [of ?q] q by (simp add: tl_drop drop_Suc)
qed simp

lemma next_out:
  assumes "ok q" "n < length (contents q)"
  shows "\<not> is_empty ((skip ^^ n) q)" "peek ((skip ^^ n) q) = contents q ! n"
proof -
  have q: "ok ((skip ^^ n) q)" "contents ((skip ^^ n) q) = drop n (contents q)" using skip_many [of q n] assms by simp_all
  then show e: "\<not> is_empty ((skip ^^ n) q)" using is_empty assms(2) by simp
  show "peek ((skip ^^ n) q) = contents q ! n" using peek [OF q(1) e] q(2) assms(2) by (simp add: hd_drop_conv_nth)
qed

end

section \<open>Rings with wrapping counters\<close>

definition ring :: "u32 \<Rightarrow> u8 list \<Rightarrow> u32 \<Rightarrow> u32 \<Rightarrow> u8 list" where
  "ring N d r w = map (\<lambda>i. d ! unat ((r + of_nat i) mod N)) [0..<unat (w - r)]"

lemma length_ring [simp]: "length (ring N d r w) = unat (w - r)"
  by (simp add: ring_def)

lemma unat_ring:
  fixes r N :: u32
  assumes "unat N dvd 2 ^ 32"
  shows "unat ((r + of_nat i) mod N) = (unat r + i) mod unat N"
proof -
  have "unat (r + of_nat i) = (unat r + i) mod 2 ^ 32" by (simp add: unat_word_ariths unat_of_nat mod_add_right_eq)
  then show ?thesis using assms by (simp add: unat_mod mod_mod_cancel)
qed

lemma unat_Suc: "unat (x :: u32) < unat (N :: u32) \<Longrightarrow> unat (x + 1) = Suc (unat x)"
  using unat_bounds(3) [of N] unat_add_small [of x 1] by simp

lemma ring_put:
  assumes N: "unat N dvd 2 ^ 32" and d: "length d = unat N" and n: "unat (w - r) < unat N"
  shows "ring N (d[unat (w mod N) := x]) r (w + 1) = ring N d r w @ [x]"
proof -
  define n where "n = unat (w - r)"
  have s: "unat (w + 1 - r) = Suc n" using unat_Suc [OF n] by (simp add: n_def algebra_simps)
  have w: "w = r + of_nat n" by (simp add: n_def)
  have i: "unat (w mod N) = (unat r + n) mod unat N" using unat_ring [OF N, of r n] w by simp
  have lt: "(unat r + n) mod unat N < length d" using n d by simp
  have neq: "(unat r + n) mod unat N \<noteq> (unat r + i) mod unat N" if "i < n" for i
  proof
    assume "(unat r + n) mod unat N = (unat r + i) mod unat N"
    then have "unat N dvd n - i" using that mod_eq_dvd_iff_nat [of "unat r + i" "unat r + n" "unat N"] by simp
    then have "unat N \<le> n - i" using that by (intro dvd_imp_le) simp_all
    then show False using n by (simp add: n_def)
  qed
  have "map (\<lambda>i. d[unat (w mod N) := x] ! unat ((r + of_nat i) mod N)) [0..<n] = map (\<lambda>i. d ! unat ((r + of_nat i) mod N)) [0..<n]"
    by (rule map_cong) (use neq in \<open>simp_all add: i unat_ring [OF N]\<close>)
  then show ?thesis using lt unfolding ring_def s by (simp add: i unat_ring [OF N] n_def [symmetric])
qed

lemma ring_skip:
  assumes N: "unat N dvd 2 ^ 32" and n: "r \<noteq> w"
  shows "ring N d r w = d ! unat (r mod N) # ring N d (r + 1) w"
proof -
  have "unat (w - r) \<noteq> 0" using n by (simp add: unat_eq_zero)
  moreover have "unat (w - (r + 1)) = unat (w - r) - 1" using n unat_minus_one [of "w - r"] by (simp add: algebra_simps)
  ultimately have s: "unat (w - r) = Suc (unat (w - (r + 1)))" by simp
  show ?thesis unfolding ring_def s by (simp del: upt_Suc add: upt_conv_Cons map_Suc_upt [symmetric] add.assoc)
qed

text \<open>The ring of a pipe.\<close>

definition pipe_ok :: "pipe \<Rightarrow> bool" where
  "pipe_ok k \<longleftrightarrow> length (pi_data k) = 512 \<and> unat (pi_nwrite k - pi_nread k) \<le> 512"

definition pipe_contents :: "pipe \<Rightarrow> u8 list" where
  "pipe_contents k = ring PIPESIZE (pi_data k) (pi_nread k) (pi_nwrite k)"

definition pipe_skip :: "pipe \<Rightarrow> pipe" where
  "pipe_skip k = k\<lparr>pi_nread := pi_nread k + 1\<rparr>"

interpretation pipe: bounded_queue 512 pipe_ok pipe_contents pipe_empty pipe_full pipe_put pipe_peek pipe_skip
proof unfold_locales
  have dv: "unat (512 :: u32) dvd 2 ^ 32" by simp
  fix q :: pipe and x assume q: "pipe_ok q"
  show "length (pipe_contents q) \<le> 512" using q by (simp add: pipe_ok_def pipe_contents_def)
  show e: "pipe_empty q \<longleftrightarrow> pipe_contents q = []"
    by (simp add: pipe_empty_def pipe_contents_def ring_def unat_eq_zero) auto
  show f: "pipe_full q \<longleftrightarrow> length (pipe_contents q) = 512"
  proof -
    have "pi_nwrite q = pi_nread q + 512 \<longleftrightarrow> pi_nwrite q - pi_nread q = 512" by (auto simp: algebra_simps)
    then show ?thesis by (simp add: pipe_full_def pipe_contents_def word_unat_eq_iff)
  qed
  show "pipe_ok (pipe_put x q) \<and> pipe_contents (pipe_put x q) = pipe_contents q @ [x]" if "\<not> pipe_full q"
  proof -
    have n: "unat (pi_nwrite q - pi_nread q) < unat (512 :: u32)" using that f q by (simp add: pipe_ok_def pipe_contents_def)
    have "unat (pi_nwrite q + 1 - pi_nread q) = Suc (unat (pi_nwrite q - pi_nread q))"
      using unat_Suc [OF n] by (simp add: algebra_simps)
    then show ?thesis using ring_put [OF dv _ n, of "pi_data q" x] q n by (simp add: pipe_ok_def pipe_contents_def pipe_put_def)
  qed
  assume ne: "\<not> pipe_empty q"
  then have neq: "pi_nread q \<noteq> pi_nwrite q" by (simp add: pipe_empty_def)
  note r = ring_skip [OF dv this, of "pi_data q"]
  show "pipe_peek q = hd (pipe_contents q)" using r by (simp add: pipe_peek_def pipe_contents_def)
  show "pipe_ok (pipe_skip q) \<and> pipe_contents (pipe_skip q) = tl (pipe_contents q)"
  proof -
    have "unat (pi_nwrite q - pi_nread q) = Suc (unat (pi_nwrite q - (pi_nread q + 1)))"
      using arg_cong [OF r, of length] by (simp only: length_ring list.size)
    then show ?thesis using r q by (simp add: pipe_ok_def pipe_contents_def pipe_skip_def)
  qed
qed

section \<open>Pipes\<close>

lemma uinv_frame [simp]:
  "uinv (s\<lparr>pipes := x\<rparr>) root T ps = uinv s root T ps" "ubyte (s\<lparr>pipes := x\<rparr>) T = ubyte s T"
  "uinv (s\<lparr>procs := y\<rparr>) root T ps = uinv s root T ps" "ubyte (s\<lparr>procs := y\<rparr>) T = ubyte s T"
  by (simp_all add: uinv_def vm_inv_def owned_def free_pages_def ram_page_def ubyte_def fun_eq_iff Let_def)

text \<open>A process that has gone to sleep on a channel.\<close>

definition asleep_on :: "chan \<Rightarrow> proc \<Rightarrow> proc" where
  "asleep_on ch p = p\<lparr>p_chan := Some ch, p_state := SLEEPING\<rparr>"

lemma sleeps:
  "cur s < length (procs s) \<Longrightarrow>
    kthen (sleep_prepare (Some ch)) (kthen sleep m) s = Sleep (upd_proc (cur s) (asleep_on ch) s)"
  by (simp add: sleep_prepare_def sleep_def sched_def myproc_def get_proc_def set_proc_def asleep_on_def [abs_def] comp_def
      kthen_def kbind_def)

lemma copyin_byte:
  assumes "uinv s root T ps" "ubyte s T a = Some b"
  shows "copyin root psz a 1 s = Ok (0, [b]) s"
proof (rule copyin_spec [OF assms(1)])
  show "1 = 0 \<or> unat a + 1 \<le> unat MAXVA"
    using assms(2) by (auto simp: ubyte_def Let_def word_less_nat_alt split: if_splits)
  fix vb assume "bytes_at a 1 vb"
  then have "vb = a" by (simp add: word_unat_eq_iff)
  then show "ubyte s T vb = Some ([b] ! (unat vb - unat a))" using assms(2) by simp
qed simp

lemma pipewrite_loop_spec:
  assumes "uinv s root T ps" and "p_pagetable (procs s ! cur s) = root"
    and "pipe_ok (pipes s pi)" "pi_readopen (pipes s pi)" "\<not> p_killed (procs s ! cur s)"
    and "length (procs s) = NPROC" "cur s < NPROC"
    and "\<And>j. j < min (length bs) (512 - length (pipe_contents (pipes s pi))) \<Longrightarrow> ubyte s T (addr + of_nat (i + j)) = Some (bs ! j)"
  defines "free \<equiv> 512 - length (pipe_contents (pipes s pi))"
    and "ps' \<equiv> map (wake_proc (Some (ChPipeRead pi))) (procs s)"
  shows "pipewrite_loop pi addr i (length bs) s =
    (if length bs \<le> free
     then Ok (int (i + length bs)) (s\<lparr>pipes := (pipes s)(pi := fold pipe_put bs (pipes s pi)), procs := ps'\<rparr>)
     else Sleep (s\<lparr>pipes := (pipes s)(pi := fold pipe_put (take free bs) (pipes s pi)),
       procs := upd_nth (cur s) (asleep_on (ChPipeWrite pi)) ps'\<rparr>))"
  using assms(1-8) unfolding free_def ps'_def
proof (induction bs arbitrary: s i)
  case Nil
  then show ?case by (simp add: kthen_def kbind_def wakeup_eq)
next
  case (Cons b bs)
  let ?k = "pipes s pi"
  let ?c = "pipe_contents ?k"
  show ?case
  proof (cases "pipe_full ?k")
    case True
    then have "length ?c = 512" using pipe.is_full Cons.prems(3) by simp
    then show ?thesis
      using Cons.prems True by (simp add: get_pipe_def myproc_def killed_def get_proc_def kbind_assoc kthen_Ok [OF wakeup_eq] sleeps)
  next
    case False
    then have lt: "length ?c < 512" using pipe.is_full [OF Cons.prems(3)] pipe.bounded [OF Cons.prems(3)] by simp
    let ?s = "s\<lparr>pipes := (pipes s)(pi := pipe_put b ?k)\<rparr>"
    note put = pipe.put [OF Cons.prems(3) False, of b]
    have ub: "ubyte s T (addr + of_nat i) = Some b" using Cons.prems(8) [of 0] lt by simp
    have step: "pipewrite_loop pi addr i (Suc (length bs)) s = pipewrite_loop pi addr (Suc i) (length bs) ?s"
      using Cons.prems False copyin_byte [OF Cons.prems(1) ub, folded One_nat_def]
      by (simp add: get_pipe_def set_pipe_def myproc_def killed_def get_proc_def kbind_def kthen_def)
    have "pipewrite_loop pi addr (Suc i) (length bs) ?s =
      (if length bs \<le> 512 - length (pipe_contents (pipes ?s pi))
       then Ok (int (Suc i + length bs)) (?s\<lparr>pipes := (pipes ?s)(pi := fold pipe_put bs (pipes ?s pi)),
         procs := map (wake_proc (Some (ChPipeRead pi))) (procs ?s)\<rparr>)
       else Sleep (?s\<lparr>pipes := (pipes ?s)(pi := fold pipe_put (take (512 - length (pipe_contents (pipes ?s pi))) bs) (pipes ?s pi)),
         procs := upd_nth (cur ?s) (asleep_on (ChPipeWrite pi)) (map (wake_proc (Some (ChPipeRead pi))) (procs ?s))\<rparr>))"
    proof (rule Cons.IH)
      fix j assume "j < min (length bs) (512 - length (pipe_contents (pipes ?s pi)))"
      then show "ubyte ?s T (addr + of_nat (Suc i + j)) = Some (bs ! j)"
        using Cons.prems(8) [of "Suc j"] put by (auto simp: less_diff_conv)
    qed (use Cons.prems put in \<open>auto simp: pipe_put_def\<close>)
    moreover have "512 - length ?c = Suc (512 - length (pipe_contents (pipes ?s pi)))" using put lt by simp
    ultimately show ?thesis using step put by (simp add: fun_upd_def cong: if_cong)
  qed
qed


text \<open>C17: pipewrite appends to the pipe. With room for all bytes it returns \<open>n\<close>, the contents are followed by
the bytes of the user's buffer in order, and readers are woken. With less room it fills the pipe
with the first of them, wakes the readers and sleeps until there is room. A writer that is killed
or has no reader gets \<open>- 1\<close>. The counters may wrap around at any time.\<close>

theorem pipewrite_appends:
  assumes "uinv s (p_pagetable (procs s ! cur s)) T ps" and "pipe_ok (pipes s pi)"
    and "length (procs s) = NPROC" and "cur s < NPROC" and "bs \<noteq> []"
    and "\<forall>j < min (length bs) (512 - length (pipe_contents (pipes s pi))). ubyte s T (addr + of_nat j) = Some (bs ! j)"
  shows "let k = pipes s pi; free = 512 - length (pipe_contents k);
      woken = map (wake_proc (Some (ChPipeRead pi))) (procs s) in
    if \<not> pi_readopen k \<or> p_killed (procs s ! cur s) then pipewrite pi addr (int (length bs)) s = Ok (- 1) s
    else \<exists>k'. pipe_ok k' \<and> pipe_contents k' = pipe_contents k @ take free bs \<and>
      pipewrite pi addr (int (length bs)) s =
        (if length bs \<le> free then Ok (int (length bs)) (s\<lparr>pipes := (pipes s)(pi := k'), procs := woken\<rparr>)
         else Sleep (s\<lparr>pipes := (pipes s)(pi := k'), procs := upd_nth (cur s) (asleep_on (ChPipeWrite pi)) woken\<rparr>))"
proof (cases "\<not> pi_readopen (pipes s pi) \<or> p_killed (procs s ! cur s)")
  case True
  obtain m where "length bs = Suc m" using assms(5) by (cases bs) auto
  then have "pipewrite pi addr (int (length bs)) s = pipewrite_loop pi addr 0 (Suc m) s" by (simp only: pipewrite_def nat_int)
  then show ?thesis
    using True by (auto simp: get_pipe_def myproc_def killed_def get_proc_def kbind_assoc Let_def)
next
  case False
  let ?k = "pipes s pi"
  let ?free = "512 - length (pipe_contents ?k)"
  have b: "length (pipe_contents ?k) \<le> 512" using pipe.bounded [OF assms(2)] .
  have "pipe_ok (fold pipe_put (take ?free bs) ?k) \<and> pipe_contents (fold pipe_put (take ?free bs) ?k) = pipe_contents ?k @ take ?free bs"
    using b by (intro pipe.put_all [OF assms(2)]) simp
  moreover have "pipewrite pi addr (int (length bs)) s =
      (if length bs \<le> ?free then Ok (int (length bs)) (s\<lparr>pipes := (pipes s)(pi := fold pipe_put (take ?free bs) ?k),
         procs := map (wake_proc (Some (ChPipeRead pi))) (procs s)\<rparr>)
       else Sleep (s\<lparr>pipes := (pipes s)(pi := fold pipe_put (take ?free bs) ?k),
         procs := upd_nth (cur s) (asleep_on (ChPipeWrite pi)) (map (wake_proc (Some (ChPipeRead pi))) (procs s))\<rparr>))"
    using pipewrite_loop_spec [where i = 0 and bs = bs, OF assms(1) refl assms(2) _ _ assms(3,4)] False assms(6)
    by (simp add: pipewrite_def)
  ultimately show ?thesis using False unfolding Let_def by auto
qed

text \<open>A process with an empty address space, and a full pipe.\<close>

definition pipe_sample :: "pipe \<Rightarrow> kstate" where
  "pipe_sample k = vm_sample\<lparr>procs := replicate NPROC (proc0\<lparr>p_state := RUNNING, p_pagetable := sample_root\<rparr>), pipes := (\<lambda>_. k)\<rparr>"

lemma pipe_sample:
  "uinv (pipe_sample k) (p_pagetable (procs (pipe_sample k) ! cur (pipe_sample k))) sample_tree sample_free"
  "length (procs (pipe_sample k)) = NPROC" "cur (pipe_sample k) = 0" "pipes (pipe_sample k) pi = k"
  "procs (pipe_sample k) = replicate NPROC (proc0\<lparr>p_state := RUNNING, p_pagetable := sample_root\<rparr>)"
  using vm_sample_inv by (simp_all add: pipe_sample_def) (simp_all add: vm_sample_def kstate0_def)

definition full_pipe :: pipe where
  "full_pipe = pipe0\<lparr>pi_nread := - 256, pi_nwrite := 256, pi_readopen := True, pi_writeopen := True\<rparr>"

theorem pipewrite_appends_witness:
  "\<exists>t. pipewrite 0x80030000 0 3 (pipe_sample full_pipe) = Sleep t"
proof -
  have "pipe_ok full_pipe" "length (pipe_contents full_pipe) = 512"
    by (simp_all add: pipe_ok_def pipe_contents_def full_pipe_def pipe0_def)
  then show ?thesis
    using pipewrite_appends [OF pipe_sample(1), of full_pipe "0x80030000" "[7, 8, 9]" 0]
    by (auto simp: pipe_sample full_pipe_def pipe0_def proc0_def Let_def)
qed


lemma mem_only_fields:
  assumes "mem_only s t"
  shows "pipes t = pipes s" "procs t = procs s" "cur t = cur s"
    "mem_only (s\<lparr>pipes := x\<rparr>) (t\<lparr>pipes := x\<rparr>)" "mem_only (s\<lparr>procs := y\<rparr>) (t\<lparr>procs := y\<rparr>)"
  using assms by (cases s; cases t; simp add: mem_only_def)+

text \<open>The bytes at the \<open>m\<close> addresses from \<open>addr\<close> on.\<close>

definition in_buffer :: "u64 \<Rightarrow> nat \<Rightarrow> u64 \<Rightarrow> bool" where
  "in_buffer addr m vb \<longleftrightarrow> (\<exists>x<m. vb = addr + of_nat x)"

lemma in_buffer_Suc: "in_buffer addr (Suc m) vb \<longleftrightarrow> vb = addr \<or> in_buffer (addr + 1) m vb"
  unfolding in_buffer_def by (auto simp: less_Suc_eq_0_disj add.assoc)

lemma not_in_rest: "m < 2 ^ 64 \<Longrightarrow> \<not> in_buffer (addr + 1) (m - 1) addr"
proof
  assume m: "m < 2 ^ 64" and "in_buffer (addr + 1) (m - 1) addr"
  then obtain x where x: "x < m - 1" "addr = addr + 1 + of_nat x" by (auto simp: in_buffer_def)
  then have "of_nat (Suc x) = (0 :: u64)" by (simp add: add.assoc)
  moreover have "unat (of_nat (Suc x) :: u64) = Suc x" using x(1) m by (intro unat_of_nat_small) simp
  ultimately show False by simp
qed

lemma ugrown_chain:
  assumes "ugrown V s T t T1" "ugrown W t T1 u T2" "\<And>vb. V vb \<or> W vb \<Longrightarrow> X vb"
  shows "ugrown X s T u T2"
  using assms unfolding ugrown_def by metis

lemma piperead_loop_spec:
  assumes "uinv s (p_pagetable (procs s ! cur s)) T ps" and "pipe_ok (pipes s pi)" and "m < 2 ^ 64"
  shows "\<exists>j good t T' ps'. j \<le> min m (length (pipe_contents (pipes s pi))) \<and> (good \<longrightarrow> j = min m (length (pipe_contents (pipes s pi)))) \<and>
    piperead_loop pi addr i m s = Ok (if \<not> good \<and> i + j = 0 then - 1 else int (i + j)) t \<and>
    uinv t (p_pagetable (procs s ! cur s)) T' ps' \<and>
    mem_only (s\<lparr>pipes := (pipes s)(pi := (pipe_skip ^^ j) (pipes s pi))\<rparr>) t \<and>
    ugrown (in_buffer (addr + of_nat i) m) s T t T' \<and>
    (\<forall>x<j. ubyte t T' (addr + of_nat i + of_nat x) = Some (pipe_contents (pipes s pi) ! x))"
  using assms
proof (induction m arbitrary: s T ps i)
  case 0
  then show ?case by (intro exI [of _ 0] exI [of _ True] exI [of _ s]) (auto simp: ugrown_def)
next
  case (Suc m)
  let ?k = "pipes s pi" and ?a = "addr + of_nat i" and ?root = "p_pagetable (procs s ! cur s)"
  let ?c = "pipe_contents ?k"
  show ?case
  proof (cases "pipe_empty ?k")
    case True
    then have "?c = []" using pipe.is_empty [OF Suc.prems(2)] by simp
    then show ?thesis
      using True Suc.prems(1) by (intro exI [of _ 0] exI [of _ True] exI [of _ s]) (auto simp: get_pipe_def ugrown_def)
  next
    case False
    note sk = pipe.skip [OF Suc.prems(2) False] and pk = pipe.peek [OF Suc.prems(2) False]
    obtain c cs where c: "?c = c # cs" using False pipe.is_empty [OF Suc.prems(2)] by (cases ?c) auto
    obtain t1 T1 ps1 r where t1: "copyout ?root (p_sz (procs s ! cur s)) ?a [pipe_peek ?k] s = Ok r t1"
        "uinv t1 ?root T1 ps1" "mem_only s t1" "ugrown (bytes_at ?a 1) s T t1 T1"
        "r = - 1 \<or> r = 0 \<and> (\<forall>vb. bytes_at ?a 1 vb \<longrightarrow> ubyte t1 T1 vb = Some ([pipe_peek ?k] ! (unat vb - unat ?a)))"
      using copyout_spec [OF Suc.prems(1), of "p_sz (procs s ! cur s)" ?a "[pipe_peek ?k]"] by auto
    note f1 = mem_only_fields [OF t1(3)]
    have b1: "bytes_at ?a 1 vb \<longleftrightarrow> vb = ?a" for vb by (auto simp: word_unat_eq_iff)
    have step: "piperead_loop pi addr i (Suc m) s = (if r = - 1 then kret (if i = 0 then - 1 else int i)
       else kthen (set_pipe pi pipe_skip) (piperead_loop pi addr (Suc i) m)) t1"
      using t1(1) False by (simp add: get_pipe_def myproc_def get_proc_def kbind_def pipe_skip_def [abs_def])
    show ?thesis
    proof (cases "r = - 1")
      case True
      have g: "ugrown (in_buffer ?a (Suc m)) s T t1 T1" using t1(4) unfolding b1 ugrown_def in_buffer_Suc by auto
      show ?thesis
        by (rule exI [of _ 0], rule exI [of _ False], rule exI [of _ t1], rule exI [of _ T1], rule exI [of _ ps1])
           (use step True t1(2,3) g in auto)
    next
      case r: False
      let ?t2 = "t1\<lparr>pipes := (pipes s)(pi := pipe_skip ?k)\<rparr>"
      have r0: "r = 0" and here: "ubyte t1 T1 ?a = Some c" using t1(5) r b1 [of ?a] pk c by simp_all
      have st2: "piperead_loop pi addr i (Suc m) s = piperead_loop pi addr (Suc i) m ?t2"
        using step r by (simp add: set_pipe_def f1)
      have p2: "pipes ?t2 pi = pipe_skip ?k" and cs: "pipe_contents (pipe_skip ?k) = cs"
        and rt: "p_pagetable (procs ?t2 ! cur ?t2) = ?root"
        using f1 sk c by simp_all
      have t2: "uinv ?t2 (p_pagetable (procs ?t2 ! cur ?t2)) T1 ps1" "pipe_ok (pipes ?t2 pi)" "m < 2 ^ 64"
        using t1(2) f1 sk Suc.prems(3) by simp_all
      obtain j good t T' ps' where ih:
          "j \<le> min m (length cs)" "good \<longrightarrow> j = min m (length cs)"
          "piperead_loop pi addr (Suc i) m ?t2 = Ok (if \<not> good \<and> Suc i + j = 0 then - 1 else int (Suc i + j)) t"
          "uinv t ?root T' ps'" "mem_only (?t2\<lparr>pipes := (pipes ?t2)(pi := (pipe_skip ^^ j) (pipe_skip ?k))\<rparr>) t"
          "ugrown (in_buffer (addr + of_nat (Suc i)) m) ?t2 T1 t T'"
          "\<forall>x<j. ubyte t T' (addr + of_nat (Suc i) + of_nat x) = Some (cs ! x)"
        using Suc.IH [OF t2, of "Suc i"] unfolding p2 cs rt by blast
      have a1: "addr + of_nat (Suc i) = ?a + 1" by simp
      have "\<not> in_buffer (?a + 1) m ?a" using not_in_rest [of "Suc m" ?a] Suc.prems(3) by simp
      then have "ubyte t T' ?a = Some c" using ih(6) here unfolding ugrown_def a1 by fastforce
      then have bytes: "\<forall>x<Suc j. ubyte t T' (?a + of_nat x) = Some (?c ! x)"
        using ih(7) c by (auto simp: less_Suc_eq_0_disj ac_simps)
      have "ugrown (in_buffer ?a (Suc m)) s T t T'"
      proof (rule ugrown_chain [OF t1(4)])
        show "ugrown (in_buffer (?a + 1) m) t1 T1 t T'" using ih(6) unfolding a1 by (simp add: ugrown_def)
      qed (use b1 in \<open>auto simp: in_buffer_Suc\<close>)
      moreover have "mem_only (s\<lparr>pipes := (pipes s)(pi := (pipe_skip ^^ Suc j) ?k)\<rparr>) t"
      proof -
        have m: "mem_only (s\<lparr>pipes := (pipes s)(pi := (pipe_skip ^^ Suc j) ?k)\<rparr>) (t1\<lparr>pipes := (pipes s)(pi := (pipe_skip ^^ Suc j) ?k)\<rparr>)"
          by (rule mem_only_fields(4) [OF t1(3)])
        have e: "t1\<lparr>pipes := (pipes s)(pi := (pipe_skip ^^ Suc j) ?k)\<rparr> = ?t2\<lparr>pipes := (pipes ?t2)(pi := (pipe_skip ^^ j) (pipe_skip ?k))\<rparr>"
          by (simp add: funpow_swap1)
        show ?thesis by (rule mem_only_trans [OF m [unfolded e] ih(5)])
      qed
      moreover have "piperead_loop pi addr i (Suc m) s = Ok (if \<not> good \<and> i + Suc j = 0 then - 1 else int (i + Suc j)) t"
        using st2 ih(3) by simp
      moreover have "Suc j \<le> min (Suc m) (length ?c)" "good \<longrightarrow> Suc j = min (Suc m) (length ?c)" using ih(1,2) c by simp_all
      ultimately show ?thesis using bytes ih(4) by blast
    qed
  qed
qed



end
