(* ===== verification/Xv6_Tty.thy ===== *)
theory Xv6_Tty
  imports Xv6_Ring
begin

text \<open>
  The console's line editing (consoleintr of kernel/console.c) refines two strings: the lines ready to
  be read, and the line being edited.
\<close>

section \<open>Parts of a ring\<close>

lemma ring_split:
  fixes r w e N :: u32
  assumes "unat (w - r) \<le> unat (e - r)"
  shows "ring N d r e = ring N d r w @ ring N d w e" "unat (e - r) = unat (w - r) + unat (e - w)"
proof -
  have "e - r - (w - r) = e - w" by simp
  then show u: "unat (e - r) = unat (w - r) + unat (e - w)"
    using assms unat_sub [of "w - r" "e - r"] by (simp add: word_le_nat_alt)
  have "w + of_nat i = r + of_nat (unat (w - r) + i)" for i by simp
  then have "ring N d w e = map (\<lambda>i. d ! unat ((r + of_nat i) mod N)) [unat (w - r)..<unat (e - r)]"
    unfolding ring_def u by (simp only: map_add_upt [symmetric] map_map comp_def add.commute)
  then show "ring N d r e = ring N d r w @ ring N d w e"
    unfolding ring_def using assms upt_add_eq_append [of 0 "unat (w - r)" "unat (e - w)"] by (simp add: u)
qed

lemma ring_back:
  fixes w e N :: u32
  assumes "w \<noteq> e"
  shows "ring N d w e = ring N d w (e - 1) @ [d ! unat ((e - 1) mod N)]"
proof -
  have "unat (e - 1 - w) = unat (e - w) - 1" using assms unat_minus_one [of "e - w"] by (simp add: algebra_simps)
  moreover have "unat (e - w) \<noteq> 0" using assms by (simp add: unat_eq_zero)
  ultimately have u: "unat (e - w) = Suc (unat (e - 1 - w))" by simp
  have "w + of_nat (unat (e - 1 - w)) = e - 1" by simp
  then show ?thesis unfolding ring_def u by simp
qed

section \<open>The console's two strings\<close>

definition cons_ok :: "console \<Rightarrow> bool" where
  "cons_ok c \<longleftrightarrow> length (c_buf c) = 128 \<and> unat (c_e c - c_r c) \<le> 128 \<and> unat (c_w c - c_r c) \<le> unat (c_e c - c_r c)"

definition ready :: "console \<Rightarrow> u8 list" where
  "ready c = ring INPUT_BUF_SIZE (c_buf c) (c_r c) (c_w c)"

definition editing :: "console \<Rightarrow> u8 list" where
  "editing c = ring INPUT_BUF_SIZE (c_buf c) (c_w c) (c_e c)"

lemma cons_lengths: "cons_ok c \<Longrightarrow> length (ready c) + length (editing c) = unat (c_e c - c_r c)"
  using ring_split(2) [of "c_w c" "c_r c" "c_e c"] by (simp add: cons_ok_def ready_def editing_def)

text \<open>consoleintr on the two strings.\<close>

definition erase_line :: "u8 list \<Rightarrow> u8 list" where
  "erase_line E = rev (dropWhile (\<lambda>b. b \<noteq> 10) (rev E))"

definition type_char :: "nat \<Rightarrow> u8 list \<times> u8 list \<Rightarrow> u8 list \<times> u8 list" where
  "type_char ch = (\<lambda>(R, E).
     if ch = 16 then (R, E)
     else if ch = 21 then (R, erase_line E)
     else if ch = 8 \<or> ch = 127 then (R, butlast E)
     else if ch = 0 \<or> length R + length E = 128 then (R, E)
     else
       let c = (if ch = 13 then 10 else ch); E' = E @ [of_nat c] in
       if c = 10 \<or> c = 4 \<or> length R + length E' = 128 then (R @ E', []) else (R, E'))"

text \<open>Erasing the last character, and typing one.\<close>

definition unput :: "console \<Rightarrow> console" where
  "unput c = c\<lparr>c_e := c_e c - 1\<rparr>"

definition typed :: "u8 \<Rightarrow> console \<Rightarrow> console" where
  "typed x c = c\<lparr>c_buf := (c_buf c)[unat (c_e c mod INPUT_BUF_SIZE) := x], c_e := c_e c + 1\<rparr>"

definition commit_line :: "console \<Rightarrow> console" where
  "commit_line c = c\<lparr>c_w := c_e c\<rparr>"

lemma editing_empty: "c_e c = c_w c \<longleftrightarrow> editing c = []"
  by (auto simp: editing_def ring_def unat_eq_zero)

lemma unput:
  assumes ok: "cons_ok c" and ne: "c_e c \<noteq> c_w c"
  shows "cons_ok (unput c)" "ready (unput c) = ready c" "editing c = editing (unput c) @ [cons_at c (c_e c - 1)]"
proof -
  show e: "editing c = editing (unput c) @ [cons_at c (c_e c - 1)]"
    using ring_back [of "c_w c" "c_e c"] ne by (simp add: editing_def unput_def cons_at_def)
  show "ready (unput c) = ready c" by (simp add: ready_def unput_def)
  have "c_e c - 1 - c_r c = (c_e c - c_r c) - 1" by simp
  then have ee: "unat (c_e c - 1 - c_r c) = unat (c_e c - c_r c - 1)" by (rule arg_cong)
  have "c_e c - c_r c \<noteq> 0"
    using cons_lengths [OF ok] ne by (auto simp: editing_empty)
  then have "unat (c_e c - 1 - c_r c) = unat (c_e c - c_r c) - 1"
    unfolding ee by (rule unat_minus_one)
  moreover have "unat (c_w c - c_r c) + 1 \<le> unat (c_e c - c_r c)"
    using cons_lengths [OF ok] e by (simp add: ready_def)
  ultimately show "cons_ok (unput c)" using ok by (auto simp: cons_ok_def unput_def)
qed

lemma typed:
  assumes ok: "cons_ok c" and room: "c_e c - c_r c < INPUT_BUF_SIZE"
  shows "cons_ok (typed x c)" "ready (typed x c) = ready c" "editing (typed x c) = editing c @ [x]"
    "unat (c_e (typed x c) - c_r (typed x c)) = Suc (unat (c_e c - c_r c))"
proof -
  have dv: "unat (128 :: u32) dvd 2 ^ 32" by simp
  have n: "unat (c_e c - c_r c) < unat (128 :: u32)" using room by (simp add: word_less_nat_alt)
  have le: "unat (c_w c - c_r c) \<le> unat (c_e c - c_r c)" using ok by (simp add: cons_ok_def)
  show s: "unat (c_e (typed x c) - c_r (typed x c)) = Suc (unat (c_e c - c_r c))"
    using unat_Suc [OF n] by (simp add: typed_def algebra_simps)
  then show "cons_ok (typed x c)" using ok n by (simp add: cons_ok_def typed_def)
  have le': "unat (c_w c - c_r c) \<le> unat (c_e c + 1 - c_r c)" using s le by (simp add: typed_def)
  have "ring 128 (c_buf (typed x c)) (c_r c) (c_e c + 1) = ring 128 (c_buf c) (c_r c) (c_e c) @ [x]"
    using ring_put [OF dv _ n, of "c_buf c" x] ok by (simp add: cons_ok_def typed_def)
  then have "ring 128 (c_buf (typed x c)) (c_r c) (c_w c) @ ring 128 (c_buf (typed x c)) (c_w c) (c_e c + 1) =
      ring 128 (c_buf c) (c_r c) (c_w c) @ (ring 128 (c_buf c) (c_w c) (c_e c) @ [x])"
    unfolding ring_split(1) [OF le] ring_split(1) [OF le'] by simp
  then show "ready (typed x c) = ready c" "editing (typed x c) = editing c @ [x]"
    by (auto simp: append_eq_append_conv ready_def editing_def typed_def)
qed

lemma commit_line:
  assumes "cons_ok c"
  shows "cons_ok (commit_line c)" "ready (commit_line c) = ready c @ editing c" "editing (commit_line c) = []"
  using assms ring_split(1) [of "c_w c" "c_r c" "c_e c"]
  by (simp_all add: cons_ok_def commit_line_def ready_def editing_def ring_def)

section \<open>consoleintr\<close>

lemma cons_update_const: "cons_update f s = s\<lparr>cons := f (cons s)\<rparr>"
  by (cases s) simp

lemma consputc_Ok: "\<exists>out. consputc c s = Ok () (s\<lparr>console_out := out\<rparr>)"
  by (auto simp: consputc_def uartputc_sync_def kthen_def kbind_def)

text \<open>The output of procdump.\<close>

lemma procdump_Ok: "\<exists>out. procdump s = Ok () (s\<lparr>console_out := out\<rparr>)"
proof -
  let ?f = "\<lambda>i. kbind (get_proc i) (\<lambda>p. if p_state p = UNUSED then kret ()
        else kthen (printk ''%d %s %s'' [Num (word_of_int (p_pid p)), Str (Some (state_name (p_state p))),
               Str (Some (c_string (p_name p)))]) (printk [newline] []))"
  have one: "\<exists>out. ?f i u = Ok () (u\<lparr>console_out := out\<rparr>)" for i u
    by (cases "p_state (procs u ! i) = UNUSED") (auto simp: get_proc_def kthen_def kbind_def intro: exI [of _ "console_out u"])
  have all: "\<exists>out. kfor is ?f u = Ok () (u\<lparr>console_out := out\<rparr>)" for "is" u
  proof (induction "is" arbitrary: u)
    case Nil
    show ?case by (intro exI [of _ "console_out u"]) simp
  next
    case (Cons i "is")
    obtain o1 where "?f i u = Ok () (u\<lparr>console_out := o1\<rparr>)" using one by blast
    then show ?case using Cons.IH [of "u\<lparr>console_out := o1\<rparr>"] by (auto simp: kthen_Ok)
  qed
  obtain out where "kfor [0..<NPROC] ?f (s\<lparr>console_out := console_out s @ printk_text [newline] []\<rparr>) = Ok () (s\<lparr>console_out := out\<rparr>)"
    using all [of "[0..<NPROC]" "s\<lparr>console_out := console_out s @ printk_text [newline] []\<rparr>"] by auto
  then show ?thesis unfolding procdump_def by (simp only: kthen_Ok [OF printk_apply]) blast
qed

lemma kill_line_Ok:
  assumes "cons_ok (cons s)" "length (editing (cons s)) < n"
  shows "\<exists>t. kill_line n s = Ok () t \<and> cons_ok (cons t) \<and> ready (cons t) = ready (cons s) \<and> editing (cons t) = erase_line (editing (cons s))"
  using assms
proof (induction n arbitrary: s)
  case (Suc n)
  let ?c = "cons s"
  show ?case
  proof (cases "c_e ?c \<noteq> c_w ?c \<and> cons_at ?c (c_e ?c - 1) \<noteq> 10")
    case True
    note u = unput [OF Suc.prems(1)] True
    obtain out where out: "consputc BACKSPACE (s\<lparr>cons := unput ?c\<rparr>) = Ok () (s\<lparr>cons := unput ?c, console_out := out\<rparr>)"
      using consputc_Ok by blast
    have "kill_line (Suc n) s = kill_line n (s\<lparr>cons := unput ?c, console_out := out\<rparr>)"
      using True out unfolding kill_line.simps unput_def [abs_def]
      by (simp add: kthen_Ok cons_update_const [of "\<lambda>c. c\<lparr>c_e := c_e c - 1\<rparr>"])
    moreover have "erase_line (editing ?c) = erase_line (editing (unput ?c))" using u by (simp add: erase_line_def)
    ultimately show ?thesis using Suc.IH [of "s\<lparr>cons := unput ?c, console_out := out\<rparr>"] u Suc.prems(2) by auto
  next
    case False
    then have "erase_line (editing ?c) = editing ?c"
      using unput(3) [OF Suc.prems(1)] editing_empty [of ?c] by (auto simp: erase_line_def)
    then show ?thesis using False Suc.prems(1) by auto
  qed
qed simp

text \<open>C19: The console's ring with its three wrapping counters refines two strings: the lines ready to be
read and the line being edited. A character is appended to the line unless 128 are waiting; newline,
control-D or a full buffer make the line ready; backspace removes the last character and control-U
the line, never anything that is ready already.\<close>

theorem consoleintr_edits_line:
  assumes "cons_ok (cons s)" and "length (procs s) = NPROC"
  shows "\<exists>t. consoleintr ch s = Ok () t \<and> cons_ok (cons t) \<and>
    (ready (cons t), editing (cons t)) = type_char ch (ready (cons s), editing (cons s))"
proof -
  let ?c = "cons s"
  have sum: "length (ready ?c) + length (editing ?c) = unat (c_e ?c - c_r ?c)" using cons_lengths [OF assms(1)] .
  have le: "unat (c_e ?c - c_r ?c) \<le> 128" using assms(1) by (simp add: cons_ok_def)
  consider "ch = 16" | "ch = 21" | "ch = 8 \<or> ch = 127" | "ch \<notin> {16, 21, 8, 127}" by auto
  then show ?thesis
  proof cases
    case 1
    then show ?thesis using procdump_Ok [of s] assms(1) by (auto simp: consoleintr_def type_char_def)
  next
    case 2
    then show ?thesis using kill_line_Ok [OF assms(1), of 129] sum le by (auto simp: consoleintr_def type_char_def)
  next
    case 3
    then have i: "consoleintr ch s = kwhen (c_e ?c \<noteq> c_w ?c) (kthen (kmodify (upd_cons unput)) (consputc BACKSPACE)) s"
      by (auto simp: consoleintr_def unput_def [abs_def])
    have t: "type_char ch (ready ?c, editing ?c) = (ready ?c, butlast (editing ?c))" using 3 by (auto simp: type_char_def)
    show ?thesis
    proof (cases "c_e ?c = c_w ?c")
      case True
      then show ?thesis unfolding i t using editing_empty [of ?c] assms(1) by simp
    next
      case False
      obtain out where "consputc BACKSPACE (s\<lparr>cons := unput ?c\<rparr>) = Ok () (s\<lparr>cons := unput ?c, console_out := out\<rparr>)"
        using consputc_Ok by blast
      then show ?thesis unfolding i t using False unput [OF assms(1) False] by (simp add: cons_update_const [of unput])
    qed
  next
    case 4
    show ?thesis
    proof (cases "ch \<noteq> 0 \<and> c_e ?c - c_r ?c < INPUT_BUF_SIZE")
      case False
      then have "consoleintr ch s = Ok () s" using 4 by (auto simp: consoleintr_def)
      moreover have "type_char ch (ready ?c, editing ?c) = (ready ?c, editing ?c)"
        using 4 False sum le by (auto simp: type_char_def word_less_nat_alt)
      ultimately show ?thesis using assms(1) by simp
    next
      case True
      define c where "c = (if ch = 13 then 10 else ch)"
      let ?k = "typed (of_nat c) ?c"
      note ty = typed [OF assms(1) conjunct2 [OF True], where x = "of_nat c"]
      obtain out where out: "consputc c s = Ok () (s\<lparr>console_out := out\<rparr>)" using consputc_Ok by blast
      let ?s = "s\<lparr>console_out := out, cons := ?k\<rparr>"
      let ?full = "c = 10 \<or> c = 4 \<or> c_e ?k - c_r ?k = INPUT_BUF_SIZE"
      have f: "c_e ?k - c_r ?k = INPUT_BUF_SIZE \<longleftrightarrow> length (ready ?c) + length (editing ?c @ [of_nat c]) = 128"
        using ty(4) sum by (simp add: word_unat_eq_iff)
      have i: "consoleintr ch s = kwhen ?full (kthen (kmodify (upd_cons commit_line)) (wakeup (Some ChCons))) ?s"
        using 4 True out unfolding typed_def commit_line_def [abs_def]
        by (simp add: consoleintr_def Let_def c_def [symmetric] kthen_Ok cons_update_const [of "\<lambda>c. c\<lparr>c_buf := g c, c_e := h c\<rparr>" for g h])
      have t: "type_char ch (ready ?c, editing ?c) =
          (if ?full then (ready ?c @ editing ?c @ [of_nat c], []) else (ready ?c, editing ?c @ [of_nat c]))"
        using 4 True sum unfolding f by (auto simp: type_char_def c_def Let_def word_less_nat_alt)
      show ?thesis
      proof (cases ?full)
        case full: True
        have "consoleintr ch s = wakeup (Some ChCons) (?s\<lparr>cons := commit_line ?k\<rparr>)"
          unfolding i using full by (simp add: cons_update_const [of commit_line])
        also have "\<dots> = Ok () (?s\<lparr>cons := commit_line ?k, procs := map (wake_proc (Some ChCons)) (procs s)\<rparr>)"
          using assms(2) by (simp add: wakeup_eq)
        finally show ?thesis unfolding t using full commit_line [OF ty(1)] ty(2,3) by simp
      next
        case False
        then show ?thesis unfolding i t using ty(1-3) by simp
      qed
    qed
  qed
qed

theorem consoleintr_edits_line_witness:
  "\<exists>t. consoleintr 13 kstate0 = Ok () t \<and> ready (cons t) = [10] \<and> editing (cons t) = []"
proof -
  have "cons_ok (cons kstate0)" "ready (cons kstate0) = []" "editing (cons kstate0) = []"
    by (simp_all add: cons_ok_def ready_def editing_def ring_def kstate0_def)
  then show ?thesis
    using consoleintr_edits_line [of kstate0 13] by (auto simp: type_char_def kstate0_def)
qed

end
