(* ===== verification/Xv6_Fork.thy ===== *)
theory Xv6_Fork
  imports Xv6_Uvm
begin

text \<open>
  uvmcopy, which fork uses to give the child a copy of the parent's memory: the parent's and the
  child's page tables side by side in one memory, sharing the free list.
\<close>

unbundle bit_operations_syntax

section \<open>Trees and pages that are not written\<close>

lemma entry_same_outside:
  "same_outside Q m m' \<Longrightarrow> page_aligned q \<Longrightarrow> q \<notin> Q \<Longrightarrow> i < 512 \<Longrightarrow> entry m' q i = entry m q i"
  using same_outside_read [of Q m m' q "8 * i" 8] by (simp add: entry_def slot_def load64_def)

lemma pt_ok_same_outside:
  assumes "pt_ok m root T" "same_outside Q m m'" "ran T \<inter> Q = {}"
  shows "pt_ok m' root T" "leaf m' T = leaf m T"
proof -
  have e: "entry m' q i = entry m q i" if "T ks = Some q" "i < 512" for ks q i
    using assms that pt_ok_aligned [OF assms(1)] by (intro entry_same_outside [of Q]) (auto simp: ran_def)
  show "pt_ok m' root T" using assms(1) e unfolding pt_ok_def by auto
  show "leaf m' T = leaf m T" using e px_less by (auto simp: leaf_def fun_eq_iff split: option.splits)
qed

lemma vm_inv_same_outside:
  assumes "vm_inv s root T ps" "mem_only s t" "same_outside Q (mem s) (mem t)" "ran T \<inter> Q = {}"
    "free_pages t qs" "ran T \<inter> set qs = {}"
  shows "vm_inv t root T qs" "leaf (mem t) T = leaf (mem s) T"
proof -
  have ok: "pt_ok (mem s) root T" using assms(1) by (simp add: vm_inv_def)
  show "vm_inv t root T qs" using pt_ok_same_outside(1) [OF ok assms(3,4)] assms(1,5,6) mem_only_ram_page [OF assms(2)]
    by (simp add: vm_inv_def)
  show "leaf (mem t) T = leaf (mem s) T" by (rule pt_ok_same_outside(2) [OF ok assms(3,4)])
qed

lemma page_aligned_PTE2PA [simp]: "page_aligned (PTE2PA e)"
  by (simp add: page_aligned_bit bit_PTE2PA)

lemma PTE_FLAGS_small: "PTE_FLAGS e < 1024"
proof -
  have m: "(0x3FF :: u64) = mask 10" by (simp add: mask_eq_exp_minus_1)
  have "PTE_FLAGS e = take_bit 10 e" unfolding PTE_FLAGS_def m by (simp add: take_bit_eq_mask)
  also have "\<dots> < 1024" by (simp add: take_bit_eq_mod word_less_nat_alt unat_mod)
  finally show ?thesis .
qed

lemma bit_PTE_FLAGS: "k < 10 \<Longrightarrow> bit (PTE_FLAGS e) k = bit e k"
proof -
  assume k: "k < 10"
  have m: "(0x3FF :: u64) = mask 10" by (simp add: mask_eq_exp_minus_1)
  show ?thesis unfolding PTE_FLAGS_def m using k by (simp add: bit_simps)
qed

section \<open>The state of a copy\<close>

text \<open>The address of page number \<open>i\<close>.\<close>

abbreviation (input) page_addr :: "nat \<Rightarrow> u64" where
  "page_addr i \<equiv> of_nat (4096 * i)"

lemma vpn_page_addr: "4096 * i < 2 ^ 64 \<Longrightarrow> vpn (page_addr i) = i"
  by (simp only: unat_of_nat_u64)

text \<open>
  After \<open>n\<close> pages: \<open>pg\<close> gives the child's page for each page number copied so far. \<open>F\<close> is all that the
  copy may write: the child's tables and the free pages at the start.
\<close>

definition copied :: "kstate \<Rightarrow> tree \<Rightarrow> tree \<Rightarrow> u64 set \<Rightarrow> u64 \<Rightarrow> nat \<Rightarrow> (nat \<rightharpoonup> u64) \<Rightarrow> kstate \<Rightarrow> tree \<Rightarrow> u64 list \<Rightarrow> bool" where
  "copied s0 T C0 F new n pg s C ps \<longleftrightarrow>
     vm_inv s new C ps \<and> mem_only s0 s \<and> same_outside F (mem s0) (mem s) \<and>
     ran C \<union> set ps \<union> ran pg = F \<and> ran pg \<inter> (ran C \<union> set ps) = {} \<and> (\<forall>p\<in>ran pg. ram_page s p) \<and>
     inj_on pg (dom pg) \<and> dom pg = {i. i < n \<and> bit (leaf (mem s0) T (page_addr i)) 0} \<and>
     (\<forall>vb<MAXVA. leaf (mem s) C vb = (case pg (vpn vb) of
        Some p \<Rightarrow> PA2PTE p OR PTE_FLAGS (leaf (mem s0) T vb) OR PTE_V | None \<Rightarrow> leaf (mem s0) C0 vb)) \<and>
     (\<forall>i p. pg i = Some p \<longrightarrow>
        mem_read (mem s) p 4096 = mem_read (mem s0) (PTE2PA (leaf (mem s0) T (page_addr i))) 4096)"

text \<open>The parent's tables and pages, which the copy must not write.\<close>

definition parent :: "kstate \<Rightarrow> u64 \<Rightarrow> tree \<Rightarrow> u64 set \<Rightarrow> nat \<Rightarrow> bool" where
  "parent s0 old T F K \<longleftrightarrow>
     pt_ok (mem s0) old T \<and> ran T \<inter> F = {} \<and> (\<forall>q\<in>ran T. ram_page s0 q) \<and>
     (\<forall>i<K. bit (leaf (mem s0) T (page_addr i)) 0 \<longrightarrow> PTE2PA (leaf (mem s0) T (page_addr i)) \<notin> F \<and>
        ram_page s0 (PTE2PA (leaf (mem s0) T (page_addr i))))"

lemma parent_now:
  assumes "parent s0 old T F K" "copied s0 T C0 F new n pg s C ps"
  shows "vm_inv s old T ps" "leaf (mem s) T = leaf (mem s0) T"
proof -
  have s: "mem_only s0 s" "same_outside F (mem s0) (mem s)" "free_pages s ps" "set ps \<subseteq> F"
    using assms(2) by (auto simp: copied_def vm_inv_def)
  have ok: "pt_ok (mem s0) old T" "ran T \<inter> F = {}" "\<forall>q\<in>ran T. ram_page s0 q" using assms(1) by (auto simp: parent_def)
  show "leaf (mem s) T = leaf (mem s0) T" by (rule pt_ok_same_outside(2) [OF ok(1) s(2) ok(2)])
  have "ran T \<inter> set ps = {}" using ok(2) s(4) by blast
  then show "vm_inv s old T ps"
    using pt_ok_same_outside(1) [OF ok(1) s(2) ok(2)] s(3) ok(3) mem_only_ram_page [OF s(1)] by (simp add: vm_inv_def)
qed

lemma child_entry:
  assumes "page_aligned p" "bit e 0"
  shows "PTE2PA (PA2PTE p OR PTE_FLAGS e OR PTE_V) = p" "bit (PA2PTE p OR PTE_FLAGS e OR PTE_V) 0"
    "bit (PA2PTE p OR PTE_FLAGS e OR PTE_V) 4 = bit e 4"
proof -
  have f: "PTE_FLAGS e OR PTE_V < 1024" by (intro or_small PTE_FLAGS_small) simp
  show "PTE2PA (PA2PTE p OR PTE_FLAGS e OR PTE_V) = p" using PTE2PA_PA2PTE [OF assms(1) f] by simp
  show "bit (PA2PTE p OR PTE_FLAGS e OR PTE_V) 0" "bit (PA2PTE p OR PTE_FLAGS e OR PTE_V) 4 = bit e 4"
    using bit_PTE_FLAGS [of 0 e] bit_PTE_FLAGS [of 4 e] assms(2) by (simp_all add: bit_or_iff bit_PA2PTE)
qed

text \<open>The child has nothing mapped in the first \<open>K\<close> pages at the start.\<close>

definition unmapped :: "memory \<Rightarrow> tree \<Rightarrow> nat \<Rightarrow> bool" where
  "unmapped m C K \<longleftrightarrow> (\<forall>vb<MAXVA. vpn vb < K \<longrightarrow> \<not> bit (leaf m C vb) 0)"

lemma copied_leaf:
  assumes "copied s0 T C0 F new n pg s C ps" "unmapped (mem s0) C0 K" "vb < MAXVA" "vpn vb < K" "bit (leaf (mem s) C vb) 0"
  obtains p where "pg (vpn vb) = Some p" "PTE2PA (leaf (mem s) C vb) = p" "ram_page s p" "p \<notin> ran C" "p \<notin> set ps"
    "bit (leaf (mem s0) T vb) 0"
proof (cases "pg (vpn vb)")
  case None
  then have "leaf (mem s) C vb = leaf (mem s0) C0 vb" using assms(1,3) by (simp add: copied_def)
  then show ?thesis using assms(2-5) by (auto simp: unmapped_def)
next
  case (Some p)
  have "vpn vb \<in> dom pg" using Some by auto
  then have "bit (leaf (mem s0) T (page_addr (vpn vb))) 0" using assms(1) by (auto simp: copied_def)
  moreover have "leaf (mem s0) T (page_addr (vpn vb)) = leaf (mem s0) T vb"
    by (rule leaf_cong) (rule vpn_page_addr, use unat_bounds(4) [of vb] in simp)
  ultimately have e: "bit (leaf (mem s0) T vb) 0" by simp
  have p: "p \<in> ran pg" using Some by (auto simp: ran_def)
  then have r: "ram_page s p" "p \<notin> ran C" "p \<notin> set ps" using assms(1) by (auto simp: copied_def)
  have "leaf (mem s) C vb = PA2PTE p OR PTE_FLAGS (leaf (mem s0) T vb) OR PTE_V" using assms(1,3) Some by (simp add: copied_def)
  then have "PTE2PA (leaf (mem s) C vb) = p" using child_entry(1) [of p, OF _ e] r(1) by (simp add: ram_page_def)
  then show ?thesis using that Some r e by blast
qed

lemma copied_owned:
  assumes "copied s0 T C0 F new n pg s C ps" "unmapped (mem s0) C0 K"
  shows "owned (\<lambda>va. vpn va < K) s C ps"
  unfolding owned_def Let_def
proof (intro conjI allI impI)
  fix va assume "va < MAXVA" "vpn va < K" "bit (leaf (mem s) C va) 0"
  then show "ram_page s (PTE2PA (leaf (mem s) C va))" "PTE2PA (leaf (mem s) C va) \<notin> ran C" "PTE2PA (leaf (mem s) C va) \<notin> set ps"
    using copied_leaf [OF assms] by metis+
next
  fix va vb assume v: "va < MAXVA" "vb < MAXVA" "vpn va < K" "vpn vb < K" "bit (leaf (mem s) C va) 0" "bit (leaf (mem s) C vb) 0"
    and eq: "PTE2PA (leaf (mem s) C va) = PTE2PA (leaf (mem s) C vb)"
  obtain p where "pg (vpn va) = Some p" "PTE2PA (leaf (mem s) C va) = p" using copied_leaf [OF assms v(1,3,5)] by metis
  moreover obtain q where "pg (vpn vb) = Some q" "PTE2PA (leaf (mem s) C vb) = q" using copied_leaf [OF assms v(2,4,6)] by metis
  ultimately have "pg (vpn va) = pg (vpn vb)" "vpn va \<in> dom pg" "vpn vb \<in> dom pg" using eq by auto
  then show "vpn va = vpn vb" using assms(1) by (auto simp: copied_def dest: inj_onD)
qed

lemma copied_range_pages:
  assumes c: "copied s0 T C0 F new n pg s C ps" and u: "unmapped (mem s0) C0 K" and n: "n \<le> K" "4096 * n \<le> unat MAXVA"
  shows "range_pages (mem s) C 0 n = ran pg"
proof
  show "range_pages (mem s) C 0 n \<subseteq> ran pg"
  proof
    fix p assume "p \<in> range_pages (mem s) C 0 n"
    then obtain vb where vb: "p = PTE2PA (leaf (mem s) C vb)" "vb < MAXVA" "vpn vb < n" "bit (leaf (mem s) C vb) 0"
      by (auto simp: range_pages_def)
    show "p \<in> ran pg" by (rule copied_leaf [OF c u vb(2) _ vb(4)]) (use vb n in \<open>auto intro: ranI\<close>)
  qed
  show "ran pg \<subseteq> range_pages (mem s) C 0 n"
  proof
    fix p assume "p \<in> ran pg"
    then obtain i where i: "pg i = Some p" by (auto simp: ran_def)
    then have "i \<in> dom pg" by auto
    then have lt: "i < n" "bit (leaf (mem s0) T (page_addr i)) 0" using c by (auto simp: copied_def)
    have un: "unat (page_addr i) = 4096 * i" using lt(1) n(2) by (intro unat_of_nat_u64) simp
    have va: "page_addr i < MAXVA" "vpn (page_addr i) = i" using lt(1) n(2) un by (simp_all add: word_less_nat_alt)
    have "ram_page s p" using c \<open>p \<in> ran pg\<close> by (auto simp: copied_def)
    moreover have "leaf (mem s) C (page_addr i) = PA2PTE p OR PTE_FLAGS (leaf (mem s0) T (page_addr i)) OR PTE_V"
      using c va i by (simp add: copied_def)
    ultimately have "PTE2PA (leaf (mem s) C (page_addr i)) = p" "bit (leaf (mem s) C (page_addr i)) 0"
      using child_entry(1,2) [of p, OF _ lt(2)] by (simp_all add: ram_page_def)
    then show "p \<in> range_pages (mem s) C 0 n" using va lt(1) unfolding range_pages_def by (auto intro!: exI [of _ "page_addr i"])
  qed
qed

text \<open>Giving up: the child's pages go back to the free list.\<close>

lemma copy_undo:
  assumes c: "copied s0 T C0 F new n pg s C ps" and u: "unmapped (mem s0) C0 K" and n: "n \<le> K" "4096 * n \<le> unat MAXVA"
  shows "\<exists>t qs. uvmunmap new 0 (of_nat n) True s = Ok () t \<and> vm_inv t new C qs \<and> mem_only s0 t \<and>
    same_outside F (mem s0) (mem t) \<and> ran C \<union> set qs = F \<and> unmapped (mem t) C K"
proof -
  have inv: "vm_inv s new C ps" "mem_only s0 s" "same_outside F (mem s0) (mem s)" "ran C \<union> set ps \<union> ran pg = F"
    using c by (auto simp: copied_def)
  have un: "unat (of_nat n :: u64) = n" by (rule unat_of_nat_u64) (use n(2) in simp)
  from unmap_range [OF inv(1) copied_owned [OF c u], of 0 n] n obtain t qs where
    k: "kfor (page_range 0 n) (uvmunmap_page new True) s = Ok () t"
    and t: "vm_inv t new C (qs @ ps)" "mem_only s t" "set qs = range_pages (mem s) C 0 n" "same_outside (set qs \<union> ran C) (mem s) (mem t)"
    and l: "\<forall>vb<MAXVA. leaf (mem t) C vb = (if in_range 0 n vb \<and> bit (leaf (mem s) C vb) 0 then 0 else leaf (mem s) C vb)"
    by (auto simp: page_aligned_def)
  have qs: "set qs = ran pg" using t(3) copied_range_pages [OF c u n] by simp
  have "uvmunmap new 0 (of_nat n) True s = Ok () t"
    using k page_steps_pages [of 0 "of_nat n"] n(2) un by (simp add: uvmunmap_def)
  moreover have "mem_only s0 t" using mem_only_trans [OF inv(2) t(2)] .
  moreover have "same_outside F (mem s0) (mem t)" using same_outside_trans [OF inv(3) t(4)] inv(4) qs by auto
  moreover have "\<not> bit (leaf (mem t) C vb) 0" if vb: "vb < MAXVA" "vpn vb < K" for vb
  proof
    assume b: "bit (leaf (mem t) C vb) 0"
    then have s: "bit (leaf (mem s) C vb) 0" "\<not> vpn vb < n" using l vb by (auto split: if_splits)
    obtain p where "pg (vpn vb) = Some p" by (rule copied_leaf [OF c u vb s(1)])
    then have "vpn vb \<in> dom pg" by auto
    then show False using c s(2) by (auto simp: copied_def)
  qed
  ultimately show ?thesis using t(1) inv(4) qs by (intro exI [of _ t] exI [of _ "qs @ ps"]) (auto simp: unmapped_def)
qed

section \<open>Copying a page\<close>

text \<open>A free page \<open>p\<close> taken from the list and filled with the contents of \<open>pa\<close>.\<close>

lemma take_page:
  assumes inv: "vm_inv s new C (p # ps)" and pa: "ram_page s pa" "pa \<noteq> p"
  shows "\<exists>t. kalloc s = Ok p t \<and> p \<noteq> 0 \<and>
    (let u = t\<lparr>mem := memmove (mem t) p pa 4096\<rparr> in
     vm_inv u new C ps \<and> mem_only s u \<and> same_outside {p} (mem s) (mem u) \<and> leaf (mem u) C = leaf (mem s) C \<and>
     mem_read (mem u) p 4096 = mem_read (mem s) pa 4096 \<and> ram_page s p \<and> p \<notin> ran C \<and> p \<notin> set ps)"
proof -
  have fp: "free_pages s (p # ps)" and pC: "p \<notin> ran C" and C: "ran C \<inter> set ps = {}" using inv by (auto simp: vm_inv_def)
  have p: "page_aligned p" "p \<noteq> 0" "ram_page s p" "p \<notin> set ps" using fp by (auto simp: free_pages_def ram_page_def)
  from kalloc_page [OF fp] obtain m where
    k: "kalloc s = Ok p (s\<lparr>mem := m, freelist := load64 (mem s) p\<rparr>)"
    and f1: "free_pages (s\<lparr>mem := m, freelist := load64 (mem s) p\<rparr>) ps" and se: "same_except p (mem s) m" by blast
  have b: "unat q + 4096 < 2 ^ 64" if "ram_page s q" for q using that by (simp add: ram_page_def word_less_nat_alt)
  have mv: "memmove m p pa 4096 = mem_write m p (mem_read m pa 4096)"
    using memmove_eq [of pa 4096 p m] b [OF pa(1)] b [OF p(3)] by simp
  have same: "mem_read m pa 4096 = mem_read (mem s) pa 4096"
    using same_outside_read [of "{p}" "mem s" m pa 0 4096] se pa by (simp add: same_outside_except ram_page_def)
  let ?t = "s\<lparr>mem := m, freelist := load64 (mem s) p\<rparr>"
  let ?u = "s\<lparr>mem := memmove m p pa 4096, freelist := load64 (mem s) p\<rparr>"
  have w: "same_except p m (memmove m p pa 4096)" unfolding mv using same_except_write [OF p(1), of 0 "mem_read m pa 4096" m] by simp
  have so: "same_outside {p} (mem s) (memmove m p pa 4096)"
    using se w same_outside_trans [of "{p}" "mem s" m "{p}" "memmove m p pa 4096" "{p}"] by (simp add: same_outside_except)
  have f2: "free_pages ?u ps"
    using free_pages_same_outside [OF f1, of "{p}" ?u] w p(4) by (simp add: same_outside_except)
  have mo: "mem_only s ?u" by (simp add: mem_only_def)
  have "vm_inv ?u new C ps" "leaf (mem ?u) C = leaf (mem s) C"
    using vm_inv_same_outside [OF inv mo, of "{p}" ps] so pC f2 C by simp_all
  moreover have "mem_read (memmove m p pa 4096) p 4096 = mem_read (mem s) pa 4096"
    unfolding mv using mem_read_write_same [of "mem_read m pa 4096" 4096 m p] same by simp
  ultimately show ?thesis using k p pC so mo by (intro exI [of _ ?t]) (simp add: Let_def)
qed

lemma copied_taken:
  assumes c: "copied s0 T C0 F new n pg s C (p # ps)"
    and u: "vm_inv u new C' ps'" "mem_only s u" "same_outside (insert p (ran C')) (mem s) (mem u)"
    and used: "ps = used @ ps'" "ran C' = ran C \<union> set used"
  shows "mem_only s0 u" "same_outside F (mem s0) (mem u)" "ran C' \<union> set ps' \<union> ran pg \<union> {p} = F"
    "ran pg \<inter> (ran C' \<union> set ps' \<union> {p}) = {}" "\<forall>q\<in>ran pg. ram_page u q"
    "\<forall>q\<in>ran pg. mem_read (mem u) q 4096 = mem_read (mem s) q 4096"
proof -
  have f: "mem_only s0 s" "same_outside F (mem s0) (mem s)" "ran C \<union> set (p # ps) \<union> ran pg = F"
    "ran pg \<inter> (ran C \<union> set (p # ps)) = {}" "\<forall>q\<in>ran pg. ram_page s q" using c by (auto simp: copied_def)
  show "mem_only s0 u" by (rule mem_only_trans [OF f(1) u(2)])
  show F: "ran C' \<union> set ps' \<union> ran pg \<union> {p} = F" "ran pg \<inter> (ran C' \<union> set ps' \<union> {p}) = {}" using f(3,4) used by auto
  show "same_outside F (mem s0) (mem u)" using F(1) by (intro same_outside_trans [OF f(2) u(3)]) auto
  show "\<forall>q\<in>ran pg. ram_page u q" using f(5) mem_only_ram_page [OF u(2)] by simp
  show "\<forall>q\<in>ran pg. mem_read (mem u) q 4096 = mem_read (mem s) q 4096"
    using same_outside_read [OF u(3), of _ 0 4096] F(2) f(5) by (auto simp: ram_page_def)
qed

text \<open>The page mapped for the child.\<close>

lemma copied_mapped:
  assumes c: "copied s0 T C0 F new n pg s C (p # ps)"
    and t: "vm_inv t new C' ps'" "mem_only s t" "same_outside (insert p (ran C')) (mem s) (mem t)"
    and used: "ps = used @ ps'" "ran C' = ran C \<union> set used" and e: "bit (leaf (mem s0) T (page_addr n)) 0" "vpn (page_addr n) = n"
    and lt: "\<And>vb. vb < MAXVA \<Longrightarrow> leaf (mem t) C' vb = (if vpn vb = n
      then PA2PTE p OR PTE_FLAGS (leaf (mem s0) T (page_addr n)) OR PTE_V else leaf (mem s) C vb)"
    and rd: "mem_read (mem t) p 4096 = mem_read (mem s0) (PTE2PA (leaf (mem s0) T (page_addr n))) 4096"
  shows "copied s0 T C0 F new (Suc n) (pg(n \<mapsto> p)) t C' ps'"
  unfolding copied_def
proof (intro conjI allI impI ballI)
  note tk = copied_taken [OF c t used]
  have dom: "dom pg = {i. i < n \<and> bit (leaf (mem s0) T (page_addr i)) 0}" and inj: "inj_on pg (dom pg)"
    and p: "p \<notin> ran pg" "ram_page s p" "p \<notin> ran C" "p \<notin> set ps"
    using c by (auto simp: copied_def vm_inv_def free_pages_def)
  have pgn: "pg n = None" using dom by auto
  show "vm_inv t new C' ps'" "mem_only s0 t" "same_outside F (mem s0) (mem t)" using t(1) tk(1,2) by simp_all
  show "ran C' \<union> set ps' \<union> ran (pg(n \<mapsto> p)) = F" using tk(3) pgn by (auto simp: ran_map_upd)
  show "ran (pg(n \<mapsto> p)) \<inter> (ran C' \<union> set ps') = {}" using tk(4) pgn p(3,4) used by (auto simp: ran_map_upd)
  show "ram_page t q" if "q \<in> ran (pg(n \<mapsto> p))" for q
    using that tk(5) pgn p(2) mem_only_ram_page [OF t(2)] by (auto simp: ran_map_upd)
  show "inj_on (pg(n \<mapsto> p)) (dom (pg(n \<mapsto> p)))" using inj p(1) pgn by (auto simp: inj_on_def ran_def dom_def split: if_splits)
  show "dom (pg(n \<mapsto> p)) = {i. i < Suc n \<and> bit (leaf (mem s0) T (page_addr i)) 0}" using dom e(1) by (auto simp: less_Suc_eq)
  show "leaf (mem t) C' vb = (case (pg(n \<mapsto> p)) (vpn vb) of
      Some p \<Rightarrow> PA2PTE p OR PTE_FLAGS (leaf (mem s0) T vb) OR PTE_V | None \<Rightarrow> leaf (mem s0) C0 vb)" if vb: "vb < MAXVA" for vb
    using lt [OF vb] c vb leaf_cong [of vb "page_addr n" "mem s0" T] e(2) by (auto simp: copied_def)
  show "mem_read (mem t) q 4096 = mem_read (mem s0) (PTE2PA (leaf (mem s0) T (page_addr i))) 4096"
    if q: "(pg(n \<mapsto> p)) i = Some q" for i q
  proof (cases "i = n")
    case True then show ?thesis using q rd by simp
  next
    case False
    then have "pg i = Some q" using q by simp
    then show ?thesis using c tk(6) ranI [of pg i q] by (simp add: copied_def)
  qed
qed

text \<open>No memory for a table: the page goes back.\<close>

lemma copied_returned:
  assumes c: "copied s0 T C0 F new n pg s C (p # ps)"
    and t: "vm_inv t new C' []" "mem_only s t" "same_outside (insert p (ran C')) (mem s) (mem t)" and C': "ran C' = ran C \<union> set ps"
    and lt: "\<And>vb. vb < MAXVA \<Longrightarrow> leaf (mem t) C' vb = leaf (mem s) C vb"
  shows "\<exists>u. kfree p t = Ok () u \<and> copied s0 T C0 F new n pg u C' [p]"
proof -
  have used: "ps = ps @ []" by simp
  note tk = copied_taken [OF c t used C']
  have p: "ram_page s p" "p \<notin> ran C'" "p \<in> F" using c C' by (auto simp: copied_def vm_inv_def free_pages_def)
  have fp: "free_pages t []" using t(1) by (simp add: vm_inv_def)
  have rp: "ram_page t p" using p(1) mem_only_ram_page [OF t(2)] by simp
  from kfree_page [OF fp rp] obtain m' where
    kf: "kfree p t = Ok () (t\<lparr>mem := m', freelist := p\<rparr>)" and fp2: "free_pages (t\<lparr>mem := m', freelist := p\<rparr>) [p]"
    and se: "same_except p (mem t) m'" by auto
  let ?t = "t\<lparr>mem := m', freelist := p\<rparr>"
  have mo2: "mem_only t ?t" by (simp add: mem_only_def)
  have sp: "same_outside {p} (mem t) (mem ?t)" using se by (simp add: same_outside_except)
  have inv2: "vm_inv ?t new C' [p]" "leaf (mem ?t) C' = leaf (mem t) C'"
    using vm_inv_same_outside [OF t(1) mo2 sp _ fp2] p(2) by simp_all
  have "copied s0 T C0 F new n pg ?t C' [p]"
    unfolding copied_def
  proof (intro conjI allI impI ballI)
    show "vm_inv ?t new C' [p]" by (rule inv2)
    show "mem_only s0 ?t" by (rule mem_only_trans [OF tk(1) mo2])
    show "same_outside F (mem s0) (mem ?t)" by (rule same_outside_trans [OF tk(2) sp]) (use p(3) in auto)
    show "ran C' \<union> set [p] \<union> ran pg = F" "ran pg \<inter> (ran C' \<union> set [p]) = {}" using tk(3,4) by auto
    show "ram_page ?t q" if "q \<in> ran pg" for q using that tk(5) mem_only_ram_page [OF mo2] by simp
    show "inj_on pg (dom pg)" "dom pg = {i. i < n \<and> bit (leaf (mem s0) T (page_addr i)) 0}" using c unfolding copied_def by blast+
    show "leaf (mem ?t) C' vb = (case pg (vpn vb) of
        Some p \<Rightarrow> PA2PTE p OR PTE_FLAGS (leaf (mem s0) T vb) OR PTE_V | None \<Rightarrow> leaf (mem s0) C0 vb)" if "vb < MAXVA" for vb
      using lt [OF that] c that inv2(2) by (simp add: copied_def)
    show "mem_read (mem ?t) q 4096 = mem_read (mem s0) (PTE2PA (leaf (mem s0) T (page_addr i))) 4096" if i: "pg i = Some q" for i q
    proof -
      have q: "q \<in> ran pg" using i by (rule ranI)
      then have "q \<noteq> p" "page_aligned q" using tk(4,5) by (auto simp: ram_page_def)
      then have "mem_read (mem ?t) q 4096 = mem_read (mem t) q 4096" using same_outside_read [OF sp, of q 0 4096] by simp
      then show ?thesis using c i tk(6) q by (simp add: copied_def)
    qed
  qed
  then show ?thesis using kf by blast
qed

text \<open>One page of the loop that has an entry in the parent's table.\<close>

lemma copy_page:
  assumes par: "parent s0 old T F K" and c: "copied s0 T C0 F new n pg s C (p # ps)" and u: "unmapped (mem s0) C0 K"
    and n: "n < K" "4096 * K \<le> unat MAXVA" and e: "bit (leaf (mem s0) T (page_addr n)) 0"
  defines "e \<equiv> leaf (mem s0) T (page_addr n)"
  shows "\<exists>t C' ps' r.
    kbind kalloc (\<lambda>page. if page = 0 then k1
      else kthen (kmodify (\<lambda>s. s\<lparr>mem := memmove (mem s) page (PTE2PA e) 4096\<rparr>))
        (kbind (mappages new (page_addr n) PGSIZE page (PTE_FLAGS e)) (\<lambda>r. if r \<noteq> 0 then kthen (kfree page) k2 else k3))) s =
      (if r = 0 then k3 t else k2 t) \<and>
    (if r = (0 :: int) then copied s0 T C0 F new (Suc n) (pg(n \<mapsto> p)) t C' ps' else copied s0 T C0 F new n pg t C' ps')"
proof -
  have inv: "vm_inv s new C (p # ps)" and mo: "mem_only s0 s" and so: "same_outside F (mem s0) (mem s)"
    and F: "ran C \<union> set (p # ps) \<union> ran pg = F" and dom: "dom pg = {i. i < n \<and> bit (leaf (mem s0) T (page_addr i)) 0}"
    and inj: "inj_on pg (dom pg)"
    and lf: "\<And>vb. vb < MAXVA \<Longrightarrow> leaf (mem s) C vb = (case pg (vpn vb) of
        Some p \<Rightarrow> PA2PTE p OR PTE_FLAGS (leaf (mem s0) T vb) OR PTE_V | None \<Rightarrow> leaf (mem s0) C0 vb)"
    and cont: "\<And>i p. pg i = Some p \<Longrightarrow> mem_read (mem s) p 4096 = mem_read (mem s0) (PTE2PA (leaf (mem s0) T (page_addr i))) 4096"
    using c unfolding copied_def by blast+
  have pa: "PTE2PA e \<notin> F" "ram_page s (PTE2PA e)" using par n(1) e mem_only_ram_page [OF mo] by (auto simp: parent_def e_def)
  have pF: "p \<in> F" "p \<notin> ran pg" using F c by (auto simp: copied_def)
  have pgn: "pg n = None" using dom by auto
  have un: "unat (page_addr n) = 4096 * n" using n by (intro unat_of_nat_u64) simp
  have va: "page_addr n < MAXVA" "vpn (page_addr n) = n" "page_aligned (page_addr n)"
    using n un by (simp_all add: word_less_nat_alt page_aligned_unat)
  have pap: "PTE2PA e \<noteq> p" using pa(1) pF(1) by blast
  obtain s1 where k: "kalloc s = Ok p s1" "p \<noteq> 0"
    and v: "vm_inv (s1\<lparr>mem := memmove (mem s1) p (PTE2PA e) 4096\<rparr>) new C ps"
      "mem_only s (s1\<lparr>mem := memmove (mem s1) p (PTE2PA e) 4096\<rparr>)"
      "same_outside {p} (mem s) (memmove (mem s1) p (PTE2PA e) 4096)"
      "leaf (memmove (mem s1) p (PTE2PA e) 4096) C = leaf (mem s) C"
      "mem_read (memmove (mem s1) p (PTE2PA e) 4096) p 4096 = mem_read (mem s) (PTE2PA e) 4096"
      "ram_page s p" "p \<notin> ran C" "p \<notin> set ps"
    using take_page [OF inv pa(2) pap] by (auto simp: Let_def)
  define u where "u = s1\<lparr>mem := memmove (mem s1) p (PTE2PA e) 4096\<rparr>"
  note v = v [folded u_def] and mu = arg_cong [OF u_def, of mem, simplified]
  have lu: "leaf (mem u) C = leaf (mem s) C" using v(4) mu by simp
  have "pg (vpn vb) = None" if "vpn vb = n" for vb using that pgn by simp
  then have free: "leaf (mem u) C vb AND PTE_V = 0" if "vpn (page_addr n) \<le> vpn vb" "vpn vb < vpn (page_addr n) + vpn PGSIZE" for vb
  proof -
    have vb: "vpn vb = n" using that va(2) by simp
    then have "vb < MAXVA" using vpn_MAXVA [of vb "page_addr n"] va by simp
    then show ?thesis using lu lf [of vb] pgn vb u n(1) by (simp add: flag_bit unmapped_def)
  qed
  have fits: "unat (page_addr n) + unat PGSIZE \<le> unat MAXVA" using n un by simp
  from mappages_spec [OF v(1) va(3) _ _ fits free, where pa = p and perm = "PTE_FLAGS e"] obtain t C' ps' j r where
    m: "mappages new (page_addr n) PGSIZE p (PTE_FLAGS e) u = Ok r t" "vm_inv t new C' ps'"
      "remapped u C ps t C' ps' (map_range j (page_addr n) p (PTE_FLAGS e) (leaf (mem u) C))"
      "r = 0 \<and> j = 1 \<or> r = - 1 \<and> j = 0 \<and> ps' = []"
    by (auto simp: page_aligned_def)
  obtain used where used: "ps = used @ ps'" "ran C' = ran C \<union> set used" using m(3) by (auto simp: remapped_def)
  have mot: "mem_only s t" using m(3) v(2) by (auto simp: remapped_def mem_only_def intro: mem_only_trans [unfolded mem_only_def])
  have sot: "same_outside (insert p (ran C')) (mem s) (mem t)"
    using m(3) v(3) mu by (intro same_outside_trans [of "{p}" "mem s" "mem u" "ran C'" "mem t"]) (auto simp: remapped_def)
  have mru: "mem_read (mem t) p 4096 = mem_read (mem s0) (PTE2PA e) 4096"
  proof -
    have "p \<notin> ran C'" using v(7,8) used by auto
    then have "mem_read (mem t) p 4096 = mem_read (mem u) p 4096"
      using same_outside_read [of "ran C'" "mem u" "mem t" p 0 4096] m(3) v(6) by (simp add: remapped_def ram_page_def)
    also have "\<dots> = mem_read (mem s) (PTE2PA e) 4096" using v(5) mu by simp
    also have "\<dots> = mem_read (mem s0) (PTE2PA e) 4096" using same_outside_read [OF so, of "PTE2PA e" 0 4096] pa(1) by simp
    finally show ?thesis .
  qed
  have lt: "leaf (mem t) C' vb = (if j = 1 \<and> vpn vb = n then PA2PTE p OR PTE_FLAGS e OR PTE_V else leaf (mem s) C vb)" if "vb < MAXVA" for vb
    using m(3,4) that lu va(2) by (auto simp: remapped_def map_range_def)
  have run: "kbind kalloc (\<lambda>page. if page = 0 then k1
      else kthen (kmodify (\<lambda>s. s\<lparr>mem := memmove (mem s) page (PTE2PA e) 4096\<rparr>))
        (kbind (mappages new (page_addr n) PGSIZE page (PTE_FLAGS e)) (\<lambda>r. if r \<noteq> 0 then kthen (kfree page) k2 else k3))) s =
      (if r \<noteq> 0 then kthen (kfree p) k2 else k3) t"
    using k m(1) u_def by (simp add: kbind_Ok)
  show ?thesis
  proof (cases "r = 0")
    case True
    then have j: "j = 1" using m(4) by auto
    have "copied s0 T C0 F new (Suc n) (pg(n \<mapsto> p)) t C' ps'"
      by (rule copied_mapped [OF c m(2) mot sot used e va(2)]) (use lt j mru in \<open>simp_all add: e_def\<close>)
    then show ?thesis using run True by (intro exI [of _ t] exI [of _ C'] exI [of _ ps'] exI [of _ 0]) simp
  next
    case False
    then have j: "j = 0" "ps' = []" using m(4) by auto
    then obtain w where "kfree p t = Ok () w" "copied s0 T C0 F new n pg w C' [p]"
      using copied_returned [OF c _ mot sot] m(2) used lt by auto
    then show ?thesis using run False by (intro exI [of _ w] exI [of _ C'] exI [of _ "[p]"] exI [of _ r]) (simp add: kthen_Ok)
  qed
qed

text \<open>A page without an entry is skipped.\<close>

lemma copied_skip:
  assumes "copied s0 T C0 F new n pg s C ps" "\<not> bit (leaf (mem s0) T (page_addr n)) 0"
  shows "copied s0 T C0 F new (Suc n) pg s C ps"
proof -
  have "{i. i < Suc n \<and> bit (leaf (mem s0) T (page_addr i)) 0} = {i. i < n \<and> bit (leaf (mem s0) T (page_addr i)) 0}"
    using assms(2) less_Suc_eq by auto
  with assms(1) show ?thesis unfolding copied_def by (elim conjE) (intro conjI; assumption | simp only:)
qed

section \<open>The loop\<close>

lemma copy_loop:
  assumes "parent s0 old T F K" "copied s0 T C0 F new n pg s C ps" "unmapped (mem s0) C0 K" "n + m = K" "4096 * K \<le> unat MAXVA"
  shows "\<exists>t C' ps' r. uvmcopy_loop (page_range (page_addr n) m) old new s = Ok r t \<and>
    (r = 0 \<and> (\<exists>pg. copied s0 T C0 F new K pg t C' ps') \<or>
     r = - 1 \<and> vm_inv t new C' ps' \<and> mem_only s0 t \<and> same_outside F (mem s0) (mem t) \<and> ran C' \<union> set ps' = F \<and> unmapped (mem t) C' K)"
  using assms
proof (induction m arbitrary: n pg s C ps)
  case 0
  then show ?case by (auto simp: page_range_def)
next
  case (Suc m)
  let ?i = "page_addr n" and ?rest = "page_range (page_addr (Suc n)) m"
  let ?e = "leaf (mem s0) T (page_addr n)"
  have n: "n < K" "4096 * K \<le> unat MAXVA" "4096 * n \<le> unat MAXVA" using Suc.prems(4,5) by simp_all
  have un: "unat ?i = 4096 * n" using n by (intro unat_of_nat_u64) simp
  have va: "?i < MAXVA" using n un by (simp add: word_less_nat_alt)
  have "unat (of_nat n :: u64) = n" using n(3) by (intro unat_of_nat_u64) simp
  then have div: "?i div PGSIZE = of_nat n" using un by (simp add: word_unat_eq_iff unat_div)
  have steps: "page_range ?i (Suc m) = ?i # ?rest" by (simp add: page_range_Suc ac_simps)
  note par = parent_now [OF Suc.prems(1,2)]
  have undo: "\<exists>t C' ps'. kthen (uvmunmap new 0 (?i div PGSIZE) True) (kret (- 1 :: int)) u = Ok (- 1) t \<and>
      vm_inv t new C' ps' \<and> mem_only s0 t \<and> same_outside F (mem s0) (mem t) \<and> ran C' \<union> set ps' = F \<and> unmapped (mem t) C' K"
    if cu: "copied s0 T C0 F new n pg u D qs" for u D qs
  proof -
    note cu' = copy_undo [OF cu Suc.prems(3) less_imp_le [OF n(1)] n(3)]
    obtain t qs' where "uvmunmap new 0 (of_nat n) True u = Ok () t"
      "vm_inv t new D qs' \<and> mem_only s0 t \<and> same_outside F (mem s0) (mem t) \<and> ran D \<union> set qs' = F \<and> unmapped (mem t) D K"
      using cu' by blast
    then show ?thesis unfolding div by (intro exI [of _ t] exI [of _ D] exI [of _ qs']) (simp add: kthen_Ok)
  qed
  have next_page: ?case if "copied s0 T C0 F new (Suc n) pg' u D qs" "uvmcopy_loop (page_range ?i (Suc m)) old new s = uvmcopy_loop ?rest old new u" for pg' u D qs
    using Suc.IH [OF Suc.prems(1) that(1) Suc.prems(3) _ Suc.prems(5)] Suc.prems(4) unfolding that(2) by simp
  have w: "uvmcopy_loop (page_range ?i (Suc m)) old new s =
      (if T [px 2 ?i, px 1 ?i] = None then uvmcopy_loop ?rest old new s
       else if ?e AND PTE_V = 0 then uvmcopy_loop ?rest old new s
       else kbind kalloc (\<lambda>page. if page = 0 then kthen (uvmunmap new 0 (?i div PGSIZE) True) (kret (- 1))
         else kthen (kmodify (\<lambda>s. s\<lparr>mem := memmove (mem s) page (PTE2PA ?e) 4096\<rparr>))
           (kbind (mappages new ?i PGSIZE page (PTE_FLAGS ?e)) (\<lambda>r.
            if r \<noteq> 0 then kthen (kfree page) (kthen (uvmunmap new 0 (?i div PGSIZE) True) (kret (- 1)))
            else uvmcopy_loop ?rest old new))) s)"
    unfolding steps uvmcopy_loop.simps walk_entry [OF par(1) va] par(2) by simp
  show ?case
  proof (cases "bit ?e 0")
    case False
    then have "uvmcopy_loop (page_range ?i (Suc m)) old new s = uvmcopy_loop ?rest old new s" unfolding w by (simp add: flag_bit)
    then show ?thesis by (rule next_page [OF copied_skip [OF Suc.prems(2) False]])
  next
    case True
    then have "T [px 2 ?i, px 1 ?i] \<noteq> None" by (auto simp: leaf_def split: option.splits)
    note w = w [simplified this if_False flag_bit True not_True_eq_False]
    show ?thesis
    proof (cases ps)
      case Nil
      then have "kalloc s = Ok 0 s" using Suc.prems(2) by (intro kalloc_empty) (simp add: copied_def vm_inv_def)
      then show ?thesis using undo [OF Suc.prems(2)] unfolding w by (auto simp: kbind_Ok)
    next
      case (Cons p qs)
      from copy_page [OF Suc.prems(1) Suc.prems(2) [unfolded Cons] Suc.prems(3) n(1,2) True,
          of "kthen (uvmunmap new 0 (?i div PGSIZE) True) (kret (- 1))" "kthen (uvmunmap new 0 (?i div PGSIZE) True) (kret (- 1))"
            "uvmcopy_loop ?rest old new"]
      obtain t C' ps' r where
        t: "uvmcopy_loop (page_range ?i (Suc m)) old new s =
          (if r = 0 then uvmcopy_loop ?rest old new t else kthen (uvmunmap new 0 (?i div PGSIZE) True) (kret (- 1)) t)"
        and c: "if r = (0 :: int) then copied s0 T C0 F new (Suc n) (pg(n \<mapsto> p)) t C' ps' else copied s0 T C0 F new n pg t C' ps'"
        unfolding w by blast
      show ?thesis
      proof (cases "r = 0")
        case True
        then show ?thesis using c t by (intro next_page [of "pg(n \<mapsto> p)" t C' ps']) simp_all
      next
        case False
        then have "copied s0 T C0 F new n pg t C' ps'" using c by simp
        from undo [OF this] show ?thesis unfolding t using False by auto
      qed
    qed
  qed
qed

section \<open>The copy\<close>

lemma copied_bytes:
  assumes par: "parent s old T F K" and c: "copied s T C0 F new K pg t C ps" and u: "unmapped (mem s) C0 K" and va: "vpn va < K"
  shows "ubyte t C va = ubyte s T va"
proof (cases "va < MAXVA")
  case True
  have pa: "leaf (mem s) T (page_addr (vpn va)) = leaf (mem s) T va"
    by (rule leaf_cong) (rule vpn_page_addr, use unat_bounds(4) [of va] in simp)
  have lf: "leaf (mem t) C va = (case pg (vpn va) of
      Some p \<Rightarrow> PA2PTE p OR PTE_FLAGS (leaf (mem s) T va) OR PTE_V | None \<Rightarrow> leaf (mem s) C0 va)" using c True by (simp add: copied_def)
  have dom: "vpn va \<in> dom pg \<longleftrightarrow> bit (leaf (mem s) T va) 0" using c va pa by (auto simp: copied_def)
  show ?thesis
  proof (cases "pg (vpn va)")
    case None
    then have "\<not> bit (leaf (mem s) T va) 0" using dom by auto
    then show ?thesis using None lf u True va by (auto simp: ubyte_def unmapped_def)
  next
    case (Some p)
    then have e: "bit (leaf (mem s) T va) 0" using dom by auto
    have "mem_read (mem t) p 4096 = mem_read (mem s) (PTE2PA (leaf (mem s) T va)) 4096" using c Some pa by (simp add: copied_def)
    from arg_cong [OF this, of "\<lambda>xs. xs ! (unat va mod 4096)"]
    have "at (mem t) p (unat va mod 4096) = at (mem s) (PTE2PA (leaf (mem s) T va)) (unat va mod 4096)" by simp
    moreover have "page_aligned p" using c ranI [of pg "vpn va" p] Some by (auto simp: copied_def ram_page_def)
    ultimately show ?thesis using Some lf e child_entry [of p "leaf (mem s) T va"] by (simp add: ubyte_def Let_def)
  qed
qed (simp add: ubyte_def)

lemma parent_bytes:
  assumes par: "parent s old T F K" and so: "same_outside F (mem s) (mem t)" and va: "vpn va < K"
  shows "ubyte t T va = ubyte s T va"
proof -
  have ok: "pt_ok (mem s) old T" "ran T \<inter> F = {}" using par by (auto simp: parent_def)
  have lf: "leaf (mem t) T = leaf (mem s) T" by (rule pt_ok_same_outside(2) [OF ok(1) so ok(2)])
  have pa: "leaf (mem s) T (page_addr (vpn va)) = leaf (mem s) T va"
    by (rule leaf_cong) (rule vpn_page_addr, use unat_bounds(4) [of va] in simp)
  have "at (mem t) (PTE2PA (leaf (mem s) T va)) (unat va mod 4096) = at (mem s) (PTE2PA (leaf (mem s) T va)) (unat va mod 4096)"
    if "bit (leaf (mem s) T va) 0"
    using par so va that pa by (auto simp: parent_def same_outside_def)
  then show ?thesis by (auto simp: ubyte_def lf Let_def)
qed


text \<open>A parent with one page of memory and a child with an empty table.\<close>

abbreviation (input) child_tree :: tree where
  "child_tree \<equiv> [[] \<mapsto> 0x80026000]"

lemma fork_sample:
  "\<exists>s T ps. vm_inv s sample_root T ps \<and> vm_inv s 0x80026000 child_tree ps \<and> ran T \<inter> ran child_tree = {} \<and>
    leaf (mem s) T 0 = PA2PTE 0x80030000 OR (PTE_R OR PTE_U) OR PTE_V \<and> 0x80030000 \<notin> set ps \<and> ram_page s 0x80030000"
proof -
  let ?C = "child_tree"
  have inv: "vm_inv vm_sample sample_root sample_tree sample_free" using vm_sample_inv by (simp add: uinv_def)
  have free: "leaf (mem vm_sample) sample_tree vb AND PTE_V = 0" for vb by (simp add: leaf_def)
  from mappages_spec [OF inv _ _ _ _ free, of 0 PGSIZE "0x80030000" "PTE_R OR PTE_U"] obtain t T' ps' where
    v: "vm_inv t sample_root T' ps'" and r: "remapped vm_sample sample_tree sample_free t T' ps'
        (map_range 1 0 0x80030000 (PTE_R OR PTE_U) (leaf (mem vm_sample) sample_tree))"
    by (auto simp: page_aligned_def)
  obtain used where used: "sample_free = used @ ps'" "ran T' = {sample_root} \<union> set used" using r by (auto simp: remapped_def)
  have sub: "ran T' \<union> set ps' = {sample_root} \<union> set sample_free" unfolding used(2) used(1) by auto
  have "0x80026000 \<notin> ran T' \<union> set ps'" "0x80030000 \<notin> ran T' \<union> set ps'" unfolding sub by simp_all
  then have out: "0x80026000 \<notin> ran T'" "0x80026000 \<notin> set ps'" "0x80030000 \<notin> set ps'" by simp_all
  have mo: "mem_only vm_sample t" and so: "same_outside (ran T') (mem vm_sample) (mem t)" using r by (simp_all add: remapped_def mem_only_def)
  have al: "page_aligned 0x80026000" by (simp add: page_aligned_def)
  have "entry (mem t) 0x80026000 i = 0" if "i < 512" for i
  proof -
    have "entry (mem t) 0x80026000 i = entry (mem vm_sample) 0x80026000 i"
      by (rule entry_same_outside [OF so al out(1) that])
    also have "\<dots> = 0" using vm_sample_load [OF al, of "8 * i"] that by (simp add: entry_def slot_def)
    finally show ?thesis .
  qed
  then have "pt_ok (mem t) 0x80026000 ?C" using al by (auto simp: pt_ok_def child_ok_def split: if_splits)
  moreover have ram: "ram_page t 0x80026000" "ram_page t 0x80030000"
    unfolding mem_only_ram_page [OF mo] by (simp_all add: ram_page_def page_aligned_def vm_sample_def kstate0_def)
  ultimately have "vm_inv t 0x80026000 ?C ps'" using v out(2) by (simp add: vm_inv_def)
  moreover have "leaf (mem t) T' 0 = PA2PTE 0x80030000 OR (PTE_R OR PTE_U) OR PTE_V" using r by (simp add: remapped_def map_range_def)
  ultimately show ?thesis using v out ram by (intro exI [of _ t] exI [of _ T'] exI [of _ ps']) simp
qed


end
