(* ===== verification/Xv6_File.thy ===== *)
theory Xv6_File
  imports Xv6_Fs Xv6_Pipe Xv6_Console
begin

text \<open>
  kernel/file.c, pipealloc of kernel/pipe.c, and the argument fetching of kernel/syscall.c. A
  struct file pointer is an index of the file table.
\<close>

section \<open>Open files\<close>

definition get_file :: "nat \<Rightarrow> kfile kernel" where
  "get_file f = kgets (\<lambda>s. ftable s ! f)"

definition set_file :: "nat \<Rightarrow> (kfile \<Rightarrow> kfile) \<Rightarrow> unit kernel" where
  "set_file f g = kmodify (upd_file f g)"

definition filealloc :: "nat option kernel" where
  "filealloc =
     kbind (kgets (\<lambda>s. List.find (\<lambda>i. f_ref (ftable s ! i) = 0) [0..<NFILE])) (\<lambda>r.
     case r of None \<Rightarrow> kret None
     | Some f \<Rightarrow> kthen (set_file f (\<lambda>k. k\<lparr>f_ref := 1\<rparr>)) (kret (Some f)))"

definition filedup :: "nat \<Rightarrow> nat kernel" where
  "filedup f =
     kthen (kpanic_if (\<lambda>s. f_ref (ftable s ! f) < 1) ''filedup'')
     (kthen (set_file f (\<lambda>k. k\<lparr>f_ref := f_ref k + 1\<rparr>)) (kret f))"

definition fileclose :: "nat \<Rightarrow> unit kernel" where
  "fileclose f =
     kthen (kpanic_if (\<lambda>s. f_ref (ftable s ! f) < 1) ''fileclose'')
     (kthen (set_file f (\<lambda>k. k\<lparr>f_ref := f_ref k - 1\<rparr>))
     (kbind (get_file f) (\<lambda>ff.
      if f_ref ff > 0 then kret ()
      else kthen (set_file f (\<lambda>k. k\<lparr>f_ref := 0, f_type := FD_NONE\<rparr>))
        (if f_type ff = FD_PIPE then pipeclose (f_pipe ff) (f_writable ff)
         else if f_type ff = FD_INODE \<or> f_type ff = FD_DEVICE
         then kthen begin_op (kthen (iput (the (f_ip ff))) end_op)
         else kret ()))))"

text \<open>
  The bytes of struct stat: 24 of them, with 4 bytes of padding before the size. The padding,
  which C leaves unset, is zero here.
\<close>

definition encode_stat :: "stat \<Rightarrow> u8 list" where
  "encode_stat st = le_bytes 4 (st_dev st) @ le_bytes 4 (st_ino st) @ le_bytes 2 (st_type st)
     @ le_bytes 2 (st_nlink st) @ replicate 4 0 @ le_bytes 8 (st_size st)"

definition filestat :: "nat \<Rightarrow> u64 \<Rightarrow> int kernel" where
  "filestat f addr =
     kbind (get_file f) (\<lambda>k.
     if f_type k = FD_INODE \<or> f_type k = FD_DEVICE
     then kthen (ilock (the (f_ip k)))
       (kbind (stati (the (f_ip k))) (\<lambda>st.
        kthen (iunlock (the (f_ip k)))
        (kbind myproc (\<lambda>i.
         kbind (get_proc i) (\<lambda>p.
         kbind (copyout (p_pagetable p) (p_sz p) addr (encode_stat st)) (\<lambda>r.
         kret (if r < 0 then - 1 else 0)))))))
     else kret (- 1))"

definition fileread :: "nat \<Rightarrow> u64 \<Rightarrow> int \<Rightarrow> int kernel" where
  "fileread f addr n =
     kbind (get_file f) (\<lambda>k.
     if \<not> f_readable k \<or> n < 0 then kret (- 1)
     else case f_type k of
       FD_PIPE \<Rightarrow> piperead (f_pipe k) addr n
     | FD_DEVICE \<Rightarrow>
         (if sint (f_major k) < 0 \<or> sint (f_major k) \<ge> NDEV then kret (- 1)
          else case devsw_read (sint (f_major k)) of None \<Rightarrow> kret (- 1)
          | Some rd \<Rightarrow> rd (User addr) n)
     | FD_INODE \<Rightarrow>
         kthen (ilock (the (f_ip k)))
         (kbind (readi (the (f_ip k)) (User addr) (f_off k) (word_of_int n)) (\<lambda>(r, _).
          kthen (kwhen (sint r > 0) (set_file f (\<lambda>k. k\<lparr>f_off := f_off k + r\<rparr>)))
          (kthen (iunlock (the (f_ip k))) (kret (sint r)))))
     | FD_NONE \<Rightarrow> kpanic ''fileread'')"

text \<open>
  The loop of filewrite for an inode, in transactions of at most
  ((MAXOPBLOCKS - 1 - 1 - 2) / 2) * BSIZE = 3072 bytes; the result is \<open>i\<close> at the end.
\<close>

function filewrite_loop :: "nat \<Rightarrow> u64 \<Rightarrow> nat \<Rightarrow> nat \<Rightarrow> int kernel" where
  "filewrite_loop f addr i n =
     (if \<not> i < n then kret (int i)
      else
        kthen begin_op
        (kbind (get_file f) (\<lambda>k.
         kthen (ilock (the (f_ip k)))
         (kbind (writei (the (f_ip k)) (User (addr + of_nat i)) (f_off k) (of_nat (min 3072 (n - i)))) (\<lambda>r.
          kthen (kwhen (sint r > 0) (set_file f (\<lambda>k. k\<lparr>f_off := f_off k + r\<rparr>)))
          (kthen (iunlock (the (f_ip k)))
          (kthen end_op
          (if sint r \<noteq> int (min 3072 (n - i)) then kret (int i)
           else filewrite_loop f addr (i + min 3072 (n - i)) n)))))))) "
  by pat_completeness auto
termination
  by (relation "measure (\<lambda>(f, addr, i, n). n - i)") auto

declare filewrite_loop.simps [simp del]

definition filewrite :: "nat \<Rightarrow> u64 \<Rightarrow> int \<Rightarrow> int kernel" where
  "filewrite f addr n =
     kbind (get_file f) (\<lambda>k.
     if \<not> f_writable k \<or> n < 0 then kret (- 1)
     else case f_type k of
       FD_PIPE \<Rightarrow> pipewrite (f_pipe k) addr n
     | FD_DEVICE \<Rightarrow>
         (if sint (f_major k) < 0 \<or> sint (f_major k) \<ge> NDEV then kret (- 1)
          else case devsw_write (sint (f_major k)) of None \<Rightarrow> kret (- 1)
          | Some wr \<Rightarrow> wr (User addr) n)
     | FD_INODE \<Rightarrow> kbind (filewrite_loop f addr 0 (nat n)) (\<lambda>i. kret (if i = n then n else - 1))
     | FD_NONE \<Rightarrow> kpanic ''filewrite'')"

section \<open>Creating a pipe\<close>

text \<open>The clean-up at the label bad of pipealloc; the page, if any, has been kept out.\<close>

definition close_opt :: "nat option \<Rightarrow> unit kernel" where
  "close_opt f = (case f of None \<Rightarrow> kret () | Some f \<Rightarrow> fileclose f)"

definition pipealloc :: "(int \<times> nat option \<times> nat option) kernel" where
  "pipealloc =
     kbind filealloc (\<lambda>f0.
     kbind (if f0 = None then kret None else filealloc) (\<lambda>f1.
     kbind (if f1 = None then kret 0 else kalloc) (\<lambda>pi.
     if pi = 0 then kthen (close_opt f0) (kthen (close_opt f1) (kret (- 1, f0, f1)))
     else
       kthen (set_pipe pi (\<lambda>k. k\<lparr>pi_readopen := True, pi_writeopen := True, pi_nwrite := 0, pi_nread := 0\<rparr>))
       (kthen (set_file (the f0) (\<lambda>k. k\<lparr>f_type := FD_PIPE, f_readable := True, f_writable := False, f_pipe := pi\<rparr>))
       (kthen (set_file (the f1) (\<lambda>k. k\<lparr>f_type := FD_PIPE, f_readable := False, f_writable := True, f_pipe := pi\<rparr>))
       (kret (0, f0, f1)))))))"

section \<open>System call arguments\<close>

definition get_trapframe :: "nat \<Rightarrow> trapframe kernel" where
  "get_trapframe i = kgets (\<lambda>s. trapframes s (p_trapframe (procs s ! i)))"

definition set_trapframe :: "nat \<Rightarrow> (trapframe \<Rightarrow> trapframe) \<Rightarrow> unit kernel" where
  "set_trapframe i f = kmodify (\<lambda>s.
     let a = p_trapframe (procs s ! i) in s\<lparr>trapframes := (trapframes s)(a := f (trapframes s a))\<rparr>)"

text \<open>The 64-bit value read, if any.\<close>

definition fetchaddr :: "u64 \<Rightarrow> u64 option kernel" where
  "fetchaddr addr =
     kbind myproc (\<lambda>i.
     kbind (get_proc i) (\<lambda>p.
     if addr \<ge> p_sz p \<or> addr + 8 > p_sz p then kret None
     else kbind (copyin (p_pagetable p) (p_sz p) addr 8) (\<lambda>(r, bs).
       kret (if r \<noteq> 0 then None else Some (get64 bs 0)))))"

text \<open>The string without its NUL, if any; its length is what the code returns.\<close>

definition fetchstr :: "u64 \<Rightarrow> nat \<Rightarrow> u8 list option kernel" where
  "fetchstr addr mx =
     kbind myproc (\<lambda>i.
     kbind (get_proc i) (\<lambda>p.
     kbind (copyinstr (p_pagetable p) (p_sz p) addr mx) (\<lambda>(r, bs).
     kret (if r < 0 then None else Some (takeWhile (\<lambda>c. c \<noteq> 0) bs)))))"

definition argraw :: "nat \<Rightarrow> u64 kernel" where
  "argraw n =
     kbind myproc (\<lambda>i.
     kbind (get_trapframe i) (\<lambda>tf.
     if n = 0 then kret (tf_a0 tf)
     else if n = 1 then kret (tf_a1 tf)
     else if n = 2 then kret (tf_a2 tf)
     else if n = 3 then kret (tf_a3 tf)
     else if n = 4 then kret (tf_a4 tf)
     else if n = 5 then kret (tf_a5 tf)
     else kpanic ''argraw''))"

definition argint :: "nat \<Rightarrow> int kernel" where
  "argint n = kbind (argraw n) (\<lambda>v. kret (sint (ucast v :: u32)))"

definition argaddr :: "nat \<Rightarrow> u64 kernel" where
  "argaddr n = argraw n"

definition argstr :: "nat \<Rightarrow> nat \<Rightarrow> u8 list option kernel" where
  "argstr n mx = kbind (argaddr n) (\<lambda>addr. fetchstr addr mx)"

end
