(* ===== verification/Xv6_Sysfile.thy ===== *)
theory Xv6_Sysfile
  imports Xv6_File
begin

text \<open>kernel/sysfile.c: the file system calls, but sys_exec, which is in Xv6_Exec.\<close>

text \<open>A C int returned as the 64-bit result of a system call.\<close>

abbreviation (input) sysret :: "int \<Rightarrow> u64" where "sysret \<equiv> word_of_int"

text \<open>end_op(); return -1;\<close>

definition fail_op :: "u64 kernel" where
  "fail_op = kthen end_op (kret (- 1))"

section \<open>Descriptors\<close>

definition argfd :: "nat \<Rightarrow> (nat \<times> nat) option kernel" where
  "argfd n =
     kbind (argint n) (\<lambda>fd.
     if fd < 0 \<or> fd \<ge> int NOFILE then kret None
     else kbind myproc (\<lambda>i.
       kbind (get_proc i) (\<lambda>p.
       case p_ofile p ! nat fd of None \<Rightarrow> kret None | Some f \<Rightarrow> kret (Some (nat fd, f)))))"

definition set_ofile :: "nat \<Rightarrow> nat option \<Rightarrow> unit kernel" where
  "set_ofile fd f = kbind myproc (\<lambda>i. set_proc i (\<lambda>p. p\<lparr>p_ofile := (p_ofile p)[fd := f]\<rparr>))"

definition fdalloc :: "nat \<Rightarrow> nat option kernel" where
  "fdalloc f =
     kbind myproc (\<lambda>i.
     kbind (get_proc i) (\<lambda>p.
     case List.find (\<lambda>fd. p_ofile p ! fd = None) [0..<NOFILE] of
       None \<Rightarrow> kret None
     | Some fd \<Rightarrow> kthen (set_ofile fd (Some f)) (kret (Some fd))))"

definition sys_dup :: "u64 kernel" where
  "sys_dup =
     kbind (argfd 0) (\<lambda>a.
     case a of None \<Rightarrow> kret (- 1)
     | Some (_, f) \<Rightarrow>
       kbind (fdalloc f) (\<lambda>r.
       case r of None \<Rightarrow> kret (- 1)
       | Some fd \<Rightarrow> kthen (filedup f) (kret (of_nat fd))))"

definition sys_read :: "u64 kernel" where
  "sys_read =
     kbind (argaddr 1) (\<lambda>p.
     kbind (argint 2) (\<lambda>n.
     kbind (argfd 0) (\<lambda>a.
     case a of None \<Rightarrow> kret (- 1)
     | Some (_, f) \<Rightarrow> kbind (fileread f p n) (\<lambda>r. kret (sysret r)))))"

definition sys_write :: "u64 kernel" where
  "sys_write =
     kbind (argaddr 1) (\<lambda>p.
     kbind (argint 2) (\<lambda>n.
     kbind (argfd 0) (\<lambda>a.
     case a of None \<Rightarrow> kret (- 1)
     | Some (_, f) \<Rightarrow> kbind (filewrite f p n) (\<lambda>r. kret (sysret r)))))"

definition sys_close :: "u64 kernel" where
  "sys_close =
     kbind (argfd 0) (\<lambda>a.
     case a of None \<Rightarrow> kret (- 1)
     | Some (fd, f) \<Rightarrow> kthen (set_ofile fd None) (kthen (fileclose f) (kret 0)))"

definition sys_fstat :: "u64 kernel" where
  "sys_fstat =
     kbind (argaddr 1) (\<lambda>st.
     kbind (argfd 0) (\<lambda>a.
     case a of None \<Rightarrow> kret (- 1)
     | Some (_, f) \<Rightarrow> kbind (filestat f st) (\<lambda>r. kret (sysret r))))"

section \<open>Links\<close>

definition set_nlink :: "nat \<Rightarrow> (u16 \<Rightarrow> u16) \<Rightarrow> unit kernel" where
  "set_nlink ip f = set_inode ip (\<lambda>k. k\<lparr>i_nlink := f (i_nlink k)\<rparr>)"

text \<open>The label bad of sys_link.\<close>

definition link_bad :: "nat \<Rightarrow> u64 kernel" where
  "link_bad ip =
     kthen (ilock ip)
     (kthen (set_nlink ip (\<lambda>n. n - 1))
     (kthen (iupdate ip)
     (kthen (iunlockput ip) fail_op)))"

definition sys_link :: "u64 kernel" where
  "sys_link =
     kbind (argstr 0 MAXPATH) (\<lambda>a0.
     case a0 of None \<Rightarrow> kret (- 1)
     | Some old \<Rightarrow>
     kbind (argstr 1 MAXPATH) (\<lambda>a1.
     case a1 of None \<Rightarrow> kret (- 1)
     | Some new \<Rightarrow>
     kthen begin_op
     (kbind (namei old) (\<lambda>r.
     case r of None \<Rightarrow> fail_op
     | Some ip \<Rightarrow>
     kthen (ilock ip)
     (kbind (get_inode ip) (\<lambda>k.
     if i_type k = T_DIR then kthen (iunlockput ip) fail_op
     else if sint (i_nlink k) \<ge> NLINK_MAX then kthen (iunlockput ip) fail_op
     else
     kthen (set_nlink ip (\<lambda>n. n + 1))
     (kthen (iupdate ip)
     (kthen (iunlock ip)
     (kbind (nameiparent new (replicate DIRSIZ 0)) (\<lambda>(r, name).
     case r of None \<Rightarrow> link_bad ip
     | Some dp \<Rightarrow>
     kthen (ilock dp)
     (kbind (get_inode dp) (\<lambda>d.
     if i_nlink d = 0 then kthen (iunlockput dp) (link_bad ip)
     else if i_dev d \<noteq> i_dev k then kthen (iunlockput dp) (link_bad ip)
     else kbind (dirlink dp name (i_inum k)) (\<lambda>l.
     if l < 0 then kthen (iunlockput dp) (link_bad ip)
     else
     kthen (iunlockput dp)
     (kthen (iput ip)
     (kthen end_op (kret 0))))))))))))))))"

fun isdirempty_from :: "u32 list \<Rightarrow> nat \<Rightarrow> bool kernel" where
  "isdirempty_from [] dp = kret True"
| "isdirempty_from (off # offs) dp =
     kbind (readi dp (Var []) off 16) (\<lambda>(r, bs).
     if r \<noteq> 16 then kpanic ''isdirempty: readi''
     else if de_inum (decode_dirent bs) \<noteq> 0 then kret False
     else isdirempty_from offs dp)"

text \<open>From the third entry on: the first two are . and ..\<close>

definition isdirempty :: "nat \<Rightarrow> bool kernel" where
  "isdirempty dp = kbind (get_inode dp) (\<lambda>k. isdirempty_from (drop 2 (dir_offsets (i_size k))) dp)"

definition sys_unlink :: "u64 kernel" where
  "sys_unlink =
     kbind (argstr 0 MAXPATH) (\<lambda>a0.
     case a0 of None \<Rightarrow> kret (- 1)
     | Some path \<Rightarrow>
     kthen begin_op
     (kbind (nameiparent path (replicate DIRSIZ 0)) (\<lambda>(r, name).
     case r of None \<Rightarrow> fail_op
     | Some dp \<Rightarrow>
     let bad = kthen (iunlockput dp) fail_op in
     kthen (ilock dp)
     (if namecmp name [46] = 0 \<or> namecmp name [46, 46] = 0 then bad
     else kbind (dirlookup dp name) (\<lambda>found.
     case found of None \<Rightarrow> bad
     | Some (ip, off) \<Rightarrow>
     kthen (ilock ip)
     (kthen (kpanic_if (\<lambda>s. sint (i_nlink (itable s ! ip)) < 1) ''unlink: nlink < 1'')
     (kbind (get_inode ip) (\<lambda>k.
     kbind (if i_type k = T_DIR then isdirempty ip else kret True) (\<lambda>ok.
     if \<not> ok then kthen (iunlockput ip) bad
     else
     kbind (writei dp (Var (replicate 16 0)) off 16) (\<lambda>r.
     if r \<noteq> 16 then kpanic ''unlink: writei''
     else
     kthen (kwhen (i_type k = T_DIR) (kthen (set_nlink dp (\<lambda>n. n - 1)) (iupdate dp)))
     (kthen (iunlockput dp)
     (kthen (set_nlink ip (\<lambda>n. n - 1))
     (kthen (iupdate ip)
     (kthen (iunlockput ip)
     (kthen end_op (kret 0))))))))))))))))"

section \<open>Creating and opening\<close>

text \<open>The label fail of create.\<close>

definition create_fail :: "nat \<Rightarrow> nat \<Rightarrow> nat option kernel" where
  "create_fail ip dp =
     kthen (set_nlink ip (\<lambda>_. 0))
     (kthen (iupdate ip)
     (kthen (iunlockput ip)
     (kthen (iunlockput dp) (kret None))))"

definition create :: "u8 list \<Rightarrow> u16 \<Rightarrow> u16 \<Rightarrow> u16 \<Rightarrow> nat option kernel" where
  "create path type major minor =
     kbind (nameiparent path (replicate DIRSIZ 0)) (\<lambda>(r, name).
     case r of None \<Rightarrow> kret None
     | Some dp \<Rightarrow>
     kthen (ilock dp)
     (kbind (get_inode dp) (\<lambda>d.
     if i_nlink d = 0 then kthen (iunlockput dp) (kret None)
     else if type = T_DIR \<and> sint (i_nlink d) \<ge> NLINK_MAX then kthen (iunlockput dp) (kret None)
     else kbind (dirlookup dp name) (\<lambda>found.
     case found of
       Some (ip, _) \<Rightarrow>
         kthen (iunlockput dp)
         (kthen (ilock ip)
         (kbind (get_inode ip) (\<lambda>k.
          if type = T_FILE \<and> (i_type k = T_FILE \<or> i_type k = T_DEVICE) then kret (Some ip)
          else kthen (iunlockput ip) (kret None))))
     | None \<Rightarrow>
     kbind (ialloc (i_dev d) type) (\<lambda>a.
     case a of None \<Rightarrow> kthen (iunlockput dp) (kret None)
     | Some ip \<Rightarrow>
     kthen (ilock ip)
     (kthen (set_inode ip (\<lambda>k. k\<lparr>i_major := major, i_minor := minor, i_nlink := 1\<rparr>))
     (kthen (iupdate ip)
     (kbind (get_inode ip) (\<lambda>k.
     kbind (if type = T_DIR
            then kbind (dirlink ip [46] (i_inum k)) (\<lambda>l.
              if l < 0 then kret l else dirlink ip [46, 46] (i_inum d))
            else kret 0) (\<lambda>l.
     if l < 0 then create_fail ip dp
     else kbind (dirlink dp name (i_inum k)) (\<lambda>l.
     if l < 0 then create_fail ip dp
     else
     kthen (kwhen (type = T_DIR) (kthen (set_nlink dp (\<lambda>n. n + 1)) (iupdate dp)))
     (kthen (iunlockput dp) (kret (Some ip))))))))))))))"

text \<open>kernel/fcntl.h\<close>

abbreviation (input) O_RDONLY :: u32 where "O_RDONLY \<equiv> 0"
abbreviation (input) O_WRONLY :: u32 where "O_WRONLY \<equiv> 1"
abbreviation (input) O_RDWR :: u32 where "O_RDWR \<equiv> 2"
abbreviation (input) O_CREATE :: u32 where "O_CREATE \<equiv> 0x200"
abbreviation (input) O_TRUNC :: u32 where "O_TRUNC \<equiv> 0x400"

text \<open>The locked inode sys_open goes on with.\<close>

definition open_inode :: "u8 list \<Rightarrow> u32 \<Rightarrow> nat option kernel" where
  "open_inode path omode =
     (if omode AND O_CREATE \<noteq> 0 then create path T_FILE 0 0
      else kbind (namei path) (\<lambda>r.
        case r of None \<Rightarrow> kret None
        | Some ip \<Rightarrow>
          kthen (ilock ip)
          (kbind (get_inode ip) (\<lambda>k.
           if i_type k = T_DIR \<and> omode \<noteq> O_RDONLY then kthen (iunlockput ip) (kret None)
           else kret (Some ip)))))"

definition sys_open :: "u64 kernel" where
  "sys_open =
     kbind (argint 1) (\<lambda>om.
     let omode = word_of_int om :: u32 in
     kbind (argstr 0 MAXPATH) (\<lambda>a0.
     case a0 of None \<Rightarrow> kret (- 1)
     | Some path \<Rightarrow>
     kthen begin_op
     (kbind (open_inode path omode) (\<lambda>r.
     case r of None \<Rightarrow> fail_op
     | Some ip \<Rightarrow>
     kbind (get_inode ip) (\<lambda>k.
     if i_type k = T_DEVICE \<and> (sint (i_major k) < 0 \<or> sint (i_major k) \<ge> NDEV)
     then kthen (iunlockput ip) fail_op
     else
     kbind filealloc (\<lambda>fo.
     case fo of None \<Rightarrow> kthen (iunlockput ip) fail_op
     | Some f \<Rightarrow>
     kbind (fdalloc f) (\<lambda>fdo.
     case fdo of None \<Rightarrow> kthen (fileclose f) (kthen (iunlockput ip) fail_op)
     | Some fd \<Rightarrow>
     kthen (if i_type k = T_DEVICE
            then set_file f (\<lambda>g. g\<lparr>f_type := FD_DEVICE, f_major := i_major k\<rparr>)
            else set_file f (\<lambda>g. g\<lparr>f_type := FD_INODE, f_off := 0\<rparr>))
     (kthen (set_file f (\<lambda>g. g\<lparr>f_ip := Some ip, f_readable := (omode AND O_WRONLY = 0),
        f_writable := (omode AND O_WRONLY \<noteq> 0 \<or> omode AND O_RDWR \<noteq> 0)\<rparr>))
     (kthen (kwhen (omode AND O_TRUNC \<noteq> 0 \<and> i_type k = T_FILE) (itrunc ip))
     (kthen (iunlock ip)
     (kthen end_op (kret (of_nat fd)))))))))))))"

definition sys_mkdir :: "u64 kernel" where
  "sys_mkdir =
     kthen begin_op
     (kbind (argstr 0 MAXPATH) (\<lambda>a0.
     case a0 of None \<Rightarrow> fail_op
     | Some path \<Rightarrow>
     kbind (create path T_DIR 0 0) (\<lambda>r.
     case r of None \<Rightarrow> fail_op
     | Some ip \<Rightarrow> kthen (iunlockput ip) (kthen end_op (kret 0)))))"

definition sys_mknod :: "u64 kernel" where
  "sys_mknod =
     kthen begin_op
     (kbind (argint 1) (\<lambda>major.
     kbind (argint 2) (\<lambda>minor.
     kbind (argstr 0 MAXPATH) (\<lambda>a0.
     case a0 of None \<Rightarrow> fail_op
     | Some path \<Rightarrow>
     kbind (create path T_DEVICE (word_of_int major) (word_of_int minor)) (\<lambda>r.
     case r of None \<Rightarrow> fail_op
     | Some ip \<Rightarrow> kthen (iunlockput ip) (kthen end_op (kret 0)))))))"

definition sys_chdir :: "u64 kernel" where
  "sys_chdir =
     kbind myproc (\<lambda>i.
     kthen begin_op
     (kbind (argstr 0 MAXPATH) (\<lambda>a0.
     case a0 of None \<Rightarrow> fail_op
     | Some path \<Rightarrow>
     kbind (namei path) (\<lambda>r.
     case r of None \<Rightarrow> fail_op
     | Some ip \<Rightarrow>
     kthen (ilock ip)
     (kbind (get_inode ip) (\<lambda>k.
     if i_type k \<noteq> T_DIR then kthen (iunlockput ip) fail_op
     else
     kthen (iunlock ip)
     (kbind (get_proc i) (\<lambda>p.
     kthen (iput (the (p_cwd p)))
     (kthen end_op
     (kthen (set_proc i (\<lambda>p. p\<lparr>p_cwd := Some ip\<rparr>))
     (kret 0)))))))))))"

definition sys_pipe :: "u64 kernel" where
  "sys_pipe =
     kbind (argaddr 0) (\<lambda>fdarray.
     kbind pipealloc (\<lambda>(r, rfo, wfo).
     if r < 0 then kret (- 1)
     else
     let rf = the rfo; wf = the wfo; close_both = kthen (fileclose rf) (kthen (fileclose wf) (kret (- 1))) in
     kbind (fdalloc rf) (\<lambda>fd0o.
     case fd0o of None \<Rightarrow> close_both
     | Some fd0 \<Rightarrow>
     kbind (fdalloc wf) (\<lambda>fd1o.
     case fd1o of None \<Rightarrow> kthen (set_ofile fd0 None) close_both
     | Some fd1 \<Rightarrow>
     kbind myproc (\<lambda>i.
     kbind (get_proc i) (\<lambda>p.
     kbind (copyout (p_pagetable p) (p_sz p) fdarray (le_bytes 4 (of_nat fd0 :: u32))) (\<lambda>c0.
     kbind (if c0 < 0 then kret c0
            else copyout (p_pagetable p) (p_sz p) (fdarray + 4) (le_bytes 4 (of_nat fd1 :: u32))) (\<lambda>c1.
     if c1 < 0 then kthen (set_ofile fd0 None) (kthen (set_ofile fd1 None) close_both)
     else kret 0))))))))"

end
