(* ===== verification/Xv6_Virtio.thy ===== *)
theory Xv6_Virtio
  imports Xv6_Bio
begin

text \<open>
  kernel/virtio_disk.c: the disk driver, on the descriptor table and the two rings it shares
  with the device. A disk operation submits a chain of three descriptors and sleeps; the device
  carries it out and adds it to the used ring; the interrupt handler wakes the process, which
  then frees the chain.
\<close>

section \<open>Descriptors\<close>

abbreviation (input) NUM :: nat where "NUM \<equiv> 8"

abbreviation (input) upd_vd :: "(vdisk \<Rightarrow> vdisk) \<Rightarrow> kstate \<Rightarrow> kstate" where
  "upd_vd f \<equiv> vdisk_update f"

definition alloc_desc :: "nat option kernel" where
  "alloc_desc =
     kbind (kgets (\<lambda>s. List.find (\<lambda>i. d_free (vdisk s) ! i) [0..<NUM])) (\<lambda>r.
     case r of None \<Rightarrow> kret None
     | Some i \<Rightarrow> kthen (kmodify (upd_vd (\<lambda>d. d\<lparr>d_free := (d_free d)[i := False]\<rparr>))) (kret (Some i)))"

definition free_desc :: "nat \<Rightarrow> unit kernel" where
  "free_desc i =
     kthen (kpanic_if (\<lambda>_. i \<ge> NUM) ''free_desc 1'')
     (kthen (kpanic_if (\<lambda>s. d_free (vdisk s) ! i) ''free_desc 2'')
     (kthen (kmodify (upd_vd (\<lambda>d. d\<lparr>
        d_desc := (d_desc d)[i := \<lparr>vd_addr = DNone, vd_len = 0, vd_flags = 0, vd_next = 0\<rparr>],
        d_free := (d_free d)[i := True]\<rparr>)))
     (wakeup (Some ChDiskFree))))"

abbreviation (input) VRING_DESC_F_NEXT :: u16 where "VRING_DESC_F_NEXT \<equiv> 1"
abbreviation (input) VRING_DESC_F_WRITE :: u16 where "VRING_DESC_F_WRITE \<equiv> 2"

text \<open>The loop of free_chain; a chain has at most NUM descriptors.\<close>

fun free_chain_loop :: "nat \<Rightarrow> nat \<Rightarrow> unit kernel" where
  "free_chain_loop 0 i = kret ()"
| "free_chain_loop (Suc n) i =
     kbind (kgets (\<lambda>s. d_desc (vdisk s) ! i)) (\<lambda>k.
     kthen (free_desc i)
     (if vd_flags k AND VRING_DESC_F_NEXT \<noteq> 0 then free_chain_loop n (unat (vd_next k)) else kret ()))"

definition free_chain :: "nat \<Rightarrow> unit kernel" where
  "free_chain i = free_chain_loop NUM i"

text \<open>The three indices, or \<open>None\<close> with nothing allocated.\<close>

definition alloc3_desc :: "(nat \<times> nat \<times> nat) option kernel" where
  "alloc3_desc =
     kbind alloc_desc (\<lambda>a.
     case a of None \<Rightarrow> kret None
     | Some i0 \<Rightarrow>
       kbind alloc_desc (\<lambda>b.
       case b of None \<Rightarrow> kthen (free_desc i0) (kret None)
       | Some i1 \<Rightarrow>
         kbind alloc_desc (\<lambda>c.
         case c of None \<Rightarrow> kthen (free_desc i0) (kthen (free_desc i1) (kret None))
         | Some i2 \<Rightarrow> kret (Some (i0, i1, i2)))))"

section \<open>Requests\<close>

text \<open>The three descriptors, the command header and the status byte of a request.\<close>

definition format_request :: "nat \<Rightarrow> bool \<Rightarrow> u64 \<Rightarrow> nat \<times> nat \<times> nat \<Rightarrow> vdisk \<Rightarrow> vdisk" where
  "format_request b write sector idx d =
     (case idx of (i0, i1, i2) \<Rightarrow>
      let desc0 = \<lparr>vd_addr = DOps i0, vd_len = 16, vd_flags = VRING_DESC_F_NEXT, vd_next = of_nat i1\<rparr>;
          desc1 = \<lparr>vd_addr = DData b, vd_len = 1024,
            vd_flags = (if write then 0 else VRING_DESC_F_WRITE) OR VRING_DESC_F_NEXT, vd_next = of_nat i2\<rparr>;
          desc2 = \<lparr>vd_addr = DStatus i0, vd_len = 1, vd_flags = VRING_DESC_F_WRITE, vd_next = 0\<rparr>
      in d\<lparr>d_ops := (d_ops d)[i0 := \<lparr>rq_type = (if write then 1 else 0), rq_reserved = 0, rq_sector = sector\<rparr>],
           d_desc := (d_desc d)[i0 := desc0, i1 := desc1, i2 := desc2],
           d_info_status := (d_info_status d)[i0 := 0xff]\<rparr>)"

text \<open>
  virtio_disk_rw up to its wait: the request goes to the avail ring, the device is notified
  (QUEUE_NOTIFY is register 0x50). The result is the head of the chain.
\<close>

definition virtio_submit :: "nat \<Rightarrow> bool \<Rightarrow> nat \<times> nat \<times> nat \<Rightarrow> unit kernel" where
  "virtio_submit b write idx =
     kbind (get_buf b) (\<lambda>k.
     kthen (kmodify (upd_vd (format_request b write (ucast (b_blockno k * 2)) idx)))
     (kthen (set_buf b (\<lambda>k. k\<lparr>b_disk := True\<rparr>))
     (kthen (kmodify (upd_vd (\<lambda>d. d\<lparr>d_info_b := (d_info_b d)[fst idx := Some b]\<rparr>)))
     (kthen (kmodify (upd_vd (\<lambda>d. d\<lparr>
        d_avail_ring := (d_avail_ring d)[unat (d_avail_idx d mod 8) := of_nat (fst idx)]\<rparr>)))
     (kthen (kmodify (upd_vd (\<lambda>d. d\<lparr>d_avail_idx := d_avail_idx d + 1\<rparr>)))
     (kmodify (upd_vd (\<lambda>d. d\<lparr>d_regs := (d_regs d)(0x50 := 0)\<rparr>))))))))"

text \<open>The wait for b->disk, one test at a time, and the end of virtio_disk_rw.\<close>

definition virtio_wait :: "nat \<Rightarrow> nat \<Rightarrow> unit kernel" where
  "virtio_wait b i0 =
     kbind (get_buf b) (\<lambda>k.
     if b_disk k then kthen (sleep_prepare (Some (ChBuf b))) sleep
     else kthen (kmodify (upd_vd (\<lambda>d. d\<lparr>d_info_b := (d_info_b d)[i0 := None]\<rparr>)))
          (free_chain i0))"

definition virtio_disk_rw :: "nat \<Rightarrow> bool \<Rightarrow> unit kernel" where
  "virtio_disk_rw b write =
     kbind alloc3_desc (\<lambda>r.
     case r of None \<Rightarrow> kthen (sleep_prepare (Some ChDiskFree)) sleep
     | Some idx \<Rightarrow> kthen (virtio_submit b write idx) (virtio_wait b (fst idx)))"

text \<open>
  The interrupt handler: INTERRUPT_STATUS is register 0x60, INTERRUPT_ACK 0x64. The loop of at
  most 2^16 rounds, the range of the ring indices.
\<close>

fun virtio_intr_loop :: "nat \<Rightarrow> unit kernel" where
  "virtio_intr_loop 0 = kret ()"
| "virtio_intr_loop (Suc n) =
     kbind (kgets vdisk) (\<lambda>d.
     if d_last_used d = d_used_idx d then kret ()
     else
       let id = unat (d_used_ring d ! unat (d_last_used d mod 8)) in
       if d_info_status d ! id \<noteq> 0 then kpanic ''virtio_disk_intr status''
       else
         let b = the (d_info_b d ! id) in
         kthen (set_buf b (\<lambda>k. k\<lparr>b_disk := False\<rparr>))
         (kthen (wakeup (Some (ChBuf b)))
         (kthen (kmodify (upd_vd (\<lambda>d. d\<lparr>d_last_used := d_last_used d + 1\<rparr>)))
         (virtio_intr_loop n))))"

definition virtio_disk_intr :: "unit kernel" where
  "virtio_disk_intr =
     kthen (kmodify (upd_vd (\<lambda>d. d\<lparr>d_regs := (d_regs d)(0x64 := d_regs d 0x60 AND 3)\<rparr>)))
     (kbind (kgets vdisk) (\<lambda>d. virtio_intr_loop (unat (d_used_idx d - d_last_used d))))"

section \<open>Initialisation\<close>

definition vreg :: "nat \<Rightarrow> u32 kernel" where
  "vreg r = kgets (\<lambda>s. d_regs (vdisk s) r)"

definition set_vreg :: "nat \<Rightarrow> u32 \<Rightarrow> unit kernel" where
  "set_vreg r v = kmodify (upd_vd (\<lambda>d. d\<lparr>d_regs := (d_regs d)(r := v)\<rparr>))"

text \<open>The feature bits RO, SCSI, FLUSH, CONFIG_WCE, MQ, ANY_LAYOUT, EVENT_IDX, INDIRECT_DESC.\<close>

definition accepted_features :: "u32 \<Rightarrow> u32" where
  "accepted_features f = fold (\<lambda>n f. f AND NOT (push_bit n 1)) [5, 7, 9, 11, 12, 27, 29, 28] f"

definition virtio_disk_init :: "unit kernel" where
  "virtio_disk_init =
     kthen (kpanic_if (\<lambda>s. d_regs (vdisk s) 0x000 \<noteq> 0x74726976 \<or> d_regs (vdisk s) 0x004 \<noteq> 2 \<or>
       d_regs (vdisk s) 0x008 \<noteq> 2 \<or> d_regs (vdisk s) 0x00c \<noteq> 0x554d4551) ''could not find virtio disk'')
     (kthen (set_vreg 0x070 0)
     (kthen (set_vreg 0x070 1)
     (kthen (set_vreg 0x070 3)
     (kbind (vreg 0x010) (\<lambda>features.
     kthen (set_vreg 0x020 (accepted_features features))
     (kthen (set_vreg 0x070 11)
     (kbind (vreg 0x070) (\<lambda>status.
     kthen (kpanic_if (\<lambda>_. status AND 8 = 0) ''virtio disk FEATURES_OK unset'')
     (kthen (set_vreg 0x030 0)
     (kthen (kpanic_if (\<lambda>s. d_regs (vdisk s) 0x044 \<noteq> 0) ''virtio disk should not be ready'')
     (kthen (kpanic_if (\<lambda>s. d_regs (vdisk s) 0x034 = 0) ''virtio disk has no queue 0'')
     (kthen (kpanic_if (\<lambda>s. d_regs (vdisk s) 0x034 < 8) ''virtio disk max queue too short'')
     (kbind kalloc (\<lambda>desc.
     kbind kalloc (\<lambda>avail.
     kbind kalloc (\<lambda>used.
     kthen (kpanic_if (\<lambda>_. desc = 0 \<or> avail = 0 \<or> used = 0) ''virtio disk kalloc'')
     (kthen (kmodify (\<lambda>s. s\<lparr>mem := memset (memset (memset (mem s) desc 0 4096) avail 0 4096) used 0 4096\<rparr>))
     (kthen (kmodify (upd_vd (\<lambda>d. d\<lparr>
        d_desc := replicate NUM \<lparr>vd_addr = DNone, vd_len = 0, vd_flags = 0, vd_next = 0\<rparr>,
        d_avail_idx := 0, d_avail_ring := replicate NUM 0,
        d_used_idx := 0, d_used_ring := replicate NUM 0\<rparr>)))
     (kthen (set_vreg 0x038 8)
     (kthen (set_vreg 0x080 (ucast desc))
     (kthen (set_vreg 0x084 (ucast (drop_bit 32 desc)))
     (kthen (set_vreg 0x090 (ucast avail))
     (kthen (set_vreg 0x094 (ucast (drop_bit 32 avail)))
     (kthen (set_vreg 0x0a0 (ucast used))
     (kthen (set_vreg 0x0a4 (ucast (drop_bit 32 used)))
     (kthen (set_vreg 0x044 1)
     (kthen (kmodify (upd_vd (\<lambda>d. d\<lparr>d_free := replicate NUM True\<rparr>)))
     (set_vreg 0x070 (status OR 4)))))))))))))))))))))))))))))"

section \<open>The device\<close>

text \<open>
  The device, as the virtio specification describes a block device: it takes the next chain of
  the avail ring, follows its three descriptors, transfers the block, stores status 0 and
  appends the head of the chain to the used ring. A block is two sectors.
\<close>

definition device_step :: "kstate \<Rightarrow> kstate" where
  "device_step s =
     (let d = vdisk s;
          i0 = unat (d_avail_ring d ! unat (d_seen d mod 8));
          desc0 = d_desc d ! i0; desc1 = d_desc d ! unat (vd_next desc0);
          desc2 = d_desc d ! unat (vd_next desc1) in
      case (vd_addr desc0, vd_addr desc1, vd_addr desc2) of
        (DOps r, DData b, DStatus t) \<Rightarrow>
          let req = d_ops d ! r; blk = ucast (rq_sector req div 2) :: u32; data = b_data (bufs s ! b);
              s1 = (if rq_type req = 1
                    then s\<lparr>disk := (disk s)(blk := data), disk_writes := (blk, data) # disk_writes s\<rparr>
                    else upd_buf b (\<lambda>k. k\<lparr>b_data := disk s blk\<rparr>) s)
          in s1\<lparr>vdisk := d\<lparr>d_info_status := (d_info_status d)[t := 0],
               d_used_ring := (d_used_ring d)[unat (d_used_idx d mod 8) := of_nat i0],
               d_used_idx := d_used_idx d + 1, d_seen := d_seen d + 1\<rparr>\<rparr>
      | _ \<Rightarrow> s)"

end
