(* ===== verification/Xv6_Process.thy ===== *)
theory Xv6_Process
  imports Xv6_Sysfile Xv6_Virtio
begin

text \<open>
  kernel/exec.c, sys_exec of kernel/sysfile.c, and the parts of kernel/proc.c that use the file
  system: userinit, kfork, kexit.
\<close>

section \<open>ELF files\<close>

text \<open>The fields of kernel/elf.h that kexec reads; struct elfhdr has 64 bytes, struct proghdr 56.\<close>

record elfhdr =
  elf_magic :: u32
  elf_entry :: u64
  elf_phoff :: u64
  elf_phnum :: u16

record proghdr =
  ph_type :: u32
  ph_flags :: u32
  ph_off :: u64
  ph_vaddr :: u64
  ph_filesz :: u64
  ph_memsz :: u64

definition decode_elfhdr :: "u8 list \<Rightarrow> elfhdr" where
  "decode_elfhdr bs = \<lparr>elf_magic = get32 bs 0, elf_entry = get64 bs 24, elf_phoff = get64 bs 32,
     elf_phnum = get16 bs 56\<rparr>"

definition decode_proghdr :: "u8 list \<Rightarrow> proghdr" where
  "decode_proghdr bs = \<lparr>ph_type = get32 bs 0, ph_flags = get32 bs 4, ph_off = get64 bs 8,
     ph_vaddr = get64 bs 16, ph_filesz = get64 bs 32, ph_memsz = get64 bs 40\<rparr>"

abbreviation (input) ELF_MAGIC :: u32 where "ELF_MAGIC \<equiv> 0x464C457F"
abbreviation (input) ELF_PROG_LOAD :: u32 where "ELF_PROG_LOAD \<equiv> 1"

definition flags2perm :: "u32 \<Rightarrow> u64" where
  "flags2perm flags =
     (if flags AND 1 \<noteq> 0 then PTE_X else 0) OR (if flags AND 2 \<noteq> 0 then PTE_W else 0)"

text \<open>The loop of loadseg, over the page offsets below sz.\<close>

fun loadseg_loop :: "nat list \<Rightarrow> u64 \<Rightarrow> u64 \<Rightarrow> nat \<Rightarrow> u32 \<Rightarrow> u32 \<Rightarrow> int kernel" where
  "loadseg_loop [] pagetable va ip offset sz = kret 0"
| "loadseg_loop (i # is) pagetable va ip offset sz =
     kbind (walkaddr pagetable (va + of_nat i)) (\<lambda>pa.
     if pa = 0 then kpanic ''loadseg: address should exist''
     else
       let n = (if sz - of_nat i < 4096 then sz - of_nat i else 4096) in
       kbind (readi ip (Kern pa) (offset + of_nat i) n) (\<lambda>(r, _).
       if r \<noteq> n then kret (- 1) else loadseg_loop is pagetable va ip offset sz))"

definition loadseg :: "u64 \<Rightarrow> u64 \<Rightarrow> nat \<Rightarrow> u32 \<Rightarrow> u32 \<Rightarrow> int kernel" where
  "loadseg pagetable va ip offset sz =
     loadseg_loop (map (\<lambda>k. 4096 * k) [0..<(unat sz + 4095) div 4096]) pagetable va ip offset sz"

text \<open>
  The loop over the program headers, \<open>m\<close> of them left. The result says whether it went through,
  and the size of the image so far.
\<close>

fun load_segments :: "nat \<Rightarrow> u32 \<Rightarrow> u64 \<Rightarrow> nat \<Rightarrow> u64 \<Rightarrow> (bool \<times> u64) kernel" where
  "load_segments 0 off pagetable ip sz = kret (True, sz)"
| "load_segments (Suc m) off pagetable ip sz =
     kbind (readi ip (Var []) off 56) (\<lambda>(r, bs).
     if r \<noteq> 56 then kret (False, sz)
     else
       let ph = decode_proghdr bs in
       if ph_type ph \<noteq> ELF_PROG_LOAD then load_segments m (off + 56) pagetable ip sz
       else if ph_memsz ph < ph_filesz ph then kret (False, sz)
       else if ph_vaddr ph + ph_memsz ph < ph_vaddr ph then kret (False, sz)
       else if ph_vaddr ph mod PGSIZE \<noteq> 0 then kret (False, sz)
       else
         kbind (uvmalloc pagetable sz (ph_vaddr ph + ph_memsz ph) (flags2perm (ph_flags ph))) (\<lambda>sz1.
         if sz1 = 0 then kret (False, sz)
         else
           kbind (loadseg pagetable (ph_vaddr ph) ip (ucast (ph_off ph)) (ucast (ph_filesz ph))) (\<lambda>l.
           if l < 0 then kret (False, sz1)
           else load_segments m (off + 56) pagetable ip sz1)))"

section \<open>exec\<close>

text \<open>sp -= n; sp -= sp % 16;\<close>

definition push_down :: "u64 \<Rightarrow> u64 \<Rightarrow> u64" where
  "push_down sp n = (let sp = sp - n in sp - sp mod 16)"

text \<open>The loop that copies the argument strings; the result is sp and ustack, if it went through.\<close>

fun push_args :: "u8 list list \<Rightarrow> u64 \<Rightarrow> u64 \<Rightarrow> u64 \<Rightarrow> u64 \<Rightarrow> (u64 \<times> u64 list) option kernel" where
  "push_args [] pagetable sz stackbase sp = kret (Some (sp, []))"
| "push_args (arg # args) pagetable sz stackbase sp =
     (let sp = push_down sp (of_nat (length arg + 1)) in
      if sp < stackbase then kret None
      else kbind (copyout pagetable sz sp (arg @ [0])) (\<lambda>r.
        if r < 0 then kret None
        else kbind (push_args args pagetable sz stackbase sp) (\<lambda>o1.
          kret (map_option (\<lambda>(sp', us). (sp', sp # us)) o1))))"

text \<open>for (last = s = path; *s; s++) if (*s == '/') last = s + 1;\<close>

fun last_elem :: "u8 list \<Rightarrow> u8 list \<Rightarrow> u8 list" where
  "last_elem lst [] = lst"
| "last_elem lst (c # cs) = last_elem (if c = slash then cs else lst) cs"

text \<open>safestrcpy(p->name, src, sizeof(p->name)), with a name of 16 bytes.\<close>

definition set_name :: "u8 list \<Rightarrow> u8 list \<Rightarrow> u8 list" where
  "set_name src old = splice 0 (take 15 (takeWhile (\<lambda>c. c \<noteq> 0) src) @ [0]) old"

text \<open>The label bad, after the executable file is closed and before.\<close>

definition exec_bad :: "u64 \<Rightarrow> u64 \<Rightarrow> int kernel" where
  "exec_bad pagetable sz =
     kthen (kwhen (pagetable \<noteq> 0) (proc_freepagetable pagetable sz)) (kret (- 1))"

definition exec_bad_open :: "nat \<Rightarrow> u64 \<Rightarrow> u64 \<Rightarrow> int kernel" where
  "exec_bad_open ip pagetable sz =
     kthen (kwhen (pagetable \<noteq> 0) (proc_freepagetable pagetable sz))
     (kthen (iunlockput ip) (kthen end_op (kret (- 1))))"

text \<open>kexec from the point where the program is loaded: the stack, the arguments, the switch.\<close>

definition exec_commit :: "u8 list \<Rightarrow> u8 list list \<Rightarrow> elfhdr \<Rightarrow> u64 \<Rightarrow> u64 \<Rightarrow> int kernel" where
  "exec_commit path argv elf pagetable sz0 =
     kbind myproc (\<lambda>i.
     kbind (get_proc i) (\<lambda>p.
     let oldsz = p_sz p; sz = PGROUNDUP sz0 in
     kbind (uvmalloc pagetable sz (sz + 2 * PGSIZE) PTE_W) (\<lambda>sz1.
     if sz1 = 0 then exec_bad pagetable sz
     else
     kthen (uvmclear pagetable (sz1 - 2 * PGSIZE))
     (let sp0 = sz1; stackbase = sp0 - PGSIZE; argc = length argv in
     kbind (push_args argv pagetable sz1 stackbase sp0) (\<lambda>pushed.
     case pushed of None \<Rightarrow> exec_bad pagetable sz1
     | Some (sp1, ustack) \<Rightarrow>
     let sp = push_down sp1 (of_nat (argc + 1) * 8) in
     if sp < stackbase then exec_bad pagetable sz1
     else
     kbind (copyout pagetable sz1 sp (concat (map (le_bytes 8) (ustack @ [0])))) (\<lambda>r.
     if r < 0 then exec_bad pagetable sz1
     else
     kthen (set_trapframe i (\<lambda>t. t\<lparr>tf_a1 := sp\<rparr>))
     (kthen (set_proc i (\<lambda>p. p\<lparr>p_name := set_name (last_elem path path) (p_name p)\<rparr>))
     (kthen (set_proc i (\<lambda>p. p\<lparr>p_pagetable := pagetable, p_sz := sz1\<rparr>))
     (kthen (set_trapframe i (\<lambda>t. t\<lparr>tf_epc := elf_entry elf, tf_sp := sp\<rparr>))
     (kthen (proc_freepagetable (p_pagetable p) oldsz)
     (kret (int argc)))))))))))) "

definition kexec :: "u8 list \<Rightarrow> u8 list list \<Rightarrow> int kernel" where
  "kexec path argv =
     kthen begin_op
     (kbind (namei path) (\<lambda>r.
     case r of None \<Rightarrow> kthen end_op (kret (- 1))
     | Some ip \<Rightarrow>
     kthen (ilock ip)
     (kbind (readi ip (Var []) 0 64) (\<lambda>(r, bs).
     if r \<noteq> 64 then exec_bad_open ip 0 0
     else
     let elf = decode_elfhdr bs in
     if elf_magic elf \<noteq> ELF_MAGIC then exec_bad_open ip 0 0
     else
     kbind myproc (\<lambda>i.
     kbind (proc_pagetable i) (\<lambda>pagetable.
     if pagetable = 0 then exec_bad_open ip 0 0
     else
     kbind (load_segments (unat (elf_phnum elf)) (ucast (elf_phoff elf)) pagetable ip 0) (\<lambda>(ok, sz).
     if \<not> ok then exec_bad_open ip pagetable sz
     else
     kthen (iunlockput ip)
     (kthen end_op
     (exec_commit path argv elf pagetable sz)))))))))"

text \<open>
  The loop of sys_exec that fetches the arguments, with \<open>m\<close> slots of argv left: whether it went
  through, and the pages with the strings fetched into them. A page whose string could not be
  fetched holds no string.
\<close>

fun fetch_args :: "nat \<Rightarrow> nat \<Rightarrow> u64 \<Rightarrow> (bool \<times> (u64 \<times> u8 list) list) kernel" where
  "fetch_args 0 i uargv = kret (False, [])"
| "fetch_args (Suc m) i uargv =
     kbind (fetchaddr (uargv + 8 * of_nat i)) (\<lambda>a.
     case a of None \<Rightarrow> kret (False, [])
     | Some uarg \<Rightarrow>
       if uarg = 0 then kret (True, [])
       else
         kbind kalloc (\<lambda>page.
         if page = 0 then kret (False, [])
         else
           kbind (fetchstr uarg 4096) (\<lambda>so.
           case so of None \<Rightarrow> kret (False, [(page, [])])
           | Some str \<Rightarrow>
             kthen (kmodify (\<lambda>s. s\<lparr>mem := mem_write (mem s) page (str @ [0])\<rparr>))
             (kbind (fetch_args m (Suc i) uargv) (\<lambda>(ok, rest).
              kret (ok, (page, str) # rest))))))"

definition sys_exec :: "u64 kernel" where
  "sys_exec =
     kbind (argaddr 1) (\<lambda>uargv.
     kbind (argstr 0 MAXPATH) (\<lambda>a0.
     case a0 of None \<Rightarrow> kret (- 1)
     | Some path \<Rightarrow>
     kbind (fetch_args MAXARG 0 uargv) (\<lambda>(ok, pages).
     if ok
     then kbind (kexec path (map snd pages)) (\<lambda>ret.
       kthen (kfor (map fst pages) kfree) (kret (sysret ret)))
     else kthen (kfor (map fst pages) kfree) (kret (- 1)))))"

section \<open>fork and exit\<close>

text \<open>A failure of allocproc here would be a fault on a null pointer.\<close>

definition userinit :: "unit kernel" where
  "userinit =
     kbind allocproc (\<lambda>r.
     case r of None \<Rightarrow> kpanic ''kerneltrap''
     | Some i \<Rightarrow>
       kthen (kmodify (\<lambda>s. s\<lparr>initproc := Some i\<rparr>))
       (kbind (namei [slash]) (\<lambda>cwd.
        set_proc i (\<lambda>p. p\<lparr>p_cwd := cwd, p_state := RUNNABLE\<rparr>))))"

definition dup_file :: "nat \<Rightarrow> nat \<Rightarrow> nat \<Rightarrow> unit kernel" where
  "dup_file i np fd =
     kbind (get_proc i) (\<lambda>p.
     case p_ofile p ! fd of None \<Rightarrow> kret ()
     | Some f \<Rightarrow> kbind (filedup f) (\<lambda>f'. set_proc np (\<lambda>q. q\<lparr>p_ofile := (p_ofile q)[fd := Some f']\<rparr>)))"

definition kfork :: "int kernel" where
  "kfork =
     kbind myproc (\<lambda>i.
     kbind allocproc (\<lambda>r.
     case r of None \<Rightarrow> kret (- 1)
     | Some np \<Rightarrow>
       kbind (get_proc i) (\<lambda>p.
       kbind (get_proc np) (\<lambda>q.
       kbind (uvmcopy (p_pagetable p) (p_pagetable q) (p_sz p)) (\<lambda>c.
       if c < 0 then kthen (freeproc np) (kret (- 1))
       else
         kthen (set_proc np (\<lambda>q. q\<lparr>p_sz := p_sz p\<rparr>))
         (kbind (get_trapframe i) (\<lambda>tf.
         kthen (set_trapframe np (\<lambda>_. tf\<lparr>tf_a0 := 0\<rparr>))
         (kthen (kfor [0..<NOFILE] (dup_file i np))
         (kbind (idup (the (p_cwd p))) (\<lambda>cwd.
         kthen (set_proc np (\<lambda>q. q\<lparr>p_cwd := Some cwd, p_name := set_name (p_name p) (p_name q)\<rparr>))
         (kthen (set_proc np (\<lambda>q. q\<lparr>p_parent := Some i\<rparr>))
         (kthen (set_proc np (\<lambda>q. q\<lparr>p_state := RUNNABLE\<rparr>))
         (kret (p_pid q))))))))))))))"

definition close_fd :: "nat \<Rightarrow> nat \<Rightarrow> unit kernel" where
  "close_fd i fd =
     kbind (get_proc i) (\<lambda>p.
     case p_ofile p ! fd of None \<Rightarrow> kret ()
     | Some f \<Rightarrow> kthen (fileclose f) (set_proc i (\<lambda>p. p\<lparr>p_ofile := (p_ofile p)[fd := None]\<rparr>)))"

text \<open>kexit never returns: it ends in the scheduler.\<close>

definition kexit :: "int \<Rightarrow> 'a kernel" where
  "kexit status =
     kbind myproc (\<lambda>i.
     kthen (kpanic_if (\<lambda>s. initproc s = Some i) ''init exiting'')
     (kthen (kfor [0..<NOFILE] (close_fd i))
     (kthen begin_op
     (kbind (get_proc i) (\<lambda>p.
     kthen (iput (the (p_cwd p)))
     (kthen end_op
     (kthen (set_proc i (\<lambda>p. p\<lparr>p_cwd := None\<rparr>))
     (kthen (reparent i)
     (kbind (get_proc i) (\<lambda>p.
     kthen (wakeup (map_option ChProc (p_parent p)))
     (kthen (set_proc i (\<lambda>p. p\<lparr>p_xstate := status, p_state := ZOMBIE\<rparr>))
     (kthen (sched :: unit kernel) (kpanic ''zombie exit''))))))))))))) "

end
