(* ===== verification/Xv6_Trap.thy ===== *)
theory Xv6_Trap
  imports Xv6_Process
begin

text \<open>
  kernel/sysproc.c, the dispatcher of kernel/syscall.c, kernel/trap.c, kernel/plic.c, forkret of
  kernel/proc.c, and kernel/main.c: from a trap to the system call it asks for and back to user
  space.
\<close>

section \<open>Process system calls\<close>

definition sys_exit :: "u64 kernel" where
  "sys_exit = kbind (argint 0) (\<lambda>n. kexit n)"

definition sys_getpid :: "u64 kernel" where
  "sys_getpid = kbind myproc (\<lambda>i. kbind (get_proc i) (\<lambda>p. kret (sysret (p_pid p))))"

definition sys_fork :: "u64 kernel" where
  "sys_fork = kbind kfork (\<lambda>r. kret (sysret r))"

definition sys_wait :: "u64 kernel" where
  "sys_wait = kbind (argaddr 0) (\<lambda>p. kbind (kwait p) (\<lambda>r. kret (sysret r)))"

text \<open>SBRK_EAGER is 1.\<close>

definition sys_sbrk :: "u64 kernel" where
  "sys_sbrk =
     kbind (argint 0) (\<lambda>n.
     kbind (argint 1) (\<lambda>t.
     kbind myproc (\<lambda>i.
     kbind (get_proc i) (\<lambda>p.
     let addr = p_sz p in
     if t = 1 \<or> n < 0
     then kbind (growproc n) (\<lambda>r. kret (if r < 0 then - 1 else addr))
     else if addr + word_of_int n < addr then kret (- 1)
     else if addr + word_of_int n > TRAPFRAME then kret (- 1)
     else kthen (set_proc i (\<lambda>p. p\<lparr>p_sz := p_sz p + word_of_int n\<rparr>)) (kret addr)))))"

text \<open>One test of the loop of sys_pause, run again each time the process is woken.\<close>

definition pause_wait :: "u32 \<Rightarrow> u32 \<Rightarrow> u64 kernel" where
  "pause_wait ticks0 n =
     kbind (kgets ticks) (\<lambda>tk.
     if tk - ticks0 < n
     then kbind myproc (\<lambda>i.
       kbind (killed i) (\<lambda>kd.
       if kd then kret (- 1)
       else kthen (sleep_prepare (Some ChTicks)) (kthen sleep (kret 0))))
     else kret 0)"

definition sys_pause :: "u64 kernel" where
  "sys_pause =
     kbind (argint 0) (\<lambda>n.
     kbind (kgets ticks) (\<lambda>ticks0.
     pause_wait ticks0 (word_of_int (if n < 0 then 0 else n))))"

definition sys_kill :: "u64 kernel" where
  "sys_kill = kbind (argint 0) (\<lambda>pid. kbind (kkill pid) (\<lambda>r. kret (sysret r)))"

definition sys_uptime :: "u64 kernel" where
  "sys_uptime = kbind (kgets ticks) (\<lambda>tk. kret (ucast tk))"

section \<open>System calls\<close>

text \<open>The table of kernel/syscall.c, with the numbers of kernel/syscall.h.\<close>

definition syscalls :: "int \<Rightarrow> u64 kernel option" where
  "syscalls num =
     map_of [(1, sys_fork), (2, sys_exit), (3, sys_wait), (4, sys_pipe), (5, sys_read),
       (6, sys_kill), (7, sys_exec), (8, sys_fstat), (9, sys_chdir), (10, sys_dup),
       (11, sys_getpid), (12, sys_sbrk), (13, sys_pause), (14, sys_uptime), (15, sys_open),
       (16, sys_write), (17, sys_mknod), (18, sys_unlink), (19, sys_link), (20, sys_mkdir),
       (21, sys_close), (22, sys_sync)] num"

definition syscall :: "unit kernel" where
  "syscall =
     kbind myproc (\<lambda>i.
     kbind (get_trapframe i) (\<lambda>tf.
     let num = sint (ucast (tf_a7 tf) :: u32) in
     case syscalls num of
       Some f \<Rightarrow> kbind f (\<lambda>r. set_trapframe i (\<lambda>t. t\<lparr>tf_a0 := r\<rparr>))
     | None \<Rightarrow>
         kbind (get_proc i) (\<lambda>p.
         kthen (printk (''%d %s: unknown sys call %d'' @ [newline])
           [Num (word_of_int (p_pid p)), Str (Some (c_string (p_name p))), Num (word_of_int num)])
         (set_trapframe i (\<lambda>t. t\<lparr>tf_a0 := - 1\<rparr>)))))"

section \<open>The interrupt controller\<close>

definition cpuid :: "u64 kernel" where
  "cpuid = kgets (\<lambda>s. tp (csrs s))"

definition plic_store :: "u64 \<Rightarrow> u32 \<Rightarrow> unit kernel" where
  "plic_store a v = kmodify (\<lambda>s. s\<lparr>plic := (plic s)(a := v)\<rparr>)"

text \<open>UART0_IRQ is 10 and VIRTIO0_IRQ is 1.\<close>

definition plicinit :: "unit kernel" where
  "plicinit = kthen (plic_store (PLIC + 10 * 4) 1) (plic_store (PLIC + 1 * 4) 1)"

definition PLIC_SENABLE :: "u64 \<Rightarrow> u64" where
  "PLIC_SENABLE hart = PLIC + 0x2080 + hart * 0x100"

definition PLIC_SPRIORITY :: "u64 \<Rightarrow> u64" where
  "PLIC_SPRIORITY hart = PLIC + 0x201000 + hart * 0x2000"

definition PLIC_SCLAIM :: "u64 \<Rightarrow> u64" where
  "PLIC_SCLAIM hart = PLIC + 0x201004 + hart * 0x2000"

definition plicinithart :: "unit kernel" where
  "plicinithart =
     kbind cpuid (\<lambda>hart.
     kthen (plic_store (PLIC_SENABLE hart) (push_bit 10 1 OR push_bit 1 1))
     (plic_store (PLIC_SPRIORITY hart) 0))"

definition plic_claim :: "int kernel" where
  "plic_claim = kbind cpuid (\<lambda>hart. kgets (\<lambda>s. sint (plic s (PLIC_SCLAIM hart))))"

definition plic_complete :: "int \<Rightarrow> unit kernel" where
  "plic_complete irq = kbind cpuid (\<lambda>hart. plic_store (PLIC_SCLAIM hart) (word_of_int irq))"

section \<open>Traps\<close>

abbreviation (input) SSTATUS_SPP :: u64 where "SSTATUS_SPP \<equiv> 0x100"
abbreviation (input) SSTATUS_SPIE :: u64 where "SSTATUS_SPIE \<equiv> 0x20"
abbreviation (input) SSTATUS_SIE :: u64 where "SSTATUS_SIE \<equiv> 2"

definition MAKE_SATP :: "u64 \<Rightarrow> u64" where
  "MAKE_SATP pagetable = push_bit 60 8 OR drop_bit 12 pagetable"

definition set_csr :: "(csr \<Rightarrow> csr) \<Rightarrow> unit kernel" where
  "set_csr f = kmodify (\<lambda>s. s\<lparr>csrs := f (csrs s)\<rparr>)"

definition intr_on :: "unit kernel" where
  "intr_on = set_csr (\<lambda>c. c\<lparr>sstatus := sstatus c OR SSTATUS_SIE\<rparr>)"

definition intr_off :: "unit kernel" where
  "intr_off = set_csr (\<lambda>c. c\<lparr>sstatus := sstatus c AND NOT SSTATUS_SIE\<rparr>)"

definition trapinithart :: "unit kernel" where
  "trapinithart = kbind (kgets kernelvec_addr) (\<lambda>v. set_csr (\<lambda>c. c\<lparr>stvec := v\<rparr>))"

definition clockintr :: "unit kernel" where
  "clockintr =
     kbind cpuid (\<lambda>hart.
     kthen (kwhen (hart = 0)
       (kthen (kmodify (\<lambda>s. s\<lparr>ticks := ticks s + 1\<rparr>)) (wakeup (Some ChTicks))))
     (set_csr (\<lambda>c. c\<lparr>stimecmp := mtime c + 1000000\<rparr>)))"

definition devintr :: "int kernel" where
  "devintr =
     kbind (kgets (\<lambda>s. scause (csrs s))) (\<lambda>cause.
     if cause = 0x8000000000000009 then
       kbind plic_claim (\<lambda>irq.
       kthen (if irq = 10 then uartintr
              else if irq = 1 then virtio_disk_intr
              else if irq \<noteq> 0
              then printk (''unexpected interrupt irq=%d'' @ [newline]) [Num (word_of_int irq)]
              else kret ())
       (kthen (kwhen (irq \<noteq> 0) (plic_complete irq))
       (kret 1)))
     else if cause = 0x8000000000000005 then kthen clockintr (kret 2)
     else kret 0)"

definition prepare_return :: "unit kernel" where
  "prepare_return =
     kbind myproc (\<lambda>i.
     kthen intr_off
     (kthen (kbind (kgets (\<lambda>s. TRAMPOLINE + (uservec_addr s - trampoline s)))
        (\<lambda>v. set_csr (\<lambda>c. c\<lparr>stvec := v\<rparr>)))
     (kbind (get_proc i) (\<lambda>p.
     kbind (kgets (\<lambda>s. (csrs s, usertrap_addr s))) (\<lambda>(c, ut).
     kthen (set_trapframe i (\<lambda>t. t\<lparr>kernel_satp := satp c, kernel_sp := p_kstack p + PGSIZE,
        kernel_trap := ut, kernel_hartid := tp c\<rparr>))
     (kthen (set_csr (\<lambda>c. c\<lparr>sstatus := (sstatus c AND NOT SSTATUS_SPP) OR SSTATUS_SPIE\<rparr>))
     (kbind (get_trapframe i) (\<lambda>tf. set_csr (\<lambda>c. c\<lparr>sepc := tf_epc tf\<rparr>)))))))))"

text \<open>
  The branches of usertrap on the cause; the result is which_dev. vmfault's argument that tells
  reads from writes is not used by its code.
\<close>

definition usertrap_cause :: "nat \<Rightarrow> int kernel" where
  "usertrap_cause i =
     kbind (kgets csrs) (\<lambda>c.
     if scause c = 8 then
       kbind (killed i) (\<lambda>kd.
       if kd then kexit (- 1)
       else kthen (set_trapframe i (\<lambda>t. t\<lparr>tf_epc := tf_epc t + 4\<rparr>))
            (kthen intr_on (kthen syscall (kret 0))))
     else kbind devintr (\<lambda>which_dev.
       if which_dev \<noteq> 0 then kret which_dev
       else kbind (get_proc i) (\<lambda>p.
         kbind (if scause c = 15 \<or> scause c = 13
                then vmfault (p_pagetable p) (p_sz p) (stval c) else kret 0) (\<lambda>pa.
         if pa \<noteq> 0 then kret 0
         else kthen (printk (''usertrap(): unexpected scause 0x%lx pid=%d'' @ [newline])
                [Num (scause c), Num (word_of_int (p_pid p))])
              (kthen (printk (''            sepc=0x%lx stval=0x%lx'' @ [newline]) [Num (sepc c), Num (stval c)])
              (kthen (setkilled i) (kret 0)))))))"

definition usertrap :: "u64 kernel" where
  "usertrap =
     kthen (kpanic_if (\<lambda>s. sstatus (csrs s) AND SSTATUS_SPP \<noteq> 0) ''usertrap: not from user mode'')
     (kthen (kbind (kgets kernelvec_addr) (\<lambda>v. set_csr (\<lambda>c. c\<lparr>stvec := v\<rparr>)))
     (kbind myproc (\<lambda>i.
     kbind (kgets csrs) (\<lambda>c.
     kthen (set_trapframe i (\<lambda>t. t\<lparr>tf_epc := sepc c\<rparr>))
     (kbind (usertrap_cause i) (\<lambda>which_dev.
     kbind (killed i) (\<lambda>kd.
     if kd then kexit (- 1)
     else
     kthen (kwhen (which_dev = 2) yield)
     (kthen prepare_return
     (kbind (get_proc i) (\<lambda>p.
     kret (MAKE_SATP (p_pagetable p))))))))))))"

text \<open>myproc() is not null when \<open>running\<close>.\<close>

definition kerneltrap :: "bool \<Rightarrow> unit kernel" where
  "kerneltrap running =
     kbind (kgets csrs) (\<lambda>c.
     kthen (kpanic_if (\<lambda>_. sstatus c AND SSTATUS_SPP = 0) ''kerneltrap: not from supervisor mode'')
     (kthen (kpanic_if (\<lambda>_. sstatus c AND SSTATUS_SIE \<noteq> 0) ''kerneltrap: interrupts enabled'')
     (kbind devintr (\<lambda>which_dev.
     kthen (kwhen (which_dev = 0)
       (kthen (printk (''scause=0x%lx sepc=0x%lx stval=0x%lx'' @ [newline])
          [Num (scause c), Num (sepc c), Num (stval c)])
        (kpanic ''kerneltrap'')))
     (kthen (kwhen (which_dev = 2 \<and> running) yield)
     (set_csr (\<lambda>c'. c'\<lparr>sepc := sepc c, sstatus := sstatus c\<rparr>)))))))"

section \<open>The first process\<close>

text \<open>/init as bytes.\<close>

abbreviation (input) init_path :: "u8 list" where
  "init_path \<equiv> [47, 105, 110, 105, 116]"

text \<open>
  forkret, with the value it hands to userret in the trampoline page and the address it jumps to.
\<close>

definition forkret :: "(u64 \<times> u64) kernel" where
  "forkret =
     kbind myproc (\<lambda>i.
     kbind (kgets forkret_first) (\<lambda>first.
     kthen (kwhen first
       (kthen (fsinit ROOTDEV)
       (kthen (kmodify (\<lambda>s. s\<lparr>forkret_first := False\<rparr>))
       (kbind (kexec init_path [init_path]) (\<lambda>r.
        kthen (set_trapframe i (\<lambda>t. t\<lparr>tf_a0 := sysret r\<rparr>))
        (kwhen (r = - 1) (kpanic ''exec'')))))))
     (kthen prepare_return
     (kbind (get_proc i) (\<lambda>p.
      kgets (\<lambda>s. (MAKE_SATP (p_pagetable p), TRAMPOLINE + (userret_addr s - trampoline s))))))))"

section \<open>Booting\<close>

definition kvminit :: "unit kernel" where
  "kvminit = kbind kvmmake (\<lambda>pt. kmodify (\<lambda>s. s\<lparr>kernel_pagetable := pt\<rparr>))"

definition kvminithart :: "unit kernel" where
  "kvminithart = kbind (kgets kernel_pagetable) (\<lambda>pt. set_csr (\<lambda>c. c\<lparr>satp := MAKE_SATP pt\<rparr>))"

text \<open>
  main up to the call of scheduler. A CPU other than 0 waits for \<open>started\<close>: \<open>Sleep\<close> stands for
  its spinning. printkinit, trapinit and fileinit only initialise spin locks.
\<close>

definition main :: "unit kernel" where
  "main =
     kbind cpuid (\<lambda>hart.
     if hart = 0 then
       kthen consoleinit
       (kthen (printk [newline] [])
       (kthen (printk (''xv6 kernel is booting'' @ [newline]) [])
       (kthen (printk [newline] [])
       (kthen kinit
       (kthen kvminit
       (kthen kvminithart
       (kthen procinit
       (kthen trapinithart
       (kthen plicinit
       (kthen plicinithart
       (kthen binit
       (kthen iinit
       (kthen virtio_disk_init
       (kthen userinit
       (kmodify (\<lambda>s. s\<lparr>started := True\<rparr>))))))))))))))))
     else
       kbind (kgets started) (\<lambda>st.
       if \<not> st then (\<lambda>s. Sleep s)
       else
         kthen (printk (''hart %d starting'' @ [newline]) [Num hart])
         (kthen kvminithart (kthen trapinithart plicinithart))))"

end
