(* ===== verification/Xv6_Frame.thy ===== *)
theory Xv6_Frame
  imports Xv6_Trap
begin

text \<open>
  What kernel code keeps. \<open>preserves P m\<close>: if the code \<open>m\<close> returns or goes to sleep, \<open>P\<close> still holds.
  The locales list what \<open>P\<close> must tolerate: each allows changes of more of the kernel's variables than
  the one before, and in it all the operations that change no others preserve \<open>P\<close>.
\<close>

section \<open>The calculus\<close>

definition preserves :: "('s \<Rightarrow> bool) \<Rightarrow> ('s, 'a) km \<Rightarrow> bool" where
  "preserves P m \<longleftrightarrow> (\<forall>s. P s \<longrightarrow> (case m s of Ok _ t \<Rightarrow> P t | Sleep t \<Rightarrow> P t | Panic _ \<Rightarrow> True))"

named_theorems preserve \<open>operations and constructs that preserve a property of the state\<close>

lemma preservesI: "(\<And>s. P s \<Longrightarrow> case m s of Ok _ t \<Rightarrow> P t | Sleep t \<Rightarrow> P t | Panic _ \<Rightarrow> True) \<Longrightarrow> preserves P m"
  by (simp add: preserves_def)

lemma preservesD:
  assumes "preserves P m" "P s"
  shows "m s = Ok a t \<Longrightarrow> P t" "m s = Sleep t \<Longrightarrow> P t"
proof -
  have "case m s of Ok _ t \<Rightarrow> P t | Sleep t \<Rightarrow> P t | Panic _ \<Rightarrow> True" using assms by (simp add: preserves_def)
  then show "m s = Ok a t \<Longrightarrow> P t" "m s = Sleep t \<Longrightarrow> P t" by simp_all
qed

lemma preserves_basic [preserve]:
  "preserves P (kret a)" "preserves P (Ok a)" "preserves P (kgets g)" "preserves P (kpanic e)" "preserves P (kpanic_if c e)"
  by (simp_all add: preserves_def kpanic_if_def)

lemma preserves_kmodify: "(\<And>s. P s \<Longrightarrow> P (f s)) \<Longrightarrow> preserves P (kmodify f)"
  by (simp add: preserves_def)

lemma preserves_kbind [preserve]: "preserves P m \<Longrightarrow> (\<And>a. preserves P (f a)) \<Longrightarrow> preserves P (kbind m f)"
proof (rule preservesI)
  fix s assume m: "preserves P m" and f: "\<And>a. preserves P (f a)" and "P s"
  then have 1: "case m s of Ok _ t \<Rightarrow> P t | Sleep t \<Rightarrow> P t | Panic _ \<Rightarrow> True" by (simp add: preserves_def)
  then show "case kbind m f s of Ok _ t \<Rightarrow> P t | Sleep t \<Rightarrow> P t | Panic _ \<Rightarrow> True"
    using f by (cases "m s") (simp_all add: kbind_def preserves_def)
qed

lemma preserves_kthen [preserve]: "preserves P m \<Longrightarrow> preserves P n \<Longrightarrow> preserves P (kthen m n)"
  unfolding kthen_def by (intro preserve)

lemma preserves_kwhen [preserve]: "preserves P m \<Longrightarrow> preserves P (kwhen c m)"
  by (cases c) (simp_all add: preserve)

lemma preserves_kfor [preserve]: "(\<And>i. preserves P (f i)) \<Longrightarrow> preserves P (kfor is f)"
  by (induction "is") (simp_all add: preserve)

lemma preserves_cases [preserve]:
  "(c \<Longrightarrow> preserves P m) \<Longrightarrow> (\<not> c \<Longrightarrow> preserves P n) \<Longrightarrow> preserves P (if c then m else n)"
  "preserves P m \<Longrightarrow> (\<And>a. preserves P (g a)) \<Longrightarrow> preserves P (case x of None \<Rightarrow> m | Some a \<Rightarrow> g a)"
  "(\<And>a b. preserves P (h a b)) \<Longrightarrow> preserves P (case y of (a, b) \<Rightarrow> h a b)"
  "preserves P (k z) \<Longrightarrow> preserves P (let a = z in k a)"
  by (simp_all split: option.splits prod.splits)

lemma preserves_pair_bind [preserve]:
  "preserves P m \<Longrightarrow> (\<And>a b. preserves P (f a b)) \<Longrightarrow> preserves P (kbind m (\<lambda>(a, b). f a b))"
  by (intro preserves_kbind) (auto split: prod.splits)

text \<open>Reading one variable of the state.\<close>

lemma preserves_gets [preserve]:
  "preserves P myproc" "preserves P (get_proc i)" "preserves P (get_buf b)" "preserves P get_log" "preserves P (buf_data b)"
  "preserves P (get_inode ip)" "preserves P (get_file f)" "preserves P (get_pipe pi)" "preserves P (get_trapframe i)"
  "preserves P (load_pte a)" "preserves P (killed i)" "preserves P cpuid" "preserves P (vreg r)" "preserves P plic_claim"
  unfolding myproc_def get_proc_def get_buf_def get_log_def buf_data_def get_inode_def get_file_def get_pipe_def
    get_trapframe_def load_pte_def killed_def cpuid_def vreg_def plic_claim_def
  by (intro preserve)+

lemma preserves_sched [preserve]: "preserves P sched"
  by (simp add: preserves_def sched_def)

section \<open>Memory\<close>

locale vm_frame =
  fixes P :: "kstate \<Rightarrow> bool"
  assumes P_mem: "P s \<Longrightarrow> P (s\<lparr>mem := m\<rparr>)" and P_freelist: "P s \<Longrightarrow> P (s\<lparr>freelist := a\<rparr>)"
begin

lemma keeps_mem [preserve]: "preserves P (kmodify (\<lambda>s. s\<lparr>mem := f s\<rparr>))" "preserves P (kmodify (\<lambda>s. s\<lparr>freelist := g s\<rparr>))"
  by (auto intro: preserves_kmodify P_mem P_freelist)

lemma keeps_kalloc [preserve]: "preserves P kalloc" "preserves P (kfree pa)" "preserves P (memset_page pa c)" "preserves P (store_pte a v)"
  unfolding kalloc_def kfree_def memset_page_def store_pte_def by (intro preserve)+

lemma keeps_walk [preserve]: "preserves P (walk pagetable va alloc)"
proof -
  have "preserves P (walk_level l pagetable va alloc)" for l pagetable
    by (induction l arbitrary: pagetable) (simp_all add: preserve)
  then show ?thesis unfolding walk_def by (intro preserve)
qed

lemma keeps_walkaddr [preserve]: "preserves P (walkaddr pagetable va)"
  unfolding walkaddr_def by (intro preserve)

lemma keeps_mappages [preserve]: "preserves P (mappages pagetable va sz pa perm)"
proof -
  have "preserves P (mappages_loop n pagetable a pa perm)" for n a pa
    by (induction n arbitrary: a pa) (simp_all add: preserve)
  then show ?thesis unfolding mappages_def by (intro preserve)
qed

lemma keeps_vm [preserve]:
  "preserves P uvmcreate" "preserves P (uvmunmap_page pagetable do_free a)" "preserves P (uvmclear pagetable va)"
  "preserves P (ismapped pagetable va)" "preserves P (kvmmap pagetable va pa sz perm)"
  unfolding uvmcreate_def uvmunmap_page_def uvmclear_def ismapped_def kvmmap_def by (intro preserve)+

lemma keeps_uvmunmap [preserve]: "preserves P (uvmunmap pagetable va n do_free)"
  unfolding uvmunmap_def by (intro preserve)

lemma keeps_uvmdealloc [preserve]: "preserves P (uvmdealloc pagetable oldsz newsz)"
  unfolding uvmdealloc_def by (intro preserve)

lemma keeps_uvmalloc [preserve]: "preserves P (uvmalloc pagetable oldsz newsz xperm)"
proof -
  have "preserves P (uvmalloc_loop as pagetable oldsz newsz xperm)" for as oldsz
    by (induction as) (simp_all add: preserve)
  then show ?thesis unfolding uvmalloc_def by (intro preserve)
qed

lemma keeps_freewalk [preserve]: "preserves P (freewalk pagetable)"
proof -
  have "preserves P (freewalk_depth d pagetable)" for d pagetable
    by (induction d arbitrary: pagetable) (simp_all add: preserve)
  then show ?thesis by (simp add: freewalk_def)
qed

lemma keeps_uvmfree [preserve]: "preserves P (uvmfree pagetable sz)"
  unfolding uvmfree_def by (intro preserve)

lemma keeps_uvmcopy [preserve]: "preserves P (uvmcopy old new sz)"
proof -
  have "preserves P (uvmcopy_loop is old new)" for "is"
    by (induction "is") (simp_all add: preserve)
  then show ?thesis by (simp add: uvmcopy_def)
qed

lemma keeps_vmfault [preserve]: "preserves P (vmfault pagetable psz va)"
  unfolding vmfault_def by (intro preserve)

lemma keeps_copyout [preserve]: "preserves P (copyout pagetable psz dst src)"
proof (induction pagetable psz dst src rule: copyout.induct)
  case (1 pagetable psz dst src)
  then show ?case by (subst copyout.simps) (auto simp: Let_def intro!: preserve)
qed

lemma keeps_copyin [preserve]: "preserves P (copyin pagetable psz src n)"
proof (induction pagetable psz src n rule: copyin.induct)
  case (1 pagetable psz src n)
  then show ?case by (subst copyin.simps) (auto simp: Let_def intro!: preserve)
qed

lemma keeps_copyinstr [preserve]: "preserves P (copyinstr pagetable psz src n)"
proof (induction pagetable psz src n rule: copyinstr.induct)
  case (1 pagetable psz src n)
  then show ?case by (subst copyinstr.simps) (auto simp: Let_def intro!: preserve)
qed

lemma keeps_kvmmake [preserve]: "preserves P kvmmake"
  unfolding kvmmake_def proc_mapstacks_def by (intro preserve)

lemma keeps_kinit [preserve]: "preserves P kinit"
proof -
  have "preserves P (freerange_loop p q)" for p q
  proof (induction p q rule: freerange_loop.induct)
    case (1 p q)
    then show ?case by (subst freerange_loop.simps) (auto intro!: preserve)
  qed
  then show ?thesis unfolding kinit_def freerange_def by (intro preserve)
qed

end


section \<open>Processes\<close>

text \<open>What most updates of a process keep: its pid and the sizes of its arrays.\<close>

definition same_proc :: "proc \<Rightarrow> proc \<Rightarrow> bool" where
  "same_proc p q \<longleftrightarrow> p_pid q = p_pid p \<and> length (p_ofile q) = length (p_ofile p) \<and>
     (length (p_name p) = 16 \<longrightarrow> length (p_name q) = 16)"

lemma length_set_name: "length old = 16 \<Longrightarrow> length (set_name src old) = 16"
  by (simp add: set_name_def)

locale proc_frame = vm_frame +
  assumes P_proc: "(\<And>p. same_proc p (f p)) \<Longrightarrow> P s \<Longrightarrow> P (procs_update (upd_nth i f) s)"
    and P_out: "P s \<Longrightarrow> P (s\<lparr>console_out := x\<rparr>)"
begin

lemma keeps_set_proc: "(\<And>p. same_proc p (f p)) \<Longrightarrow> preserves P (set_proc i f)"
  unfolding set_proc_def by (intro preserves_kmodify P_proc)

lemma keeps_proc_fields [preserve]:
  "preserves P (set_proc i (\<lambda>p. p\<lparr>p_chan := c p\<rparr>))" "preserves P (set_proc i (\<lambda>p. p\<lparr>p_state := st p\<rparr>))"
  "preserves P (set_proc i (wake_proc ch))" "preserves P (set_proc i (\<lambda>p. p\<lparr>p_killed := k p\<rparr>))"
  "preserves P (set_proc i (\<lambda>p. p\<lparr>p_killed := k p, p_state := st p\<rparr>))" "preserves P (set_proc i (\<lambda>p. p\<lparr>p_parent := pa p\<rparr>))"
  "preserves P (set_proc i (\<lambda>p. p\<lparr>p_sz := sz p\<rparr>))" "preserves P (set_proc i (\<lambda>p. p\<lparr>p_trapframe := tf p\<rparr>))"
  "preserves P (set_proc i (\<lambda>p. p\<lparr>p_pagetable := pt p\<rparr>))" "preserves P (set_proc i (\<lambda>p. p\<lparr>p_pagetable := pt p, p_sz := sz p\<rparr>))"
  "preserves P (set_proc i (\<lambda>p. p\<lparr>p_context := cx p\<rparr>))" "preserves P (set_proc i (\<lambda>p. p\<lparr>p_cwd := cw p\<rparr>))"
  "preserves P (set_proc i (\<lambda>p. p\<lparr>p_cwd := cw p, p_state := st p\<rparr>))"
  "preserves P (set_proc i (\<lambda>p. p\<lparr>p_xstate := xs p, p_state := st p\<rparr>))"
  "preserves P (set_proc i (\<lambda>p. p\<lparr>p_ofile := (p_ofile p)[fd := fo]\<rparr>))"
  "preserves P (set_proc i (\<lambda>p. p\<lparr>p_state := st p, p_kstack := ks p\<rparr>))"
  by (rule keeps_set_proc, simp add: same_proc_def wake_proc_def)+

lemma keeps_name [preserve]:
  "preserves P (set_proc i (\<lambda>p. p\<lparr>p_name := set_name (nm p) (p_name p)\<rparr>))"
  "preserves P (set_proc i (\<lambda>p. p\<lparr>p_cwd := cw p, p_name := set_name (nm p) (p_name p)\<rparr>))"
  by (rule keeps_set_proc, simp add: same_proc_def length_set_name)+

lemma keeps_sleep [preserve]:
  "preserves P (sleep_prepare ch)" "preserves P sleep" "preserves P yield" "preserves P (wakeup ch)" "preserves P (setkilled i)"
  unfolding sleep_prepare_def sleep_def yield_def wakeup_def setkilled_def by (intro preserve)+

lemma keeps_kkill [preserve]: "preserves P (kkill pid)"
  unfolding kkill_def by (intro preserve)

lemma keeps_reparent [preserve]: "preserves P (reparent i)"
  unfolding reparent_def by (intro preserve)

lemma keeps_pagetables [preserve]: "preserves P (proc_pagetable i)" "preserves P (proc_freepagetable pt sz)"
  unfolding proc_pagetable_def proc_freepagetable_def by (intro preserve)+

lemma keeps_growproc [preserve]: "preserves P (growproc n)"
  unfolding growproc_def by (intro preserve)

lemma keeps_consputc [preserve]: "preserves P (uartputc_sync c)" "preserves P (consputc c)" "preserves P (printk fmt ap)"
proof -
  show u: "preserves P (uartputc_sync c)" for c unfolding uartputc_sync_def by (intro preserves_kmodify P_out)
  show c: "preserves P (consputc c)" for c unfolding consputc_def by (intro preserve u)
  show "preserves P (printk fmt ap)" unfolding printk_def by (intro preserve c)
qed

lemma keeps_either_copyout [preserve]: "preserves P (either_copyout dst src)"
  unfolding either_copyout_def by (cases dst) (simp_all add: preserve)

lemma keeps_either_copyin [preserve]: "preserves P (either_copyin src n)"
  unfolding either_copyin_def by (cases src) (simp_all add: preserve)

lemma keeps_acquiresleep: "(\<And>f s. P s \<Longrightarrow> P (upd f s)) \<Longrightarrow> preserves P (acquiresleep get upd ch)"
  unfolding acquiresleep_def by (intro preserve preserves_kmodify)

lemma keeps_releasesleep: "(\<And>f s. P s \<Longrightarrow> P (upd f s)) \<Longrightarrow> preserves P (releasesleep upd ch)"
  unfolding releasesleep_def by (intro preserve preserves_kmodify)

lemma keeps_initsleeplock: "(\<And>f s. P s \<Longrightarrow> P (upd f s)) \<Longrightarrow> preserves P (initsleeplock upd)"
  unfolding initsleeplock_def by (intro preserve preserves_kmodify)

lemma keeps_procdump [preserve]: "preserves P procdump"
  unfolding procdump_def by (intro preserve)

end

section \<open>The buffer cache and the log\<close>

locale bio_frame = proc_frame +
  assumes P_bufs: "length bs = length (bufs s) \<Longrightarrow> P s \<Longrightarrow> P (s\<lparr>bufs := bs\<rparr>)"
    and P_disk: "P s \<Longrightarrow> P (s\<lparr>disk := d, disk_writes := w\<rparr>)"
begin

lemma P_bufs_update: "(\<And>bs. length (f bs) = length bs) \<Longrightarrow> P s \<Longrightarrow> P (bufs_update f s)"
  using P_bufs [of "f (bufs s)" s] by (cases s) simp

lemma keeps_set_buf [preserve]: "preserves P (set_buf b f)" "preserves P (set_buf_data b g)"
  unfolding set_buf_data_def set_buf_def by (intro preserves_kmodify P_bufs_update; simp)+

lemma keeps_buf_locks [preserve]:
  "preserves P (acquiresleep get (upd_buf_lock b) ch)" "preserves P (releasesleep (upd_buf_lock b) ch)"
  "preserves P (initsleeplock (upd_buf_lock b))"
  unfolding upd_buf_lock_def
  by (intro keeps_acquiresleep keeps_releasesleep keeps_initsleeplock P_bufs_update; simp)+

lemma keeps_bget [preserve]: "preserves P (bget dev blockno)"
  unfolding bget_def by (intro preserve)

lemma keeps_disk_rw [preserve]: "preserves P (disk_rw b write)"
  unfolding disk_rw_def by (intro preserve preserves_kmodify P_disk)

lemma keeps_bio [preserve]:
  "preserves P (bread dev blockno)" "preserves P (bwrite b)" "preserves P (bpin b)" "preserves P (bunpin b)"
  unfolding bread_def bwrite_def bpin_def bunpin_def by (intro preserve)+

lemma length_link [simp]: "length (link_front b bs) = length bs" "length (unlink b bs) = length bs"
  by (simp_all add: link_front_def unlink_def Let_def)

lemma keeps_brelse [preserve]: "preserves P (brelse b)"
  unfolding brelse_def by (intro preserve preserves_kmodify P_bufs_update; simp)

lemma keeps_binit [preserve]: "preserves P binit"
  unfolding binit_def by (intro preserve preserves_kmodify P_bufs_update; simp)

text \<open>The parts of a commit that leave the log's variables alone.\<close>

lemma keeps_write_log [preserve]: "preserves P write_log" "preserves P write_head" "preserves P (install_trans r)"
  unfolding write_log_def write_log_one_def write_head_def install_trans_def install_one_def by (intro preserve)+

end


text \<open>The log's variables may change, but not the size of the header's array.\<close>

locale log_frame = bio_frame +
  assumes P_log: "length (lh_block (l_lh l)) = length (lh_block (l_lh (klog s))) \<Longrightarrow> P s \<Longrightarrow> P (s\<lparr>klog := l\<rparr>)"
begin

lemma keeps_klog: "(\<And>l. length (lh_block (l_lh (f l))) = length (lh_block (l_lh l))) \<Longrightarrow> preserves P (kmodify (klog_update f))"
proof (rule preserves_kmodify)
  fix s assume "\<And>l. length (lh_block (l_lh (f l))) = length (lh_block (l_lh l))" "P s"
  then show "P (klog_update f s)" using P_log [of "f (klog s)" s] by (cases s) simp
qed

lemma keeps_log_fields [preserve]:
  "preserves P (kmodify (upd_log (\<lambda>l. l\<lparr>l_outstanding := a l\<rparr>)))" "preserves P (kmodify (upd_log (\<lambda>l. l\<lparr>l_committing := b l\<rparr>)))"
  "preserves P (kmodify (upd_log (\<lambda>l. l\<lparr>l_committing := b l, l_ncommit := c l\<rparr>)))"
  "preserves P (kmodify (upd_log (\<lambda>l. l\<lparr>l_start := d l, l_dev := e l\<rparr>)))" "preserves P (set_lh_n n)"
  "preserves P (kmodify (upd_log (\<lambda>l. l\<lparr>l_lh := (l_lh l)\<lparr>lh_block := (lh_block (l_lh l))[i := x]\<rparr>\<rparr>)))"
  unfolding set_lh_n_def by (rule keeps_klog, simp)+

lemma keeps_read_head [preserve]: "preserves P read_head"
  unfolding read_head_def by (intro preserve)

lemma keeps_initlog [preserve]: "preserves P (initlog dev su)"
  unfolding initlog_def recover_from_log_def by (intro preserve)

lemma keeps_commit [preserve]: "preserves P commit"
  unfolding commit_def by (intro preserve)

lemma keeps_ops [preserve]: "preserves P begin_op" "preserves P end_op" "preserves P (log_write b)" "preserves P sys_sync"
  unfolding begin_op_def end_op_def log_write_def sys_sync_def sync_wait_def by (intro preserve)+

end

section \<open>The file system\<close>

locale fs_frame = log_frame +
  assumes P_itable: "length it = length (itable s) \<Longrightarrow> P s \<Longrightarrow> P (s\<lparr>itable := it\<rparr>)"
    and P_sb: "P s \<Longrightarrow> P (s\<lparr>sb := x\<rparr>)"
begin

lemma P_itable_update: "(\<And>it. length (f it) = length it) \<Longrightarrow> P s \<Longrightarrow> P (itable_update f s)"
  using P_itable [of "f (itable s)" s] by (cases s) simp

lemma keeps_set_inode [preserve]: "preserves P (set_inode ip f)" "preserves P (set_nlink ip g)"
  unfolding set_nlink_def set_inode_def by (intro preserves_kmodify P_itable_update; simp)+

lemma keeps_inode_locks [preserve]:
  "preserves P (acquiresleep get (upd_inode_lock b) ch)" "preserves P (releasesleep (upd_inode_lock b) ch)"
  "preserves P (initsleeplock (upd_inode_lock b))"
  unfolding upd_inode_lock_def
  by (intro keeps_acquiresleep keeps_releasesleep keeps_initsleeplock P_itable_update; simp)+

lemma keeps_blocks [preserve]: "preserves P (bzero dev b)" "preserves P (bfree dev b)" "preserves P (readsb dev)"
  unfolding bzero_def bfree_def readsb_def by (intro preserve preserves_kmodify P_sb)+

lemma keeps_balloc [preserve]: "preserves P (balloc dev)"
proof -
  have "preserves P (balloc_from bs dev)" for bs
  proof (induction bs)
    case (Cons b bs)
    show ?case unfolding balloc_from.simps by (intro preserve Cons.IH)
  qed (simp add: preserve)
  then show ?thesis unfolding balloc_def by (intro preserve)
qed

lemma keeps_iget [preserve]: "preserves P (iget dev inum)"
  unfolding iget_def by (rule preserves_kbind) (auto simp: preserve split: prod.splits option.splits)

lemma keeps_ialloc [preserve]: "preserves P (ialloc dev type)"
proof -
  have "preserves P (ialloc_from is dev type)" for "is"
  proof (induction "is")
    case (Cons i "is")
    show ?case unfolding ialloc_from.simps by (intro preserve Cons.IH)
  qed (simp add: preserve)
  then show ?thesis unfolding ialloc_def by (intro preserve)
qed

lemma keeps_inodes [preserve]:
  "preserves P iinit" "preserves P (iupdate ip)" "preserves P (idup ip)" "preserves P (ilock ip)" "preserves P (iunlock ip)"
  "preserves P (ifree dev inum)" "preserves P (addr_or_alloc ip i)" "preserves P (stati ip)"
  unfolding iinit_def iupdate_def idup_def ilock_def iunlock_def ifree_def addr_or_alloc_def stati_def by (intro preserve)+

lemma keeps_bmap [preserve]: "preserves P (bmap ip bn)"
  unfolding bmap_def by (intro preserve)

lemma keeps_itrunc [preserve]: "preserves P (itrunc ip)"
  unfolding itrunc_def by (intro preserve)

lemma keeps_iput [preserve]: "preserves P (iput ip)" "preserves P (iunlockput ip)"
proof -
  show "preserves P (iput ip)" for ip unfolding iput_def by (intro preserve)
  then show "preserves P (iunlockput ip)" unfolding iunlockput_def by (intro preserve)
qed

lemma keeps_fsinit [preserve]: "preserves P (fsinit dev)"
  unfolding fsinit_def ireclaim_def reclaim_one_def by (intro preserve)

lemma keeps_readi [preserve]: "preserves P (readi ip dst off n)"
proof -
  have "preserves P (readi_loop ip dst off n tot)" for ip dst off n tot
  proof (induction ip dst off n tot rule: readi_loop.induct)
    case (1 ip dst off n tot)
    then show ?case by (subst readi_loop.simps) (auto simp: Let_def intro!: preserve)
  qed
  then show ?thesis unfolding readi_def by (intro preserve)
qed

lemma keeps_writei [preserve]: "preserves P (writei ip src off n)"
proof -
  have "preserves P (writei_loop ip src off n tot)" for ip src off n tot
  proof (induction ip src off n tot rule: writei_loop.induct)
    case (1 ip src off n tot)
    then show ?case by (subst writei_loop.simps) (auto intro!: preserve)
  qed
  then show ?thesis unfolding writei_def by (intro preserve)
qed

lemma keeps_dirlookup [preserve]: "preserves P (dirlookup dp name)"
proof -
  have "preserves P (dirlookup_from offs dp name)" for offs
    by (induction offs) (auto simp: Let_def intro!: preserve)
  then show ?thesis unfolding dirlookup_def by (intro preserve)
qed

lemma keeps_dirlink [preserve]: "preserves P (dirlink dp name inum)"
proof -
  have "preserves P (empty_dirent offs dp off)" for offs off
    by (induction offs arbitrary: off) (auto intro!: preserve)
  then show ?thesis unfolding dirlink_def by (intro preserve)
qed

lemma keeps_namex [preserve]: "preserves P (namex path parent name)"
proof -
  have "preserves P (namex_loop ip path parent name)" for ip path parent name
  proof (induction ip path parent name rule: namex_loop.induct)
    case (1 ip path parent name)
    then show ?case by (subst namex_loop.simps) (auto intro!: preserve split: prod.splits option.splits)
  qed
  then show ?thesis unfolding namex_def by (intro preserve)
qed

lemma keeps_namei [preserve]: "preserves P (namei path)" "preserves P (nameiparent path name)"
  unfolding namei_def nameiparent_def by (intro preserve)+

end


section \<open>Files, devices and system calls\<close>

locale file_frame = fs_frame +
  assumes P_ftable: "length ft = length (ftable s) \<Longrightarrow> P s \<Longrightarrow> P (s\<lparr>ftable := ft\<rparr>)"
    and P_pipes: "(\<And>k. length (pi_data (f k)) = length (pi_data k)) \<Longrightarrow> P s \<Longrightarrow> P (s\<lparr>pipes := (pipes s)(pi := f (pipes s pi))\<rparr>)"
    and P_cons: "length (c_buf c) = length (c_buf (cons s)) \<Longrightarrow> P s \<Longrightarrow> P (s\<lparr>cons := c\<rparr>)"
    and P_uart: "P s \<Longrightarrow> P (s\<lparr>uart_polls := n\<rparr>)" "P s \<Longrightarrow> P (s\<lparr>uart_rx := r\<rparr>)" "P s \<Longrightarrow> P (s\<lparr>uart_regs := g\<rparr>)"
      "P s \<Longrightarrow> P (tx_lock_update h s)"
    and P_trapframes: "P s \<Longrightarrow> P (s\<lparr>trapframes := tf\<rparr>)"
begin

lemma keeps_set_file [preserve]: "preserves P (set_file f g)"
proof -
  have "P (ftable_update (upd_nth f g) s)" if "P s" for s using P_ftable [of "upd_nth f g (ftable s)" s] that by (cases s) simp
  then show ?thesis unfolding set_file_def by (rule preserves_kmodify)
qed

lemma keeps_set_pipe: "(\<And>k. length (pi_data (f k)) = length (pi_data k)) \<Longrightarrow> preserves P (set_pipe pi f)"
  unfolding set_pipe_def by (intro preserves_kmodify P_pipes)

lemma keeps_pipe_fields [preserve]:
  "preserves P (set_pipe pi (\<lambda>k. k\<lparr>pi_writeopen := w k\<rparr>))" "preserves P (set_pipe pi (\<lambda>k. k\<lparr>pi_readopen := r k\<rparr>))"
  "preserves P (set_pipe pi (pipe_put c))" "preserves P (set_pipe pi (\<lambda>k. k\<lparr>pi_nread := n k\<rparr>))"
  "preserves P (set_pipe pi (\<lambda>k. k\<lparr>pi_readopen := r k, pi_writeopen := w k, pi_nwrite := m k, pi_nread := n k\<rparr>))"
  by (rule keeps_set_pipe, simp add: pipe_put_def)+

lemma keeps_pipes [preserve]: "preserves P (pipeclose pi writable)" "preserves P (pipewrite pi addr n)" "preserves P (piperead pi addr n)"
proof -
  show "preserves P (pipeclose pi writable)" unfolding pipeclose_def by (intro preserve)
  have "preserves P (pipewrite_loop pi addr i m)" for i m
    by (induction m arbitrary: i) (auto intro!: preserve simp del: kbind_basic)
  then show "preserves P (pipewrite pi addr n)" by (simp add: pipewrite_def)
  have "preserves P (piperead_loop pi addr i m)" for i m
    by (induction m arbitrary: i) (auto intro!: preserve simp del: kbind_basic)
  then show "preserves P (piperead pi addr n)" unfolding piperead_def by (intro preserve)
qed

lemma keeps_upd_cons: "(\<And>c. length (c_buf (f c)) = length (c_buf c)) \<Longrightarrow> preserves P (kmodify (upd_cons f))"
proof (rule preserves_kmodify)
  fix s assume "\<And>c. length (c_buf (f c)) = length (c_buf c)" "P s"
  then show "P (cons_update f s)" using P_cons [of "f (cons s)" s] by (cases s) simp
qed

lemma keeps_cons_fields [preserve]:
  "preserves P (kmodify (upd_cons (\<lambda>c. c\<lparr>c_e := e c\<rparr>)))" "preserves P (kmodify (upd_cons (\<lambda>c. c\<lparr>c_r := r c\<rparr>)))"
  "preserves P (kmodify (upd_cons (\<lambda>c. c\<lparr>c_w := w c\<rparr>)))"
  "preserves P (kmodify (upd_cons (\<lambda>c. c\<lparr>c_buf := (c_buf c)[i c := x], c_e := e c\<rparr>)))"
  by (rule keeps_upd_cons, simp)+

lemma keeps_uart [preserve]: "preserves P tx_idle" "preserves P uartgetc" "preserves P consoleinit"
  unfolding tx_idle_def uartgetc_def consoleinit_def uartinit_def WriteReg_def
  by (intro preserve preserves_kmodify keeps_initsleeplock P_uart | (auto split: list.split intro!: preserve preserves_kmodify P_uart)[1])+

lemma keeps_uartwrite [preserve]: "preserves P (uartwrite buf)"
proof -
  have "preserves P (uartwrite_loop cs)" for cs
    by (induction cs) (auto intro!: preserve simp del: kbind_basic)
  then show ?thesis unfolding uartwrite_def by (intro preserve keeps_acquiresleep keeps_releasesleep P_uart)
qed

lemma keeps_consoleintr [preserve]: "preserves P (consoleintr ch)"
proof -
  have "preserves P (kill_line n)" for n
    by (induction n) (auto intro!: preserve simp del: kbind_basic)
  then show ?thesis unfolding consoleintr_def by (intro preserve)
qed

lemma keeps_uartintr [preserve]: "preserves P uartintr"
proof -
  have "preserves P (uartintr_loop n)" for n
    by (induction n) (auto intro!: preserve simp del: kbind_basic)
  then show ?thesis unfolding uartintr_def by (intro preserve)
qed

lemma keeps_consoleread [preserve]: "preserves P (consoleread dst n)"
proof -
  have "preserves P (consoleread_loop dst target m)" for dst target m
    by (induction m arbitrary: dst) (auto simp: Let_def intro!: preserve simp del: kbind_basic)
  then show ?thesis by (simp add: consoleread_def)
qed

lemma keeps_consolewrite [preserve]: "preserves P (consolewrite src n)"
proof -
  have "preserves P (consolewrite_loop src i m)" for src i m
  proof (induction src i m rule: consolewrite_loop.induct)
    case (1 src i n)
    then show ?case by (subst consolewrite_loop.simps) (auto intro!: preserve)
  qed
  then show ?thesis by (simp add: consolewrite_def)
qed

lemma keeps_devsw:
  "preserves P (case devsw_read major of None \<Rightarrow> kret x | Some rd \<Rightarrow> rd dst n)"
  "preserves P (case devsw_write major of None \<Rightarrow> kret x | Some wr \<Rightarrow> wr dst n)"
  by (auto simp: devsw_read_def devsw_write_def preserve)

lemma keeps_files [preserve]:
  "preserves P filealloc" "preserves P (filedup f)" "preserves P (fileclose f)" "preserves P (filestat f addr)"
  unfolding filealloc_def filedup_def fileclose_def filestat_def by (intro preserve)+

lemma keeps_fileread [preserve]: "preserves P (fileread f addr n)"
  unfolding fileread_def by (rule preserves_kbind) (auto intro!: preserve keeps_devsw split: fdtype.split)

lemma keeps_filewrite [preserve]: "preserves P (filewrite f addr n)"
proof -
  have "preserves P (filewrite_loop f addr i m)" for i m
  proof (induction f addr i m rule: filewrite_loop.induct)
    case (1 f addr i n)
    then show ?case by (subst filewrite_loop.simps) (auto intro!: preserve)
  qed
  then show ?thesis unfolding filewrite_def by (intro preserves_kbind) (auto intro!: preserve keeps_devsw split: fdtype.split)
qed

lemma keeps_pipealloc [preserve]: "preserves P pipealloc"
  unfolding pipealloc_def close_opt_def by (intro preserve)

lemma keeps_set_trapframe [preserve]: "preserves P (set_trapframe i f)"
  unfolding set_trapframe_def Let_def by (intro preserves_kmodify P_trapframes)

lemma keeps_args [preserve]:
  "preserves P (fetchaddr addr)" "preserves P (fetchstr addr mx)" "preserves P (argraw n)" "preserves P (argint n)"
  "preserves P (argaddr n)" "preserves P (argstr n mx)"
  unfolding fetchaddr_def fetchstr_def argraw_def argint_def argaddr_def argstr_def by (intro preserve)+

lemma keeps_fds [preserve]: "preserves P fail_op" "preserves P (argfd n)" "preserves P (set_ofile fd fo)" "preserves P (fdalloc f)"
  unfolding fail_op_def argfd_def set_ofile_def fdalloc_def by (intro preserve)+

lemma keeps_fd_calls [preserve]:
  "preserves P sys_dup" "preserves P sys_read" "preserves P sys_write" "preserves P sys_close" "preserves P sys_fstat" "preserves P sys_pipe"
  unfolding sys_dup_def sys_read_def sys_write_def sys_close_def sys_fstat_def sys_pipe_def by (intro preserve)+

lemma keeps_isdirempty [preserve]: "preserves P (isdirempty dp)"
proof -
  have "preserves P (isdirempty_from offs dp)" for offs
    by (induction offs) (auto intro!: preserve)
  then show ?thesis unfolding isdirempty_def by (intro preserve)
qed

lemma keeps_create [preserve]: "preserves P (create path type major minor)"
  unfolding create_def create_fail_def by (intro preserve)

lemma keeps_path_calls [preserve]:
  "preserves P sys_link" "preserves P sys_unlink" "preserves P sys_mkdir" "preserves P sys_mknod" "preserves P sys_chdir"
  unfolding sys_link_def link_bad_def sys_unlink_def sys_mkdir_def sys_mknod_def sys_chdir_def by (intro preserve)+

lemma keeps_sys_open [preserve]: "preserves P sys_open"
  unfolding sys_open_def open_inode_def by (intro preserve)

end

end
