(* ===== verification/Xv6_Kill.thy ===== *)
theory Xv6_Kill
  imports Xv6_Sleep Xv6_Frame
begin

text \<open>
  kkill, and what it does when no process has the pid. Slots of the process table without a process
  have pid 0, and kkill does not look at the state of the slot it finds.
\<close>

section \<open>Memory management leaves the process table alone\<close>

interpretation procs_kept: vm_frame "\<lambda>s. procs s = ps" for ps
  by unfold_locales simp_all

lemma kept: "preserves (\<lambda>s. procs s = procs t) m \<Longrightarrow> m t = Ok r u \<Longrightarrow> procs u = procs t"
  by (drule preservesD(1) [of "\<lambda>s. procs s = procs t" m t r u]) (rule refl)

lemma kalloc_procs: "kalloc t = Ok r u \<Longrightarrow> procs u = procs t"
  using kept [of t kalloc] procs_kept.keeps_kalloc(1) by blast

lemma proc_pagetable_procs:
  assumes "proc_pagetable i t = Ok r u"
  shows "procs u = procs t"
proof (rule kept [of t "proc_pagetable i", OF _ assms])
  show "preserves (\<lambda>s. procs s = procs t) (proc_pagetable i)" unfolding proc_pagetable_def by (intro preserve)
qed

lemma find_proc_Some: "find_proc P ps = Some i \<longleftrightarrow> i < length ps \<and> P (ps ! i) \<and> (\<forall>j<i. \<not> P (ps ! j))"
proof
  assume "find_proc P ps = Some i"
  then obtain k where "k < length ps" "P (ps ! ([0..<length ps] ! k))" "i = [0..<length ps] ! k"
      "\<forall>j<k. \<not> P (ps ! ([0..<length ps] ! j))"
    unfolding find_proc_def find_Some_iff by auto
  then show "i < length ps \<and> P (ps ! i) \<and> (\<forall>j<i. \<not> P (ps ! j))" by simp
next
  assume "i < length ps \<and> P (ps ! i) \<and> (\<forall>j<i. \<not> P (ps ! j))"
  then show "find_proc P ps = Some i" unfolding find_proc_def find_Some_iff by (intro exI [of _ i]) simp
qed

text \<open>A process that allocproc returns is in the first unused slot, and killed if the slot was.\<close>

lemma allocproc_slot:
  assumes "allocproc s = Ok (Some j) u"
  shows "find_proc (\<lambda>p. p_state p = UNUSED) (procs s) = Some j \<and> p_killed (procs u ! j) = p_killed (procs s ! j)"
proof -
  obtain i where i: "find_proc (\<lambda>p. p_state p = UNUSED) (procs s) = Some i"
    using assms by (cases "find_proc (\<lambda>p. p_state p = UNUSED) (procs s)") (simp_all add: allocproc_def)
  have lt: "i < length (procs s)" using i by (simp add: find_proc_Some)
  define s1 where "s1 = upd_proc i (\<lambda>p. p\<lparr>p_pid := nextpid s, p_state := USED\<rparr>) (s\<lparr>nextpid := nextpid s + 1\<rparr>)"
  obtain tf s2 where s2: "kalloc s1 = Ok tf s2"
    and r2: "(if tf = 0 then kthen (freeproc i) (kret None)
         else kbind (proc_pagetable i) (\<lambda>pt.
           kthen (set_proc i (\<lambda>p. p\<lparr>p_pagetable := pt\<rparr>))
           (if pt = 0 then kthen (freeproc i) (kret None)
            else kbind (kgets forkret_addr) (\<lambda>ra.
              kthen (set_proc i (\<lambda>p. p\<lparr>p_context :=
                \<lparr>ctx_ra = ra, ctx_sp = p_kstack p + PGSIZE, ctx_s = replicate 12 0\<rparr>\<rparr>))
              (kret (Some i)))))) (upd_proc i (\<lambda>p. p\<lparr>p_trapframe := tf\<rparr>) s2) = Ok (Some j) u"
    using assms i by (auto simp: allocproc_def allocpid_def set_proc_def kseq s1_def kbind_eq_Ok)
  define s3 where "s3 = upd_proc i (\<lambda>p. p\<lparr>p_trapframe := tf\<rparr>) s2"
  have tf: "tf \<noteq> 0" using r2 by (auto simp: kthen_eq_Ok)
  then obtain pt s4 where s4: "proc_pagetable i s3 = Ok pt s4"
    and r4: "(if pt = 0 then kthen (freeproc i) (kret None)
            else kbind (kgets forkret_addr) (\<lambda>ra.
              kthen (set_proc i (\<lambda>p. p\<lparr>p_context :=
                \<lparr>ctx_ra = ra, ctx_sp = p_kstack p + PGSIZE, ctx_s = replicate 12 0\<rparr>\<rparr>))
              (kret (Some i)))) (upd_proc i (\<lambda>p. p\<lparr>p_pagetable := pt\<rparr>) s4) = Ok (Some j) u"
    using r2 by (auto simp: s3_def kbind_eq_Ok set_proc_def kseq)
  have "pt \<noteq> 0" using r4 by (auto simp: kthen_eq_Ok)
  then have u: "j = i" "procs u = upd_nth i (\<lambda>p. p\<lparr>p_context := \<lparr>ctx_ra = forkret_addr s4, ctx_sp = p_kstack p + PGSIZE, ctx_s = replicate 12 0\<rparr>\<rparr>)
      (upd_nth i (\<lambda>p. p\<lparr>p_pagetable := pt\<rparr>) (procs s4))"
    using r4 by (auto simp: set_proc_def kseq)
  have "procs s2 = procs s1" "procs s4 = procs s3" using kalloc_procs [OF s2] proc_pagetable_procs [OF s4] by simp_all
  then have "p_killed (procs u ! i) = p_killed (procs s ! i)" using lt unfolding u(2) by (simp add: s1_def s3_def)
  then show ?thesis using i u(1) by simp
qed

text \<open>C31: kill(0) succeeds although no process has pid 0: kkill marks the first unused slot of the process
  table as killed and returns 0. The next process that allocproc creates is in this slot, and is
  killed before it has run.\<close>

theorem kill_zero_kills_next_process:
  assumes "length (procs s) = NPROC" and "\<forall>i<NPROC. p_pid (procs s ! i) = 0 \<longleftrightarrow> p_state (procs s ! i) = UNUSED"
    and "find_proc (\<lambda>p. p_state p = UNUSED) (procs s) = Some i"
  shows "\<exists>t. kkill 0 s = Ok 0 t \<and> p_killed (procs t ! i) \<and>
    (\<forall>j u. allocproc t = Ok (Some j) u \<longrightarrow> j = i \<and> p_killed (procs u ! j))"
proof -
  let ?t = "upd_proc i kill_proc s"
  have i: "i < NPROC" "p_state (procs s ! i) = UNUSED" "\<forall>j<i. p_state (procs s ! j) \<noteq> UNUSED"
    using assms(1,3) by (simp_all add: find_proc_Some)
  have "find_proc (\<lambda>p. p_pid p = 0) (procs s) = Some i" using i assms(1,2) by (simp add: find_proc_Some)
  then have k: "kkill 0 s = Ok 0 ?t" by (simp add: kkill_def set_proc_def kseq kill_proc_def [abs_def])
  have f: "find_proc (\<lambda>p. p_state p = UNUSED) (procs ?t) = Some i"
    using i assms(1) by (simp add: find_proc_Some kill_proc_def)
  have d: "p_killed (procs ?t ! i)" using i(1) assms(1) by (simp add: kill_proc_def)
  have "j = i \<and> p_killed (procs u ! j)" if "allocproc ?t = Ok (Some j) u" for j u
    using allocproc_slot [OF that] f d by (metis option.inject)
  then show ?thesis using k d by blast
qed

theorem kill_zero_kills_next_process_witness:
  "\<exists>t. kkill 0 kstate0 = Ok 0 t \<and> p_killed (procs t ! 0)"
proof -
  have p: "procs kstate0 = replicate NPROC proc0" by (simp add: kstate0_def)
  have l: "length (procs kstate0) = NPROC" unfolding p by simp
  have n: "\<forall>i<NPROC. p_pid (procs kstate0 ! i) = 0 \<longleftrightarrow> p_state (procs kstate0 ! i) = UNUSED"
    unfolding p by (simp add: nth_replicate proc0_def)
  have f: "find_proc (\<lambda>p. p_state p = UNUSED) (procs kstate0) = Some 0"
    unfolding find_proc_Some l p by (simp add: proc0_def)
  show ?thesis using kill_zero_kills_next_process [OF l n f] by blast
qed

end
