(* ===== verification/Xv6_Reserve.thy ===== *)
theory Xv6_Reserve
  imports Xv6_Trans Xv6_Frame
begin

text \<open>
  Reservation of log space. begin_op admits an operation only when the log has room for MAXOPBLOCKS
  blocks for it and for every operation under way; so as long as each operation keeps to its share,
  log_write finds room, whatever the interleaving of the operations.
\<close>

section \<open>The log's variables under buffer operations\<close>

interpretation klog_kept: bio_frame "\<lambda>s. klog s = l" for l
  by unfold_locales simp_all

lemma klog_kept: "preserves (\<lambda>s. klog s = klog t) m \<Longrightarrow> m t = Ok r u \<Longrightarrow> klog u = klog t"
  by (drule preservesD(1) [of "\<lambda>s. klog s = klog t" m t r u]) (rule refl)

lemma wakeup_klog: "wakeup ch t = Ok r u \<Longrightarrow> klog u = klog t"
  by (rule klog_kept [of t "wakeup ch"]) (intro preserve)

lemma commit_klog:
  assumes "commit s = Ok r t" "0 \<le> lh_n (l_lh (klog s))"
  shows "lh_n (l_lh (klog t)) = 0 \<and> lh_block (l_lh (klog t)) = lh_block (l_lh (klog s)) \<and>
    l_outstanding (klog t) = l_outstanding (klog s) \<and> l_committing (klog t) = l_committing (klog s)"
proof (cases "lh_n (l_lh (klog s)) > 0")
  case True
  let ?f = "\<lambda>l :: log. l\<lparr>l_lh := (l_lh l)\<lparr>lh_n := 0\<rparr>\<rparr>"
  obtain s1 s2 s3 where w: "write_log s = Ok () s1" "write_head s1 = Ok () s2" "install_trans False s2 = Ok () s3"
      "write_head (upd_log ?f s3) = Ok () t"
    using assms(1) True by (auto simp: commit_def get_log_def kthen_eq_Ok set_lh_n_def)
  have "klog s1 = klog s" by (rule klog_kept [of s write_log, OF klog_kept.keeps_write_log(1) w(1)])
  moreover have "klog s2 = klog s1" by (rule klog_kept [of s1 write_head, OF klog_kept.keeps_write_log(2) w(2)])
  moreover have "klog s3 = klog s2" by (rule klog_kept [of s2 "install_trans False", OF klog_kept.keeps_write_log(3) w(3)])
  moreover have "klog t = klog (upd_log ?f s3)" by (rule klog_kept [of _ write_head, OF klog_kept.keeps_write_log(2) w(4)])
  ultimately show ?thesis by simp
next
  case False
  then show ?thesis using assms by (simp add: commit_def get_log_def)
qed

section \<open>Operations under way\<close>

text \<open>
  \<open>ops i\<close> is the set of blocks operation \<open>i\<close> has passed to log_write, if it is under way. Between the
  calls, anything may happen that does not touch the log.
\<close>

type_synonym ops = "nat \<Rightarrow> u32 set option"

inductive log_run :: "ops \<Rightarrow> kstate \<Rightarrow> bool" where
  idle: "lh_n (l_lh (klog s)) = 0 \<Longrightarrow> l_outstanding (klog s) = 0 \<Longrightarrow> \<not> l_committing (klog s) \<Longrightarrow>
    length (lh_block (l_lh (klog s))) = LOGBLOCKS \<Longrightarrow> log_run (\<lambda>_. None) s"
| begins: "log_run ops s \<Longrightarrow> ops i = None \<Longrightarrow> begin_op s = Ok () t \<Longrightarrow> klog t \<noteq> klog s \<Longrightarrow> log_run (ops(i := Some {})) t"
| writes: "log_run ops s \<Longrightarrow> ops i = Some W \<Longrightarrow> card W < MAXOPBLOCKS \<Longrightarrow> log_write b s = Ok () t \<Longrightarrow>
    log_run (ops(i := Some (insert (b_blockno (bufs s ! b)) W))) t"
| ends: "log_run ops s \<Longrightarrow> ops i = Some W \<Longrightarrow> end_op s = Ok () t \<Longrightarrow> log_run (ops(i := None)) t"
| other: "log_run ops s \<Longrightarrow> klog t = klog s \<Longrightarrow> log_run ops t"

definition left :: "ops \<Rightarrow> nat \<Rightarrow> nat" where
  "left ops i = MAXOPBLOCKS - card (the (ops i))"

definition reserved :: "ops \<Rightarrow> nat" where
  "reserved ops = (\<Sum>i\<in>dom ops. left ops i)"

definition log_inv :: "ops \<Rightarrow> kstate \<Rightarrow> bool" where
  "log_inv ops s \<longleftrightarrow> finite (dom ops) \<and> (\<forall>i W. ops i = Some W \<longrightarrow> finite W \<and> card W \<le> MAXOPBLOCKS) \<and>
     (\<forall>i W. ops i = Some W \<longrightarrow> W \<subseteq> set (take (nat (lh_n (l_lh (klog s)))) (lh_block (l_lh (klog s))))) \<and>
     0 \<le> lh_n (l_lh (klog s)) \<and> lh_n (l_lh (klog s)) + int (reserved ops) \<le> int LOGBLOCKS \<and>
     l_outstanding (klog s) = int (card (dom ops)) \<and> \<not> l_committing (klog s) \<and>
     length (lh_block (l_lh (klog s))) = LOGBLOCKS"

section \<open>What the calls do to the log\<close>

lemma begin_op_klog:
  assumes "begin_op s = Ok r t" "klog t \<noteq> klog s"
  shows "lh_n (l_lh (klog s)) + (l_outstanding (klog s) + 1) * int MAXOPBLOCKS \<le> int LOGBLOCKS \<and>
    klog t = (klog s)\<lparr>l_outstanding := l_outstanding (klog s) + 1\<rparr>"
proof -
  have "preserves (\<lambda>s. klog s = l) (kthen (sleep_prepare (Some ChLog)) sleep)" for l by (intro preserve)
  then have "kthen (sleep_prepare (Some ChLog)) sleep s \<noteq> Ok r t"
    using klog_kept [of s "kthen (sleep_prepare (Some ChLog)) sleep" r t] assms(2) by blast
  then show ?thesis using assms by (auto simp: begin_op_def get_log_def split: if_splits)
qed

abbreviation "in_log l \<equiv> set (take (nat (lh_n (l_lh l))) (lh_block (l_lh l)))"

lemma log_write_klog:
  fixes s :: kstate and b :: nat
  assumes "0 \<le> lh_n (l_lh (klog s))" "lh_n (l_lh (klog s)) < int LOGBLOCKS" "1 \<le> l_outstanding (klog s)"
    "length (lh_block (l_lh (klog s))) = LOGBLOCKS"
  defines "blk \<equiv> b_blockno (bufs s ! b)"
  shows "\<exists>t. log_write b s = Ok () t \<and> l_outstanding (klog t) = l_outstanding (klog s) \<and> l_committing (klog t) = l_committing (klog s) \<and>
    length (lh_block (l_lh (klog t))) = LOGBLOCKS \<and> in_log (klog t) = insert blk (in_log (klog s)) \<and>
    lh_n (l_lh (klog t)) = lh_n (l_lh (klog s)) + (if blk \<in> in_log (klog s) then 0 else 1)"
proof -
  let ?l = "klog s" and ?n = "nat (lh_n (l_lh (klog s)))" and ?bs = "lh_block (l_lh (klog s))"
  have n: "?n < LOGBLOCKS" using assms(1,2) by linarith
  have le: "?n \<le> length ?bs" using n assms(4) by simp
  show ?thesis
  proof (cases "blk \<in> in_log ?l")
    case True
    then have "log_index ?bs blk 0 ?n < ?n" "?bs[log_index ?bs blk 0 ?n := blk] = ?bs"
      using log_index_spec(2) [OF le True] by (auto simp: list_update_id) (metis list_update_id)
    then have "log_write b s = Ok () s"
      using assms(1-4) by (simp add: log_write_def kpanic_if_def get_log_def get_buf_def kseq blk_def Let_def)
    then show ?thesis using True assms(4) by (intro exI [of _ s]) (auto simp: insert_absorb)
  next
    case False
    let ?t = "upd_buf b (\<lambda>k. k\<lparr>b_refcnt := b_refcnt k + 1\<rparr>) (s\<lparr>klog := ?l\<lparr>l_lh := \<lparr>lh_n = lh_n (l_lh ?l) + 1, lh_block = ?bs[?n := blk]\<rparr>\<rparr>\<rparr>)"
    have "log_index ?bs blk 0 ?n = ?n" using log_index_spec(1) [OF le False] .
    then have "log_write b s = Ok () ?t"
      using assms(1-4) by (simp add: log_write_def kpanic_if_def get_log_def get_buf_def bpin_def set_buf_def set_lh_n_def kseq blk_def Let_def)
    moreover have "take (Suc ?n) (?bs[?n := blk]) = take ?n ?bs @ [blk]"
      using n assms(4) by (simp add: take_Suc_conv_app_nth)
    ultimately show ?thesis using False assms(1,4) by (intro exI [of _ ?t]) (simp add: nat_add_distrib)
  qed
qed

lemma end_op_klog:
  assumes "end_op s = Ok r t" "\<not> l_committing (klog s)" "0 \<le> lh_n (l_lh (klog s))"
  shows "l_outstanding (klog t) = l_outstanding (klog s) - 1 \<and> \<not> l_committing (klog t) \<and>
    lh_block (l_lh (klog t)) = lh_block (l_lh (klog s)) \<and>
    lh_n (l_lh (klog t)) = (if l_outstanding (klog s) = 1 then 0 else lh_n (l_lh (klog s)))"
proof (cases "l_outstanding (klog s) = 1")
  case True
  let ?s = "upd_log (\<lambda>l. l\<lparr>l_outstanding := l_outstanding l - 1, l_committing := True\<rparr>) s"
  obtain u where c: "commit ?s = Ok () u"
    and w: "wakeup (Some ChLog) (upd_log (\<lambda>l. l\<lparr>l_committing := False, l_ncommit := l_ncommit l + 1\<rparr>) u) = Ok () t"
    using assms(1,2) True by (auto simp: end_op_def get_log_def kthen_eq_Ok o_def)
  show ?thesis using wakeup_klog [OF w] commit_klog [OF c] assms(3) True by simp
next
  case False
  then have w: "wakeup (Some ChLog) (upd_log (\<lambda>l. l\<lparr>l_outstanding := l_outstanding l - 1\<rparr>) s) = Ok () t"
    using assms(1,2) by (auto simp: end_op_def get_log_def kthen_eq_Ok)
  show ?thesis using wakeup_klog [OF w] assms(2) False by simp
qed

section \<open>The reservation\<close>

lemma reserved_upd:
  assumes "finite (dom ops)" "ops i = Some W"
  shows "reserved (ops(i := Some V)) + (MAXOPBLOCKS - card W) = reserved ops + (MAXOPBLOCKS - card V)"
proof -
  have d: "dom (ops(i := Some V)) = dom ops" "i \<in> dom ops" using assms(2) by auto
  have e: "(\<Sum>j\<in>dom ops - {i}. left (ops(i := Some V)) j) = (\<Sum>j\<in>dom ops - {i}. left ops j)"
    by (rule sum.cong) (auto simp: left_def)
  have l: "left (ops(i := Some V)) i = MAXOPBLOCKS - card V" "left ops i = MAXOPBLOCKS - card W"
    using assms(2) by (simp_all add: left_def)
  show ?thesis unfolding reserved_def d(1) sum.remove [OF assms(1) d(2), of "left ops"]
      sum.remove [OF assms(1) d(2), of "left (ops(i := Some V))"] e l by simp
qed

lemma reserved_start:
  assumes "finite (dom ops)" "ops i = None"
  shows "reserved (ops(i := Some {})) \<le> (card (dom ops) + 1) * MAXOPBLOCKS"
proof -
  have "reserved (ops(i := Some {})) \<le> (\<Sum>j\<in>dom (ops(i := Some {})). MAXOPBLOCKS)"
    unfolding reserved_def by (rule sum_mono) (simp add: left_def)
  moreover have "i \<notin> dom ops" "dom (ops(i := Some {})) = insert i (dom ops)" using assms(2) by auto
  ultimately show ?thesis using assms(1) by simp
qed

lemma reserved_end:
  assumes "finite (dom ops)"
  shows "reserved (ops(i := None)) \<le> reserved ops"
proof -
  have "reserved (ops(i := None)) = (\<Sum>j\<in>dom ops - {i}. left ops j)"
    unfolding reserved_def by (rule sum.cong) (auto simp: left_def)
  also have "\<dots> \<le> reserved ops" unfolding reserved_def using assms by (intro sum_mono2) auto
  finally show ?thesis .
qed

lemma log_invI:
  assumes "finite (dom ops)" "\<And>j W. ops j = Some W \<Longrightarrow> finite W \<and> card W \<le> MAXOPBLOCKS \<and> W \<subseteq> in_log (klog s)"
    "0 \<le> lh_n (l_lh (klog s))" "lh_n (l_lh (klog s)) + int (reserved ops) \<le> int LOGBLOCKS"
    "l_outstanding (klog s) = int (card (dom ops))" "\<not> l_committing (klog s)" "length (lh_block (l_lh (klog s))) = LOGBLOCKS"
  shows "log_inv ops s"
  using assms by (simp add: log_inv_def)

lemma log_invD:
  assumes "log_inv ops s"
  shows "finite (dom ops)" "\<And>j W. ops j = Some W \<Longrightarrow> finite W \<and> card W \<le> MAXOPBLOCKS \<and> W \<subseteq> in_log (klog s)"
    "0 \<le> lh_n (l_lh (klog s))" "lh_n (l_lh (klog s)) + int (reserved ops) \<le> int LOGBLOCKS"
    "l_outstanding (klog s) = int (card (dom ops))" "\<not> l_committing (klog s)" "length (lh_block (l_lh (klog s))) = LOGBLOCKS"
  using assms by (simp_all add: log_inv_def)

lemma log_inv_room:
  assumes "log_inv ops s" "ops i = Some W" "card W < MAXOPBLOCKS"
  shows "0 \<le> lh_n (l_lh (klog s))" "lh_n (l_lh (klog s)) < int LOGBLOCKS" "1 \<le> l_outstanding (klog s)"
    "length (lh_block (l_lh (klog s))) = LOGBLOCKS"
proof -
  have f: "finite (dom ops)" and i: "i \<in> dom ops" using assms(1,2) by (auto simp: log_inv_def)
  have "left ops i \<le> reserved ops" unfolding reserved_def by (rule member_le_sum [OF i _ f]) simp
  moreover have "0 < left ops i" using assms(2,3) by (simp add: left_def)
  ultimately show "lh_n (l_lh (klog s)) < int LOGBLOCKS" using assms(1) by (auto simp: log_inv_def)
  have "1 \<le> card (dom ops)" using f i by (metis One_nat_def Suc_leI card_gt_0_iff empty_iff)
  then show "1 \<le> l_outstanding (klog s)" using assms(1) by (simp add: log_inv_def)
qed (use assms(1) in \<open>simp_all add: log_inv_def\<close>)

lemma log_run_inv: "log_run ops s \<Longrightarrow> log_inv ops s"
proof (induction rule: log_run.induct)
  case (idle s)
  then show ?case by (intro log_invI) (simp_all add: reserved_def)
next
  case (begins ops s i t)
  note inv = log_invD [OF begins.IH] and k = begin_op_klog [OF begins.hyps(3,4)]
  have i: "i \<notin> dom ops" using begins.hyps(2) by auto
  have d: "dom (ops(i := Some {})) = insert i (dom ops)" by auto
  show ?case
  proof (rule log_invI)
    show "lh_n (l_lh (klog t)) + int (reserved (ops(i := Some {}))) \<le> int LOGBLOCKS"
      using k inv(5) reserved_start [OF inv(1) begins.hyps(2)] by simp
    show "finite W \<and> card W \<le> MAXOPBLOCKS \<and> W \<subseteq> in_log (klog t)" if "(ops(i := Some {})) j = Some W" for j W
      using that inv(2) [of j W] k by (cases "j = i") simp_all
    show "finite (dom (ops(i := Some {})))" "l_outstanding (klog t) = int (card (dom (ops(i := Some {}))))"
      unfolding d using k inv(1,5) i by simp_all
  qed (use k inv in simp_all)
next
  case (writes ops s i W b t)
  let ?blk = "b_blockno (bufs s ! b)"
  let ?V = "insert ?blk W"
  note inv = log_invD [OF writes.IH] and r = log_inv_room [OF writes.IH writes.hyps(2,3)]
  obtain t' where "log_write b s = Ok () t'" and t': "l_outstanding (klog t') = l_outstanding (klog s)" "l_committing (klog t') = l_committing (klog s)"
      "length (lh_block (l_lh (klog t'))) = LOGBLOCKS" "in_log (klog t') = insert ?blk (in_log (klog s))"
      "lh_n (l_lh (klog t')) = lh_n (l_lh (klog s)) + (if ?blk \<in> in_log (klog s) then 0 else 1)"
    using log_write_klog [OF r, of b] by (elim exE conjE) (rule that)
  then have "t' = t" using writes.hyps(4) by simp
  note t = t' [unfolded this]
  have W: "finite W" "W \<subseteq> in_log (klog s)" using inv(2) [OF writes.hyps(2)] by simp_all
  have c: "card ?V \<le> MAXOPBLOCKS" "card W \<le> card ?V" "?blk \<notin> in_log (klog s) \<Longrightarrow> card ?V = card W + 1"
    using writes.hyps(3) W by (auto simp: card_insert_if)
  have d: "dom (ops(i := Some ?V)) = dom ops" using writes.hyps(2) by auto
  show ?case
  proof (rule log_invI)
    have "lh_n (l_lh (klog t)) + int (reserved (ops(i := Some ?V))) \<le> lh_n (l_lh (klog s)) + int (reserved ops)"
      using reserved_upd [OF inv(1) writes.hyps(2), of ?V] c t(5) writes.hyps(3) by (auto split: if_splits)
    then show "lh_n (l_lh (klog t)) + int (reserved (ops(i := Some ?V))) \<le> int LOGBLOCKS" using inv(4) by linarith
    show "finite X \<and> card X \<le> MAXOPBLOCKS \<and> X \<subseteq> in_log (klog t)" if "(ops(i := Some ?V)) j = Some X" for j X
      using that inv(2) [of j X] t(4) c(1) W by (cases "j = i") auto
    show "finite (dom (ops(i := Some ?V)))" "l_outstanding (klog t) = int (card (dom (ops(i := Some ?V))))"
      unfolding d using t inv(1,5) by simp_all
  qed (use t inv in simp_all)
next
  case (ends ops s i W t)
  note inv = log_invD [OF ends.IH]
  note k = end_op_klog [OF ends.hyps(3) inv(6,3)]
  have i: "i \<in> dom ops" using ends.hyps(2) by auto
  have d: "dom (ops(i := None)) = dom ops - {i}" by auto
  have card: "card (dom ops - {i}) = card (dom ops) - 1" "1 \<le> card (dom ops)"
    using i inv(1) by (auto simp: Suc_le_eq card_gt_0_iff)
  show ?case
  proof (rule log_invI)
    show "lh_n (l_lh (klog t)) + int (reserved (ops(i := None))) \<le> int LOGBLOCKS"
      using k inv(3,4) reserved_end [OF inv(1), of i] by (auto split: if_splits)
    show "finite X \<and> card X \<le> MAXOPBLOCKS \<and> X \<subseteq> in_log (klog t)" if "(ops(i := None)) j = Some X" for j X
    proof -
      have j: "ops j = Some X" "j \<noteq> i" using that by (auto split: if_splits)
      have "card {i, j} \<le> card (dom ops)" using j i inv(1) by (intro card_mono) auto
      then have "card (dom ops) \<noteq> 1" using j(2) by simp
      then show ?thesis using inv(2) [OF j(1)] k inv(5) by simp
    qed
    show "finite (dom (ops(i := None)))" "l_outstanding (klog t) = int (card (dom (ops(i := None))))"
      unfolding d using k inv(1,5) card by simp_all
  qed (use k inv in simp_all)
next
  case (other ops s t)
  then show ?case by (simp add: log_inv_def)
qed

text \<open>C8: Log space never runs out under an operation. In every interleaving of operations that begin\_op has
  admitted, an operation that has logged fewer than MAXOPBLOCKS different blocks can log one more:
  log\_write does not panic, and the log holds at most LOGBLOCKS blocks afterwards.\<close>

theorem log_write_never_overflows:
  assumes "log_run ops s" and "ops i = Some W" and "card W < MAXOPBLOCKS"
  shows "\<exists>t. log_write b s = Ok () t \<and> lh_n (l_lh (klog t)) \<le> int LOGBLOCKS \<and>
    b_blockno (bufs s ! b) \<in> in_log (klog t)"
proof -
  note r = log_inv_room [OF log_run_inv [OF assms(1)] assms(2,3)]
  obtain t where "log_write b s = Ok () t" "in_log (klog t) = insert (b_blockno (bufs s ! b)) (in_log (klog s))"
      "lh_n (l_lh (klog t)) = lh_n (l_lh (klog s)) + (if b_blockno (bufs s ! b) \<in> in_log (klog s) then 0 else 1)"
    using log_write_klog [OF r, of b] by (elim exE conjE) (rule that)
  then show ?thesis using r(2) by (intro exI [of _ t]) simp
qed

theorem log_write_never_overflows_witness:
  "\<exists>s t. log_run [0 \<mapsto> {}] s \<and> log_write 3 s = Ok () t"
proof -
  let ?s = "upd_log (\<lambda>l. l\<lparr>l_outstanding := l_outstanding l + 1\<rparr>) kstate0"
  have k: "klog kstate0 = log0" by (simp add: kstate0_def)
  have "begin_op kstate0 = Ok () ?s" by (simp add: begin_op_def get_log_def k log0_def)
  moreover have "klog ?s \<noteq> klog kstate0" by (simp add: k log0_def)
  moreover have "log_run (\<lambda>_. None) kstate0" by (rule log_run.idle) (simp_all add: k log0_def)
  ultimately have r: "log_run [0 \<mapsto> {}] ?s" using log_run.begins [of "\<lambda>_. None" kstate0 0 ?s] by simp
  then show ?thesis using log_write_never_overflows [OF r, of 0 "{}" 3] by auto
qed

end
