(* ===== verification/Xv6_Invariant.thy ===== *)
theory Xv6_Invariant
  imports Xv6_Frame
begin

text \<open>
  An invariant of the whole kernel, from boot through every trap: the tables keep their sizes, and no
  two processes have the same pid.
\<close>

section \<open>The rest of the kernel\<close>

locale kernel_frame = file_frame +
  assumes P_vdisk: "P s \<Longrightarrow> P (s\<lparr>vdisk := v\<rparr>)"
    and P_machine: "P s \<Longrightarrow> P (s\<lparr>ticks := tk\<rparr>)" "P s \<Longrightarrow> P (s\<lparr>csrs := c\<rparr>)" "P s \<Longrightarrow> P (s\<lparr>plic := pl\<rparr>)"
      "P s \<Longrightarrow> P (s\<lparr>kernel_pagetable := kp\<rparr>)" "P s \<Longrightarrow> P (s\<lparr>started := b\<rparr>)" "P s \<Longrightarrow> P (s\<lparr>forkret_first := b\<rparr>)"
      "P s \<Longrightarrow> P (s\<lparr>initproc := ip\<rparr>)"
    and keeps_allocproc: "preserves P allocproc" and keeps_freeproc: "preserves P (freeproc i)"
begin

lemmas [preserve] = keeps_allocproc keeps_freeproc

lemma P_vdisk_update: "P s \<Longrightarrow> P (vdisk_update f s)"
  using P_vdisk [of s "f (vdisk s)"] by (cases s) simp

lemma keeps_machine [preserve]:
  "preserves P (kmodify (vdisk_update f))" "preserves P (kmodify (\<lambda>s. s\<lparr>ticks := g s\<rparr>))" "preserves P (set_csr h)"
  "preserves P (plic_store a v)" "preserves P (kmodify (\<lambda>s. s\<lparr>kernel_pagetable := kp\<rparr>))"
  "preserves P (kmodify (\<lambda>s. s\<lparr>started := b\<rparr>))" "preserves P (kmodify (\<lambda>s. s\<lparr>forkret_first := b\<rparr>))"
  "preserves P (kmodify (\<lambda>s. s\<lparr>initproc := ip\<rparr>))" "preserves P (set_vreg r w)"
  unfolding set_csr_def plic_store_def set_vreg_def by (rule preserves_kmodify, erule P_vdisk_update P_machine)+

lemma keeps_virtio_disk_intr [preserve]: "preserves P virtio_disk_intr"
proof -
  have "preserves P (virtio_intr_loop n)" for n
    by (induction n) (auto simp: Let_def intro!: preserve simp del: kbind_basic)
  then show ?thesis unfolding virtio_disk_intr_def by (intro preserve)
qed

lemma keeps_virtio_disk_init [preserve]: "preserves P virtio_disk_init"
  unfolding virtio_disk_init_def by (intro preserve)

lemma keeps_kwait [preserve]: "preserves P (kwait addr)"
proof -
  have s: "preserves P (kwait_scan is havekids addr)" for "is" havekids
    by (induction "is" arbitrary: havekids) (auto intro!: preserve simp del: kbind_basic)
  show ?thesis unfolding kwait_def by (rule preserves_kbind [OF s]) (auto intro!: preserve split: wait_scan.split)
qed

lemma keeps_loadseg [preserve]: "preserves P (loadseg pagetable va ip offset sz)"
proof -
  have "preserves P (loadseg_loop is pagetable va ip offset sz)" for "is"
    by (induction "is") (auto simp: Let_def intro!: preserve)
  then show ?thesis by (simp add: loadseg_def)
qed

lemma keeps_load_segments [preserve]: "preserves P (load_segments m off pagetable ip sz)"
  by (induction m arbitrary: off sz) (auto simp: Let_def intro!: preserve)

lemma keeps_push_args [preserve]: "preserves P (push_args args pagetable sz stackbase sp)"
  by (induction args arbitrary: sp) (auto simp: Let_def intro!: preserve)

lemma keeps_fetch_args [preserve]: "preserves P (fetch_args m i uargv)"
  by (induction m arbitrary: i) (auto intro!: preserve simp del: kbind_basic split: option.split)

lemma keeps_exec_commit [preserve]: "preserves P (exec_commit path argv elf pagetable sz0)"
  unfolding exec_commit_def exec_bad_def by (intro preserve)

lemma keeps_kexec [preserve]: "preserves P (kexec path argv)"
  unfolding kexec_def exec_bad_open_def by (intro preserve)

lemma keeps_sys_exec [preserve]: "preserves P sys_exec"
  unfolding sys_exec_def by (intro preserve)

lemma keeps_kfork [preserve]: "preserves P kfork"
  unfolding kfork_def dup_file_def by (intro preserve)

lemma keeps_kexit [preserve]: "preserves P (kexit status)"
  unfolding kexit_def close_fd_def by (intro preserve)

lemma keeps_process_calls [preserve]:
  "preserves P sys_exit" "preserves P sys_getpid" "preserves P sys_fork" "preserves P sys_wait" "preserves P sys_sbrk"
  "preserves P sys_pause" "preserves P sys_kill" "preserves P sys_uptime"
  unfolding sys_exit_def sys_getpid_def sys_fork_def sys_wait_def sys_sbrk_def sys_pause_def pause_wait_def sys_kill_def sys_uptime_def
  by (intro preserve)+

lemma keeps_syscalls: "syscalls num = Some f \<Longrightarrow> preserves P f"
  unfolding syscalls_def by (auto simp: preserve split: if_splits)

lemma keeps_syscall [preserve]: "preserves P syscall"
proof -
  have "preserves P (case syscalls num of Some f \<Rightarrow> kbind f g | None \<Rightarrow> h)" if "\<And>r. preserves P (g r)" "preserves P h" for num g and h :: "'a kernel"
    by (cases "syscalls num") (simp_all add: preserves_kbind keeps_syscalls that)
  note table = this
  show ?thesis unfolding syscall_def Let_def
    by (rule preserves_kbind, intro preserve, rule preserves_kbind, intro preserve, rule table; intro preserve)
qed

lemma keeps_devintr [preserve]: "preserves P devintr"
  unfolding devintr_def clockintr_def plic_complete_def by (intro preserve)

lemma keeps_prepare_return [preserve]: "preserves P prepare_return"
  unfolding prepare_return_def intr_off_def by (intro preserve)

lemma keeps_traps [preserve]: "preserves P usertrap" "preserves P (kerneltrap running)"
  unfolding usertrap_def usertrap_cause_def intr_on_def kerneltrap_def by (intro preserve)+

lemma keeps_forkret [preserve]: "preserves P forkret"
  unfolding forkret_def by (intro preserve)

lemma keeps_main [preserve]: "preserves P main"
  unfolding main_def kvminit_def kvminithart_def procinit_def trapinithart_def plicinit_def plicinithart_def userinit_def
  by (intro preserve | simp add: preserves_def)+

end

section \<open>The invariant\<close>

text \<open>Every table has the size param.h gives it.\<close>

definition tables_ok :: "kstate \<Rightarrow> bool" where
  "tables_ok s \<longleftrightarrow> length (procs s) = NPROC \<and> (\<forall>p\<in>set (procs s). length (p_ofile p) = NOFILE \<and> length (p_name p) = 16) \<and>
     length (bufs s) = NBUF + 1 \<and> length (lh_block (l_lh (klog s))) = LOGBLOCKS \<and> length (itable s) = NINODE \<and>
     length (ftable s) = NFILE \<and> (\<forall>pi. length (pi_data (pipes s pi)) = 512) \<and> length (c_buf (cons s)) = 128"

text \<open>A slot with no process has pid 0; the others have distinct pids that allocpid has already given out.\<close>

definition pids_ok :: "kstate \<Rightarrow> bool" where
  "pids_ok s \<longleftrightarrow> 1 \<le> nextpid s \<and> (\<forall>p\<in>set (procs s). 0 \<le> p_pid p \<and> p_pid p < nextpid s) \<and>
     (\<forall>i<length (procs s). \<forall>j<length (procs s). i \<noteq> j \<longrightarrow> p_pid (procs s ! i) = p_pid (procs s ! j) \<longrightarrow> p_pid (procs s ! i) = 0)"

definition kernel_inv :: "kstate \<Rightarrow> bool" where
  "kernel_inv s \<longleftrightarrow> tables_ok s \<and> pids_ok s"

lemma set_upd_nth: "x \<in> set (upd_nth i f xs) \<Longrightarrow> x \<in> set xs \<or> (i < length xs \<and> x = f (xs ! i))"
  unfolding upd_nth_def using set_update_subset_insert [of xs i "f (xs ! i)"] by (cases "i < length xs") (auto simp: list_update_beyond)

lemma kernel_inv_fields:
  assumes "kernel_inv s" "procs t = procs s" "nextpid t = nextpid s" "length (bufs t) = length (bufs s)"
    "length (lh_block (l_lh (klog t))) = length (lh_block (l_lh (klog s)))" "length (itable t) = length (itable s)"
    "length (ftable t) = length (ftable s)" "\<And>pi. length (pi_data (pipes t pi)) = length (pi_data (pipes s pi))"
    "length (c_buf (cons t)) = length (c_buf (cons s))"
  shows "kernel_inv t"
  using assms by (simp add: kernel_inv_def tables_ok_def pids_ok_def)

text \<open>Changing one process keeps the invariant when its new pid is 0, its own, or one not yet given out.\<close>

lemma kernel_inv_proc:
  assumes inv: "kernel_inv s" and n: "nextpid s \<le> n"
    and f: "\<And>p. length (p_ofile (f p)) = length (p_ofile p)" "\<And>p. length (p_name p) = 16 \<Longrightarrow> length (p_name (f p)) = 16"
    and pid: "\<And>p. p_pid (f p) = 0 \<or> p_pid (f p) = p_pid p \<or> (p_pid (f p) = nextpid s \<and> nextpid s < n)"
  shows "kernel_inv (procs_update (upd_nth i f) (s\<lparr>nextpid := n\<rparr>))"
proof -
  have old: "length (p_ofile p) = NOFILE" "length (p_name p) = 16" "0 \<le> p_pid p" "p_pid p < nextpid s" if "p \<in> set (procs s)" for p
    using inv that by (auto simp: kernel_inv_def tables_ok_def pids_ok_def)
  have n1: "1 \<le> nextpid s" using inv by (simp add: kernel_inv_def pids_ok_def)
  have new: "length (p_ofile p) = NOFILE \<and> length (p_name p) = 16 \<and> 0 \<le> p_pid p \<and> p_pid p < n"
    if "p \<in> set (upd_nth i f (procs s))" for p
  proof (cases "p \<in> set (procs s)")
    case True then show ?thesis using old [of p] n by auto
  next
    case False
    then have "p = f (procs s ! i)" "procs s ! i \<in> set (procs s)" using set_upd_nth [OF that] by auto
    then show ?thesis using old [of "procs s ! i"] pid [of "procs s ! i"] f n n1 by auto
  qed
  have dist: "p_pid (upd_nth i f (procs s) ! j) = 0"
    if "j < length (procs s)" "k < length (procs s)" "j \<noteq> k" "p_pid (upd_nth i f (procs s) ! j) = p_pid (upd_nth i f (procs s) ! k)" for j k
  proof -
    have "p_pid (procs s ! j) = p_pid (procs s ! k) \<longrightarrow> p_pid (procs s ! j) = 0"
      using inv that by (auto simp: kernel_inv_def pids_ok_def)
    moreover have "p_pid (procs s ! j) < nextpid s" "p_pid (procs s ! k) < nextpid s" using old that by auto
    ultimately show ?thesis using that pid [of "procs s ! j"] pid [of "procs s ! k"] by (auto simp: nth_upd_nth split: if_splits)
  qed
  have t: "tables_ok s" using inv by (simp add: kernel_inv_def)
  have "tables_ok (procs_update (upd_nth i f) (s\<lparr>nextpid := n\<rparr>))" using t new by (simp add: tables_ok_def)
  moreover have "pids_ok (procs_update (upd_nth i f) (s\<lparr>nextpid := n\<rparr>))" using new dist n n1 unfolding pids_ok_def by simp
  ultimately show ?thesis by (simp add: kernel_inv_def)
qed

lemma kernel_inv_upd_proc:
  assumes "kernel_inv s" "\<And>p. same_proc p (f p)"
  shows "kernel_inv (procs_update (upd_nth i f) s)"
  using kernel_inv_proc [OF assms(1) order_refl, of f i] assms(2) by (simp add: same_proc_def)

interpretation inv: file_frame kernel_inv
  by unfold_locales (auto intro: kernel_inv_upd_proc elim: kernel_inv_fields)

lemma freeproc_keeps_inv [preserve]: "preserves kernel_inv (freeproc i)"
proof -
  have "kernel_inv (procs_update (upd_nth i (\<lambda>p. p\<lparr>p_pagetable := 0, p_sz := 0, p_pid := 0, p_name := (p_name p)[0 := 0],
      p_chan := None, p_killed := False, p_xstate := 0, p_state := UNUSED\<rparr>)) s)" if "kernel_inv s" for s
    using kernel_inv_proc [OF that order_refl, of "\<lambda>p. p\<lparr>p_pagetable := 0, p_sz := 0, p_pid := 0, p_name := (p_name p)[0 := 0],
      p_chan := None, p_killed := False, p_xstate := 0, p_state := UNUSED\<rparr>" i] by simp
  then have "preserves kernel_inv (set_proc i (\<lambda>p. p\<lparr>p_pagetable := 0, p_sz := 0, p_pid := 0, p_name := (p_name p)[0 := 0],
      p_chan := None, p_killed := False, p_xstate := 0, p_state := UNUSED\<rparr>))"
    unfolding set_proc_def by (rule preserves_kmodify)
  then show ?thesis unfolding freeproc_def by (intro preserve)
qed

lemma give_pid_keeps_inv:
  assumes "preserves kernel_inv m"
  shows "preserves kernel_inv (kbind allocpid (\<lambda>pid. kthen (set_proc i (\<lambda>p. p\<lparr>p_pid := pid, p_state := USED\<rparr>)) m))"
proof -
  have "kernel_inv (procs_update (upd_nth i (\<lambda>p. p\<lparr>p_pid := nextpid s, p_state := USED\<rparr>)) (s\<lparr>nextpid := nextpid s + 1\<rparr>))"
    if "kernel_inv s" for s
    using kernel_inv_proc [OF that, of "nextpid s + 1" "\<lambda>p. p\<lparr>p_pid := nextpid s, p_state := USED\<rparr>" i] by simp
  then show ?thesis using assms by (simp add: preserves_def allocpid_def set_proc_def kseq)
qed

lemma allocproc_keeps_inv [preserve]: "preserves kernel_inv allocproc"
  unfolding allocproc_def by (intro give_pid_keeps_inv preserve)

interpretation inv: kernel_frame kernel_inv
  by unfold_locales (auto intro: preserve elim: kernel_inv_fields)

section \<open>The states the system reaches\<close>

text \<open>
  From reset, with any memory, disk and device registers: the kernel boots, the scheduler switches to
  a process, the process runs in user mode (its memory and its saved registers change), traps into the
  kernel from user mode or interrupts it in the kernel, and returns to user mode for the first time
  through forkret. The devices act on their own. A trap that gives up the CPU in the middle leaves the
  state at that point.
\<close>

definition goes :: "'a kernel \<Rightarrow> kstate \<Rightarrow> kstate \<Rightarrow> bool" where
  "goes m s t \<longleftrightarrow> (case m s of Ok _ u \<Rightarrow> t = u | Sleep u \<Rightarrow> t = u | Panic _ \<Rightarrow> False)"

inductive system :: "kstate \<Rightarrow> bool" where
  reset: "system (kstate0\<lparr>mem := m, disk := d, csrs := c, vdisk := v, uart_regs := g, uart_rx := r\<rparr>)"
| boot: "system s \<Longrightarrow> goes main s t \<Longrightarrow> system t"
| switch: "system s \<Longrightarrow> system ((upd_proc i (\<lambda>p. p\<lparr>p_state := RUNNING\<rparr>) s)\<lparr>cur := i\<rparr>)"
| user: "system s \<Longrightarrow> system (s\<lparr>mem := m, trapframes := tf, csrs := c\<rparr>)"
| devices: "system s \<Longrightarrow> system (s\<lparr>uart_rx := r, uart_idle := u, plic := p, csrs := c\<rparr>)"
| disk: "system s \<Longrightarrow> system (device_step s)"
| trap: "system s \<Longrightarrow> goes usertrap s t \<Longrightarrow> system t"
| interrupt: "system s \<Longrightarrow> goes (kerneltrap running) s t \<Longrightarrow> system t"
| first_return: "system s \<Longrightarrow> goes forkret s t \<Longrightarrow> system t"

lemma goes_keeps: "preserves P m \<Longrightarrow> P s \<Longrightarrow> goes m s t \<Longrightarrow> P t"
  by (drule preserves_def [THEN iffD1, rule_format], assumption, cases "m s") (simp_all add: goes_def)

lemma kernel_inv_reset: "kernel_inv kstate0"
proof -
  have p: "procs kstate0 = replicate NPROC proc0" "nextpid kstate0 = 1" by (simp_all add: kstate0_def)
  have "set (procs kstate0) \<subseteq> {proc0}" unfolding p by auto
  moreover have "procs kstate0 ! i = proc0" if "i < length (procs kstate0)" for i using that unfolding p by simp
  ultimately have "pids_ok kstate0" unfolding pids_ok_def p(2) by (auto simp: proc0_def)
  moreover have "tables_ok kstate0" using \<open>set (procs kstate0) \<subseteq> {proc0}\<close>
    by (auto simp: tables_ok_def p(1) proc0_def) (simp_all add: kstate0_def log0_def pipe0_def)
  ultimately show ?thesis by (simp add: kernel_inv_def)
qed

lemma device_step_keeps_inv:
  assumes "kernel_inv s"
  shows "kernel_inv (device_step s)"
  by (rule kernel_inv_fields [OF assms])
    (auto simp: device_step_def Let_def split: prod.split dma.split)

lemma system_inv: "system s \<Longrightarrow> kernel_inv s"
proof (induction rule: system.induct)
  case reset show ?case by (rule kernel_inv_fields [OF kernel_inv_reset]) simp_all
next
  case (switch s i)
  have "kernel_inv (upd_proc i (\<lambda>p. p\<lparr>p_state := RUNNING\<rparr>) s)"
    by (rule kernel_inv_upd_proc [OF switch.IH]) (simp add: same_proc_def)
  then show ?case by (rule kernel_inv_fields) simp_all
next
  case (user s) show ?case by (rule kernel_inv_fields [OF user.IH]) simp_all
next
  case (devices s) show ?case by (rule kernel_inv_fields [OF devices.IH]) simp_all
next
  case boot then show ?case by (blast intro: goes_keeps [OF inv.keeps_main])
next
  case disk then show ?case by (blast intro: device_step_keeps_inv)
next
  case trap then show ?case by (blast intro: goes_keeps [OF inv.keeps_traps(1)])
next
  case interrupt then show ?case by (blast intro: goes_keeps [OF inv.keeps_traps(2)])
next
  case first_return then show ?case by (blast intro: goes_keeps [OF inv.keeps_forkret])
qed


lemma system_kstate0: "system kstate0"
  using system.reset [where m = "mem kstate0" and d = "disk kstate0" and c = "csrs kstate0" and v = "vdisk kstate0"
    and g = "uart_regs kstate0" and r = "uart_rx kstate0"] by simp




end
