(* ===== verification/Spec2Isabelle.thy ===== *)
theory Spec2Isabelle
  imports Xv6_Spinlock Xv6_Asm Xv6_FileIO Xv6_Tty Xv6_Fork Xv6_Kill Xv6_Reserve Xv6_Invariant
begin

text \<open>
  A verification development for the xv6 kernel of this repository (src/kernel).

  \<^bold>\<open>The program.\<close> xv6 is a small Unix for RISC-V. A kernel of about six thousand lines manages
  physical pages (kalloc.c), Sv39 page tables (vm.c), processes (proc.c), a buffer cache over a virtio
  disk (bio.c, virtio\_disk.c), a write-ahead log (log.c), a file system (fs.c), open files and pipes
  (file.c, pipe.c), the console (console.c, uart.c, printk.c), system calls (syscall.c, sysfile.c,
  sysproc.c, exec.c) and traps (trap.c, plic.c).

  \<^bold>\<open>The model.\<close> The kernel's state is one record, \<open>kstate\<close> (Xv6\_State): byte memory, the page
  allocator, the process table, the buffer cache, the log, the in-memory inodes, open files, pipes,
  the console, the device registers and the disk. A C function becomes a function of the state that
  ends in \<open>Ok\<close> with a result and a new state, in \<open>Panic\<close> with the message, or in \<open>Sleep\<close> where the code
  gives up the CPU (Xv6\_Prelude). Machine integers are words of their width, user memory and page
  tables live in byte memory, C structures are records and tables are lists updated in place. The
  code between acquire and release of a spin lock is one atomic step; the locks themselves are
  modelled with several CPUs in Xv6\_Spinlock.

  \<^item> Xv6\_Prelude: the monad, its rewrite rules and the weakest-precondition calculus.
  \<^item> Xv6\_Bytes: little-endian words in byte lists. Xv6\_String: string.c on byte memory.
  \<^item> Xv6\_State: the records and datatypes of proc.h, buf.h, file.h, fs.h, log.c, pipe.c and the devices.
  \<^item> Xv6\_Kalloc: kalloc.c. The free list refines a stack of pages.
  \<^item> Xv6\_Vm: vm.c. Xv6\_Pagetable: page tables as trees, walk and mappages. Xv6\_Uvm: user memory as a
    map from addresses to bytes, copyin, copyout, vmfault, uvmunmap. Xv6\_Fork: uvmcopy gives the child of
    a fork the parent's bytes in pages of its own.
  \<^item> Xv6\_Spinlock: spinlock.c as a step relation of several CPUs with interrupts.
  \<^item> Xv6\_Printk, Xv6\_Console: printk.c, console.c and uart.c. Xv6\_Tty: the line discipline refines two
    strings, the finished lines and the line being edited.
  \<^item> Xv6\_Proc, Xv6\_Process: proc.c and exec.c. Xv6\_Sleep: interleavings of sleep, wakeup, kill and the
    scheduler. Xv6\_Kill: kill(0) reaches an unused slot of the process table and allocproc does not
    clear the flag.
  \<^item> Xv6\_Bio: bio.c. Xv6\_Bcache: the list of buffers, coherence of the cache with the disk.
  \<^item> Xv6\_Log: log.c. Xv6\_Crash: commit and recovery with crashes between any two disk writes.
    Xv6\_Trans: the rules of operations inside a transaction. Xv6\_Reserve: interleavings of operations
    that begin\_op admits, and the room they find in the log.
  \<^item> Xv6\_Fs: fs.c. Xv6\_Bitmap: block allocation. Xv6\_Contents: bmap and the blocks of a file.
    Xv6\_FileBytes, Xv6\_FileWrite, Xv6\_FileIO: readi and writei refine an array of bytes.
  \<^item> Xv6\_Pipe: pipe.c. Xv6\_Ring: a pipe refines a bounded queue of bytes.
  \<^item> Xv6\_File, Xv6\_Sysfile: file.c and sysfile.c. Xv6\_Virtio: virtio\_disk.c and the device.
  \<^item> Xv6\_Trap: syscall.c, sysproc.c, trap.c, plic.c and main.c.
  \<^item> Xv6\_Asm: entry.S, start.c, swtch.S, kernelvec.S and trampoline.S as lists of instructions of a
    RISC-V hart; a trap keeps the user's registers, a switch resumes its caller, a hart reaches main.
  \<^item> Xv6\_Frame: one locale per layer of the kernel with the fields its operations change; every
    operation preserves a property that does not depend on them. Xv6\_Invariant interprets them for an
    invariant of the whole kernel: sizes of tables and uniqueness of pids.

  \<^bold>\<open>Bounds and fuel.\<close> Loops over a range are \<open>kfor\<close> over the list of indices. Loops that follow the
  wrapping counters of a device ring or of the UART take the number of iterations the device allows
  as an argument and have an outcome of their own when it is used up. The recursion of readi, writei
  and namex has a termination proof on the remaining bytes.

  \<^bold>\<open>Not modelled.\<close> User programs and their library, mkfs, the test programs and the linker scripts. The
  outcome \<open>Sleep\<close> ends the step of a process: what it does after it is woken is the code after the call,
  which the loops of the source enter again by checking their condition. Memory accesses to kernel
  variables are not byte-level. The C int nextpid is an unbounded integer.
\<close>

end
